(* ===== verification/Obelisk_Prelude.thy ===== *)
theory Obelisk_Prelude
  imports Main "HOL-Library.Word"
begin

text \<open>
  Shared vocabulary of the development: the machine integer types of
  \<^verbatim>\<open>kernel/include/obelisk/types.h\<close>, the error numbers of
  \<^verbatim>\<open>kernel/include/obelisk/errno.h\<close>, the alignment and page-frame macros, the small library
  of facts about words and lists the components share, and the interface locale of a bit array,
  which \<^verbatim>\<open>lib/bitmap.c\<close> and the page allocator's own bitmap both provide.
\<close>

unbundle bit_operations_syntax

section \<open>Machine integers and error numbers\<close>

type_synonym u8 = "8 word"
type_synonym u16 = "16 word"
type_synonym u32 = "32 word"
type_synonym u64 = "64 word"

datatype errno =
    EPERM | ENOENT | ESRCH | EINTR | EIO | E2BIG | ENOEXEC | EBADF | ECHILD | EAGAIN | ENOMEM
  | EACCES | EFAULT | EBUSY | EEXIST | EXDEV | ENODEV | ENOTDIR | EISDIR | EINVAL | EMFILE
  | ENOTTY | ENOSPC | ESPIPE | EROFS | EMLINK | EPIPE | ERANGE | ENAMETOOLONG | ENOSYS
  | ENOTEMPTY | ELOOP | EMSGSIZE

text \<open>A kernel routine returns either an error number (in C: its negation) or a value.\<close>

type_synonym 'a res = "errno + 'a"

primrec errno_num :: "errno \<Rightarrow> int" where
  "errno_num EPERM = 1"
| "errno_num ENOENT = 2"
| "errno_num ESRCH = 3"
| "errno_num EINTR = 4"
| "errno_num EIO = 5"
| "errno_num E2BIG = 7"
| "errno_num ENOEXEC = 8"
| "errno_num EBADF = 9"
| "errno_num ECHILD = 10"
| "errno_num EAGAIN = 11"
| "errno_num ENOMEM = 12"
| "errno_num EACCES = 13"
| "errno_num EFAULT = 14"
| "errno_num EBUSY = 16"
| "errno_num EEXIST = 17"
| "errno_num EXDEV = 18"
| "errno_num ENODEV = 19"
| "errno_num ENOTDIR = 20"
| "errno_num EISDIR = 21"
| "errno_num EINVAL = 22"
| "errno_num EMFILE = 24"
| "errno_num ENOTTY = 25"
| "errno_num ENOSPC = 28"
| "errno_num ESPIPE = 29"
| "errno_num EROFS = 30"
| "errno_num EMLINK = 31"
| "errno_num EPIPE = 32"
| "errno_num ERANGE = 34"
| "errno_num ENAMETOOLONG = 36"
| "errno_num ENOSYS = 38"
| "errno_num ENOTEMPTY = 39"
| "errno_num ELOOP = 40"
| "errno_num EMSGSIZE = 90"

section \<open>Alignment and page-frame macros\<close>

definition PAGE_SIZE :: u64 where
  "PAGE_SIZE = 4096"

definition PAGE_SHIFT :: nat where
  "PAGE_SHIFT = 12"

definition ALIGN_UP :: "u64 \<Rightarrow> u64 \<Rightarrow> u64" where
  "ALIGN_UP x align = (x + (align - 1)) AND NOT (align - 1)"

definition ALIGN_DOWN :: "u64 \<Rightarrow> u64 \<Rightarrow> u64" where
  "ALIGN_DOWN x align = x AND NOT (align - 1)"

definition KERNEL_PHYS_MAP_BASE :: u64 where
  "KERNEL_PHYS_MAP_BASE = 0xFFFF888000000000"

definition PHYS_TO_VIRT :: "u64 \<Rightarrow> u64" where
  "PHYS_TO_VIRT addr = addr + KERNEL_PHYS_MAP_BASE"

definition VIRT_TO_PHYS :: "u64 \<Rightarrow> u64" where
  "VIRT_TO_PHYS addr = addr - KERNEL_PHYS_MAP_BASE"

section \<open>Words\<close>

lemma unat_inc [simp]:
  fixes x :: "'a :: len word"
  assumes "unat x + 1 < 2 ^ LENGTH('a)"
  shows "unat (x + 1) = unat x + 1"
  using assms by (simp add: unat_word_ariths)

lemma unat_dec:
  fixes x :: "'a :: len word"
  assumes "x \<noteq> 0"
  shows "unat (x - 1) = unat x - 1"
  using assms by (metis unat_minus_one)

lemma word_of_nat_unat_self [simp]: "(of_nat (unat w) :: 'a :: len word) = w"
  by (simp add: word_unat_eq_iff unat_of_nat)

lemma unat_word_of_nat [simp]:
  "n < 2 ^ LENGTH('a :: len) \<Longrightarrow> unat (of_nat n :: 'a word) = n"
  by (simp add: unat_of_nat)

lemma unat_u64_bound: "unat (w :: u64) < 2 ^ 64"
  using unsigned_less [of w] by simp

lemma unat_u64_minus_one: "unat (- 1 :: u64) = 2 ^ 64 - 1"
  by (simp add: unsigned_minus_1_eq_mask mask_eq_exp_minus_1)

lemma not_bit_u8 [simp]: "8 \<le> n \<Longrightarrow> \<not> bit (b :: u8) n"
  using bit_imp_le_length [of b n] by auto

lemma unat_and_not_mask: "unat (w AND NOT (mask n) :: u64) = 2 ^ n * (unat w div 2 ^ n)"
proof -
  have "w AND NOT (mask n) = push_bit n (drop_bit n w)"
    by (rule bit_word_eqI) (auto simp: bit_simps dest: bit_imp_le_length)
  moreover have "unat (push_bit n (drop_bit n w)) = take_bit 64 (push_bit n (drop_bit n (unat w)))"
    using take_bit_nat_eq_self [OF unat_u64_bound [of w]]
    by (simp add: unsigned_push_bit_eq unsigned_drop_bit_eq)
  moreover have "2 ^ n * (unat w div 2 ^ n) < 2 ^ 64"
    using unat_u64_bound [of w] by (metis times_div_less_eq_dividend le_less_trans)
  ultimately show ?thesis
    by (simp add: push_bit_eq_mult drop_bit_eq_div take_bit_nat_eq_self mult.commute)
qed

lemma phys_virt_inverse [simp]: "VIRT_TO_PHYS (PHYS_TO_VIRT a) = a"
  by (simp add: PHYS_TO_VIRT_def VIRT_TO_PHYS_def)

lemma all_less_3: "(\<forall>i<3. P i) \<longleftrightarrow> P 0 \<and> P (Suc 0) \<and> P (2 :: nat)"
  by (auto simp: less_Suc_eq numeral_3_eq_3 numeral_2_eq_2)

section \<open>Bit arrays\<close>

text \<open>
  The contract of a bit array indexed by naturals below a capacity: setting and clearing a bit
  changes the observation of exactly that bit. The client's facts are about counting the clear
  bits of a range, which is what an allocator's free counter has to agree with.
\<close>

locale bit_array =
  fixes test :: "'b \<Rightarrow> nat \<Rightarrow> bool"
    and setb :: "'b \<Rightarrow> nat \<Rightarrow> 'b"
    and clearb :: "'b \<Rightarrow> nat \<Rightarrow> 'b"
    and cap :: "'b \<Rightarrow> nat"
  assumes cap_setb: "cap (setb b i) = cap b"
    and cap_clearb: "cap (clearb b i) = cap b"
    and test_setb: "i < cap b \<Longrightarrow> test (setb b i) j = (j = i \<or> test b j)"
    and test_clearb: "i < cap b \<Longrightarrow> test (clearb b i) j = (j \<noteq> i \<and> test b j)"
begin

lemma card_clear_setb:
  assumes "i < cap b" and "i \<in> R" and "\<not> test b i" and "finite R"
  shows "card {j \<in> R. \<not> test b j} = Suc (card {j \<in> R. \<not> test (setb b i) j})"
proof -
  have "{j \<in> R. \<not> test b j} = insert i {j \<in> R. \<not> test (setb b i) j}"
    using assms(1-3) by (auto simp: test_setb)
  then show ?thesis using assms by (simp add: test_setb)
qed

lemma card_clear_clearb:
  assumes "i < cap b" and "i \<in> R" and "test b i" and "finite R"
  shows "card {j \<in> R. \<not> test (clearb b i) j} = Suc (card {j \<in> R. \<not> test b j})"
proof -
  have "{j \<in> R. \<not> test (clearb b i) j} = insert i {j \<in> R. \<not> test b j}"
    using assms by (auto simp: test_clearb)
  then show ?thesis using assms by simp
qed

lemma cap_fold_setb: "cap (fold (\<lambda>i b. setb b i) xs b) = cap b"
  by (induction xs arbitrary: b) (simp_all add: cap_setb)

lemma test_fold_setb:
  "set xs \<subseteq> {..<cap b} \<Longrightarrow> test (fold (\<lambda>i b. setb b i) xs b) j = (j \<in> set xs \<or> test b j)"
  by (induction xs arbitrary: b) (auto simp: cap_setb test_setb)

lemma clear_fold_setb:
  assumes "set xs \<subseteq> {..<cap b}"
  shows "{j \<in> R. \<not> test (fold (\<lambda>i b. setb b i) xs b) j} = {j \<in> R. \<not> test b j} - set xs"
  using assms by (auto simp: test_fold_setb)

lemma clear_outside:
  assumes "i < cap b" and "i \<notin> R"
  shows "{j \<in> R. \<not> test (setb b i) j} = {j \<in> R. \<not> test b j}"
    and "{j \<in> R. \<not> test (clearb b i) j} = {j \<in> R. \<not> test b j}"
  using assms by (auto simp: test_setb test_clearb)

end

end
