(* ===== verification/List_Head.thy ===== *)
theory List_Head
  imports Obelisk_Prelude
begin

text \<open>
  The intrusive circular doubly linked lists of \<^verbatim>\<open>kernel/include/obelisk/types.h\<close>
  (\<^verbatim>\<open>struct list_head\<close>), on an explicit store of \<^verbatim>\<open>next\<close> and \<^verbatim>\<open>prev\<close>
  pointers. The lemmas show that on well-formed lists the pointer operations are the list
  operations the other theories use: \<^verbatim>\<open>list_add\<close> is consing, \<^verbatim>\<open>list_add_tail\<close> is
  appending, \<^verbatim>\<open>list_del\<close> removes one element, and a traversal visits the elements in order.
\<close>

section \<open>The store and the operations\<close>

record list_heap =
  nxt :: "u64 \<Rightarrow> u64"
  prv :: "u64 \<Rightarrow> u64"

definition set_next :: "u64 \<Rightarrow> u64 \<Rightarrow> list_heap \<Rightarrow> list_heap" where
  "set_next a v h = h\<lparr>nxt := (nxt h)(a := v)\<rparr>"

definition set_prev :: "u64 \<Rightarrow> u64 \<Rightarrow> list_heap \<Rightarrow> list_heap" where
  "set_prev a v h = h\<lparr>prv := (prv h)(a := v)\<rparr>"

definition INIT_LIST_HEAD :: "u64 \<Rightarrow> list_heap \<Rightarrow> list_heap" where
  "INIT_LIST_HEAD l h = set_prev l l (set_next l l h)"

definition list_add_between :: "u64 \<Rightarrow> u64 \<Rightarrow> u64 \<Rightarrow> list_heap \<Rightarrow> list_heap" where
  "list_add_between new_node prev next h =
     (let h1 = set_prev next new_node h;
          h2 = set_next new_node next h1;
          h3 = set_prev new_node prev h2
      in set_next prev new_node h3)"

definition list_add :: "u64 \<Rightarrow> u64 \<Rightarrow> list_heap \<Rightarrow> list_heap" where
  "list_add new_node head h = list_add_between new_node head (nxt h head) h"

definition list_add_tail :: "u64 \<Rightarrow> u64 \<Rightarrow> list_heap \<Rightarrow> list_heap" where
  "list_add_tail new_node head h = list_add_between new_node (prv h head) head h"

definition list_del_between :: "u64 \<Rightarrow> u64 \<Rightarrow> list_heap \<Rightarrow> list_heap" where
  "list_del_between prev next h = set_next prev next (set_prev next prev h)"

definition list_del :: "u64 \<Rightarrow> list_heap \<Rightarrow> list_heap" where
  "list_del entry h =
     (let h1 = list_del_between (prv h entry) (nxt h entry) h
      in set_prev entry entry (set_next entry entry h1))"

definition list_empty :: "list_heap \<Rightarrow> u64 \<Rightarrow> bool" where
  "list_empty h head = (nxt h head = head)"

text \<open>The nodes \<^verbatim>\<open>list_for_each\<close> visits from \<open>pos\<close> on; \<open>None\<close> when it never returns to the head.\<close>

partial_function (option) list_for_each :: "list_heap \<Rightarrow> u64 \<Rightarrow> u64 \<Rightarrow> u64 list option" where
  "list_for_each h head pos =
     (if pos = head then Some []
      else Option.bind (list_for_each h head (nxt h pos)) (\<lambda>rest. Some (pos # rest)))"

section \<open>Well-formed lists\<close>

text \<open>\<open>links h a xs b\<close>: following \<^verbatim>\<open>next\<close> from \<open>a\<close> visits \<open>xs\<close> and then \<open>b\<close>, and every
  \<^verbatim>\<open>prev\<close> pointer on the way points back.\<close>

fun links :: "list_heap \<Rightarrow> u64 \<Rightarrow> u64 list \<Rightarrow> u64 \<Rightarrow> bool" where
  "links h a [] b = (nxt h a = b \<and> prv h b = a)"
| "links h a (x # xs) b = (nxt h a = x \<and> prv h x = a \<and> links h x xs b)"

definition dlist :: "list_heap \<Rightarrow> u64 \<Rightarrow> u64 list \<Rightarrow> bool" where
  "dlist h head xs \<longleftrightarrow> distinct (head # xs) \<and> links h head xs head"

lemmas heap_ops = set_next_def set_prev_def INIT_LIST_HEAD_def list_add_between_def
  list_add_def list_add_tail_def list_del_between_def list_del_def Let_def

lemma links_append:
  "links h a (xs @ y # ys) b \<longleftrightarrow> links h a xs y \<and> links h y ys b"
  by (induction xs arbitrary: a) auto

lemma links_snoc: "links h a (xs @ [y]) b \<longleftrightarrow> links h a xs y \<and> nxt h y = b \<and> prv h b = y"
  by (simp add: links_append)

lemma links_first: "links h a xs b \<Longrightarrow> nxt h a = hd (xs @ [b])"
  by (cases xs) auto

lemma links_last: "links h a xs b \<Longrightarrow> prv h b = last (a # xs)"
  by (induction xs arbitrary: a) auto

lemma links_cong:
  assumes "\<And>x. x \<in> set (a # xs) \<Longrightarrow> nxt h' x = nxt h x"
    and "\<And>x. x \<in> set (xs @ [b]) \<Longrightarrow> prv h' x = prv h x"
  shows "links h' a xs b = links h a xs b"
  using assms by (induction xs arbitrary: a) auto

lemma links_set_next: "c \<notin> set (a # xs) \<Longrightarrow> links (set_next c v h) a xs b = links h a xs b"
  by (rule links_cong) (auto simp: set_next_def)

lemma links_set_prev: "c \<notin> set (xs @ [b]) \<Longrightarrow> links (set_prev c v h) a xs b = links h a xs b"
  by (rule links_cong) (auto simp: set_prev_def)

lemma set_next_apply [simp]:
  "nxt (set_next a v h) x = (if x = a then v else nxt h x)" "prv (set_next a v h) = prv h"
  by (simp_all add: set_next_def)

lemma set_prev_apply [simp]:
  "prv (set_prev a v h) x = (if x = a then v else prv h x)" "nxt (set_prev a v h) = nxt h"
  by (simp_all add: set_prev_def)

lemma dlist_init: "dlist (INIT_LIST_HEAD l h) l []"
  by (simp add: dlist_def INIT_LIST_HEAD_def)

lemma dlist_empty: "dlist h head xs \<Longrightarrow> list_empty h head = (xs = [])"
  by (cases xs) (auto simp: dlist_def list_empty_def)

lemma dlist_add:
  assumes "dlist h head xs" and "n \<notin> set (head # xs)"
  shows "dlist (list_add n head h) head (n # xs)"
proof (cases xs)
  case Nil
  then show ?thesis using assms by (auto simp: dlist_def list_add_def list_add_between_def Let_def)
next
  case (Cons x ys)
  have "links (list_add n head h) x ys head = links h x ys head"
    using assms Cons
    by (intro links_cong) (auto simp: dlist_def list_add_def list_add_between_def Let_def)
  then show ?thesis
    using assms Cons by (auto simp: dlist_def list_add_def list_add_between_def Let_def)
qed

lemma dlist_add_tail:
  assumes "dlist h head xs" and "n \<notin> set (head # xs)"
  shows "dlist (list_add_tail n head h) head (xs @ [n])"
proof (cases xs rule: rev_cases)
  case Nil
  then show ?thesis
    using assms by (auto simp: dlist_def list_add_tail_def list_add_between_def Let_def)
next
  case (snoc ys y)
  have "links (list_add_tail n head h) head ys y = links h head ys y"
    using assms snoc
    by (intro links_cong)
      (auto simp: dlist_def links_snoc list_add_tail_def list_add_between_def Let_def)
  then have "links (list_add_tail n head h) head ((ys @ [y]) @ [n]) head"
    using assms snoc
    unfolding links_snoc
    by (auto simp: dlist_def links_snoc list_add_tail_def list_add_between_def Let_def)
  then show ?thesis
    using assms snoc by (auto simp: dlist_def)
qed

lemma links_del:
  assumes "links h a (xs @ x # ys) b" and "distinct (a # xs @ x # ys)" and "b \<notin> set (xs @ x # ys)"
  shows "links (list_del x h) a (xs @ ys) b"
proof -
  let ?p = "last (a # xs)" and ?n = "hd (ys @ [b])"
  have l1: "links h a xs x" and l2: "links h x ys b"
    using assms(1) by (simp_all add: links_append)
  have p: "prv h x = ?p" and n: "nxt h x = ?n"
    using links_last [OF l1] links_first [OF l2] by simp_all
  have xa: "x \<noteq> a" and xp: "x \<noteq> ?p" and xn: "x \<noteq> ?n"
    using assms(2,3) by (cases ys; auto split: if_splits dest!: last_in_set)+
  have del_nxt: "nxt (list_del x h) z = (if z = x then x else if z = ?p then ?n else nxt h z)"
    and del_prv: "prv (list_del x h) z = (if z = x then x else if z = ?n then ?p else prv h z)" for z
    by (simp_all add: list_del_def list_del_between_def Let_def p n)
  show ?thesis
  proof (cases xs rule: rev_cases)
    case Nil
    show ?thesis
    proof (cases ys)
      case Nil
      then show ?thesis using \<open>xs = []\<close> xa xn by (simp add: del_nxt del_prv)
    next
      case (Cons y zs)
      have "links (list_del x h) y zs b = links h y zs b"
        using assms(2,3) Cons \<open>xs = []\<close> by (intro links_cong) (auto simp: del_nxt del_prv)
      then show ?thesis using l2 Cons \<open>xs = []\<close> xa xn by (simp add: del_nxt del_prv)
    qed
  next
    case (snoc us u)
    have front: "links (list_del x h) a us u = links h a us u"
      using assms(2,3) snoc
      by (intro links_cong) (cases ys; auto simp: del_nxt del_prv)+
    have rear: "links (list_del x h) u ys b"
    proof (cases ys)
      case Nil
      then show ?thesis using snoc xp xn by (simp add: del_nxt del_prv)
    next
      case (Cons y zs)
      have "links (list_del x h) y zs b = links h y zs b"
        using assms(2,3) Cons snoc by (intro links_cong) (auto simp: del_nxt del_prv)
      then show ?thesis using l2 Cons snoc xp xn by (simp add: del_nxt del_prv)
    qed
    show ?thesis using l1 snoc front rear by (simp add: links_append)
  qed
qed

lemma dlist_del:
  assumes "dlist h head (xs @ x # ys)"
  shows "dlist (list_del x h) head (xs @ ys)"
  using assms links_del [of h head xs x ys head] by (auto simp: dlist_def)

lemma dlist_del_self: "dlist (list_del x h) x []"
  by (simp add: dlist_def list_del_def Let_def)

lemma dlist_walk:
  assumes "links h a xs head" and "head \<notin> set xs"
  shows "list_for_each h head (nxt h a) = Some xs"
  using assms
proof (induction xs arbitrary: a)
  case Nil
  then show ?case by (simp add: list_for_each.simps)
next
  case (Cons x xs)
  then have "list_for_each h head (nxt h x) = Some xs" by simp
  with Cons.prems show ?case by (auto simp: list_for_each.simps [of h head x])
qed



end
