(* ===== verification/KString.thy ===== *)
theory KString
  imports Obelisk_Prelude
begin

text \<open>
  The string and memory routines of \<^verbatim>\<open>kernel/lib/string.c\<close>, on a byte-addressed memory with
  64-bit addresses. A scan for a terminating NUL that never finds one does not return
  (\<open>None\<close>); loops bounded by a \<^verbatim>\<open>size_t\<close> are recursion on that count. The word-at-a-time
  paths of \<^verbatim>\<open>memcpy\<close> and \<^verbatim>\<open>memset\<close> go through 64-bit little-endian loads and stores.
\<close>

section \<open>Memory\<close>

type_synonym mem = "u64 \<Rightarrow> u8"

definition load64 :: "mem \<Rightarrow> u64 \<Rightarrow> u64" where
  "load64 m a =
     ucast (m a) OR push_bit 8 (ucast (m (a + 1))) OR push_bit 16 (ucast (m (a + 2)))
     OR push_bit 24 (ucast (m (a + 3))) OR push_bit 32 (ucast (m (a + 4)))
     OR push_bit 40 (ucast (m (a + 5))) OR push_bit 48 (ucast (m (a + 6)))
     OR push_bit 56 (ucast (m (a + 7)))"

definition store64 :: "mem \<Rightarrow> u64 \<Rightarrow> u64 \<Rightarrow> mem" where
  "store64 m a v =
     m(a := ucast v, a + 1 := ucast (drop_bit 8 v), a + 2 := ucast (drop_bit 16 v),
       a + 3 := ucast (drop_bit 24 v), a + 4 := ucast (drop_bit 32 v),
       a + 5 := ucast (drop_bit 40 v), a + 6 := ucast (drop_bit 48 v),
       a + 7 := ucast (drop_bit 56 v))"

section \<open>Lengths, copies and comparisons of strings\<close>

partial_function (option) strlen_scan :: "mem \<Rightarrow> u64 \<Rightarrow> u64 option" where
  "strlen_scan m p = (if m p \<noteq> 0 then strlen_scan m (p + 1) else Some p)"

definition strlen :: "mem \<Rightarrow> u64 \<Rightarrow> u64 option" where
  "strlen m s = map_option (\<lambda>p. p - s) (strlen_scan m s)"

fun strnlen_scan :: "mem \<Rightarrow> u64 \<Rightarrow> nat \<Rightarrow> u64" where
  "strnlen_scan m p 0 = p"
| "strnlen_scan m p (Suc maxlen) = (if m p \<noteq> 0 then strnlen_scan m (p + 1) maxlen else p)"

definition strnlen :: "mem \<Rightarrow> u64 \<Rightarrow> nat \<Rightarrow> u64" where
  "strnlen m s maxlen = strnlen_scan m s maxlen - s"

partial_function (option) strcpy :: "mem \<Rightarrow> u64 \<Rightarrow> u64 \<Rightarrow> mem option" where
  "strcpy m dest src =
     (let m' = m(dest := m src)
      in if m src \<noteq> 0 then strcpy m' (dest + 1) (src + 1) else Some m')"

text \<open>The first loop of \<^verbatim>\<open>strncpy\<close>; it leaves \<open>n\<close> unchanged when it stops on the NUL.\<close>

fun strncpy_copy :: "mem \<Rightarrow> u64 \<Rightarrow> u64 \<Rightarrow> nat \<Rightarrow> mem \<times> u64 \<times> nat" where
  "strncpy_copy m dest src 0 = (m, dest, 0)"
| "strncpy_copy m dest src (Suc n) =
     (let m' = m(dest := m src)
      in if m src \<noteq> 0 then strncpy_copy m' (dest + 1) (src + 1) n else (m', dest + 1, Suc n))"

fun strncpy_pad :: "mem \<Rightarrow> u64 \<Rightarrow> nat \<Rightarrow> mem" where
  "strncpy_pad m dest 0 = m"
| "strncpy_pad m dest (Suc n) = strncpy_pad (m(dest := 0)) (dest + 1) n"

definition strncpy :: "mem \<Rightarrow> u64 \<Rightarrow> u64 \<Rightarrow> nat \<Rightarrow> mem" where
  "strncpy m dest src n =
     (case strncpy_copy m dest src n of (m', dest', n') \<Rightarrow> strncpy_pad m' dest' n')"

definition strcat :: "mem \<Rightarrow> u64 \<Rightarrow> u64 \<Rightarrow> mem option" where
  "strcat m dest src = Option.bind (strlen_scan m dest) (\<lambda>d. strcpy m d src)"

fun strncat_copy :: "mem \<Rightarrow> u64 \<Rightarrow> u64 \<Rightarrow> nat \<Rightarrow> mem \<times> u64" where
  "strncat_copy m dest src 0 = (m, dest)"
| "strncat_copy m dest src (Suc n) =
     (let m' = m(dest := m src)
      in if m src \<noteq> 0 then strncat_copy m' (dest + 1) (src + 1) n else (m', dest))"

definition strncat :: "mem \<Rightarrow> u64 \<Rightarrow> u64 \<Rightarrow> nat \<Rightarrow> mem option" where
  "strncat m dest src n =
     Option.bind (strlen_scan m dest)
       (\<lambda>d. case strncat_copy m d src n of (m', d') \<Rightarrow> Some (m'(d' := 0)))"

definition byte_diff :: "u8 \<Rightarrow> u8 \<Rightarrow> int" where
  "byte_diff a b = uint a - uint b"

partial_function (option) strcmp :: "mem \<Rightarrow> u64 \<Rightarrow> u64 \<Rightarrow> int option" where
  "strcmp m s1 s2 =
     (if m s1 \<noteq> 0 \<and> m s1 = m s2 then strcmp m (s1 + 1) (s2 + 1)
      else Some (byte_diff (m s1) (m s2)))"

fun strncmp :: "mem \<Rightarrow> u64 \<Rightarrow> u64 \<Rightarrow> nat \<Rightarrow> int" where
  "strncmp m s1 s2 0 = 0"
| "strncmp m s1 s2 (Suc n) =
     (if n \<noteq> 0 \<and> m s1 \<noteq> 0 \<and> m s1 = m s2 then strncmp m (s1 + 1) (s2 + 1) n
      else byte_diff (m s1) (m s2))"

definition to_lower :: "u8 \<Rightarrow> u8" where
  "to_lower c = (if 65 \<le> c \<and> c \<le> 90 then c + 32 else c)"

partial_function (option) strcasecmp :: "mem \<Rightarrow> u64 \<Rightarrow> u64 \<Rightarrow> int option" where
  "strcasecmp m s1 s2 =
     (let c1 = to_lower (m s1); c2 = to_lower (m s2)
      in if c1 \<noteq> 0 \<and> c1 = c2 then strcasecmp m (s1 + 1) (s2 + 1)
         else Some (byte_diff c1 c2))"

section \<open>Searching\<close>

text \<open>A search returns \<open>Some None\<close> where the C code returns \<^verbatim>\<open>NULL\<close>.\<close>

partial_function (option) strchr :: "mem \<Rightarrow> u64 \<Rightarrow> u8 \<Rightarrow> u64 option option" where
  "strchr m s c =
     (if m s \<noteq> 0 then (if m s = c then Some (Some s) else strchr m (s + 1) c)
      else Some (if c = 0 then Some s else None))"

partial_function (option) strrchr_scan ::
  "mem \<Rightarrow> u64 \<Rightarrow> u8 \<Rightarrow> u64 option \<Rightarrow> u64 option option" where
  "strrchr_scan m s c last_s =
     (if m s \<noteq> 0 then strrchr_scan m (s + 1) c (if m s = c then Some s else last_s)
      else Some (if c = 0 then Some s else last_s))"

definition strrchr :: "mem \<Rightarrow> u64 \<Rightarrow> u8 \<Rightarrow> u64 option option" where
  "strrchr m s c = strrchr_scan m s c None"

partial_function (option) strstr_scan :: "mem \<Rightarrow> u64 \<Rightarrow> u64 \<Rightarrow> nat \<Rightarrow> u64 option option" where
  "strstr_scan m haystack needle needle_len =
     (if m haystack \<noteq> 0 then
        (if strncmp m haystack needle needle_len = 0 then Some (Some haystack)
         else strstr_scan m (haystack + 1) needle needle_len)
      else Some None)"

definition strstr :: "mem \<Rightarrow> u64 \<Rightarrow> u64 \<Rightarrow> u64 option option" where
  "strstr m haystack needle =
     Option.bind (strlen m needle)
       (\<lambda>needle_len. if needle_len = 0 then Some (Some haystack)
                     else strstr_scan m haystack needle (unat needle_len))"

text \<open>The delimiter test \<^verbatim>\<open>strchr(delim, *str)\<close>, then the two scans of \<^verbatim>\<open>strtok_r\<close>.\<close>

partial_function (option) strtok_skip :: "mem \<Rightarrow> u64 \<Rightarrow> u64 \<Rightarrow> u64 option" where
  "strtok_skip m str delim =
     (if m str \<noteq> 0 then
        Option.bind (strchr m delim (m str))
          (\<lambda>r. if r \<noteq> None then strtok_skip m (str + 1) delim else Some str)
      else Some str)"

partial_function (option) strtok_span :: "mem \<Rightarrow> u64 \<Rightarrow> u64 \<Rightarrow> u64 option" where
  "strtok_span m str delim =
     (if m str \<noteq> 0 then
        Option.bind (strchr m delim (m str))
          (\<lambda>r. if r = None then strtok_span m (str + 1) delim else Some str)
      else Some str)"

text \<open>Result: the memory, the new \<^verbatim>\<open>*saveptr\<close>, and the token or \<^verbatim>\<open>NULL\<close>.\<close>

definition strtok_r :: "mem \<Rightarrow> u64 option \<Rightarrow> u64 \<Rightarrow> u64 \<Rightarrow> (mem \<times> u64 \<times> u64 option) option" where
  "strtok_r m str delim saveptr =
     Option.bind (strtok_skip m (case str of None \<Rightarrow> saveptr | Some s \<Rightarrow> s) delim)
       (\<lambda>token. if m token = 0 then Some (m, token, None)
         else Option.bind (strtok_span m token delim)
           (\<lambda>e. if m e \<noteq> 0 then Some (m(e := 0), e + 1, Some token)
                else Some (m, e, Some token)))"

section \<open>Memory blocks\<close>

fun memcpy_words :: "mem \<Rightarrow> u64 \<Rightarrow> u64 \<Rightarrow> nat \<Rightarrow> mem \<times> u64 \<times> u64 \<times> nat" where
  "memcpy_words m d s n =
     (if 8 \<le> n then memcpy_words (store64 m d (load64 m s)) (d + 8) (s + 8) (n - 8)
      else (m, d, s, n))"

declare memcpy_words.simps [simp del]

fun memcpy_bytes :: "mem \<Rightarrow> u64 \<Rightarrow> u64 \<Rightarrow> nat \<Rightarrow> mem" where
  "memcpy_bytes m d s 0 = m"
| "memcpy_bytes m d s (Suc n) = memcpy_bytes (m(d := m s)) (d + 1) (s + 1) n"

definition memcpy :: "mem \<Rightarrow> u64 \<Rightarrow> u64 \<Rightarrow> nat \<Rightarrow> mem" where
  "memcpy m dest src n =
     (case (if 8 \<le> n \<and> dest AND 7 = 0 \<and> src AND 7 = 0 then memcpy_words m dest src n
            else (m, dest, src, n))
      of (m', d, s, k) \<Rightarrow> memcpy_bytes m' d s k)"

fun memmove_back :: "mem \<Rightarrow> u64 \<Rightarrow> u64 \<Rightarrow> nat \<Rightarrow> mem" where
  "memmove_back m d s 0 = m"
| "memmove_back m d s (Suc n) = memmove_back (m(d - 1 := m (s - 1))) (d - 1) (s - 1) n"

definition memmove :: "mem \<Rightarrow> u64 \<Rightarrow> u64 \<Rightarrow> nat \<Rightarrow> mem" where
  "memmove m dest src n =
     (if dest < src \<or> src + of_nat n \<le> dest then memcpy m dest src n
      else memmove_back m (dest + of_nat n) (src + of_nat n) n)"

definition memset_fill :: "u8 \<Rightarrow> u64" where
  "memset_fill byte =
     (let f0 = ucast byte; f1 = f0 OR push_bit 8 f0; f2 = f1 OR push_bit 16 f1
      in f2 OR push_bit 32 f2)"

fun memset_words :: "mem \<Rightarrow> u64 \<Rightarrow> u64 \<Rightarrow> nat \<Rightarrow> mem \<times> u64 \<times> nat" where
  "memset_words m p v n =
     (if 8 \<le> n then memset_words (store64 m p v) (p + 8) v (n - 8) else (m, p, n))"

declare memset_words.simps [simp del]

fun memset_bytes :: "mem \<Rightarrow> u64 \<Rightarrow> u8 \<Rightarrow> nat \<Rightarrow> mem" where
  "memset_bytes m p byte 0 = m"
| "memset_bytes m p byte (Suc n) = memset_bytes (m(p := byte)) (p + 1) byte n"

definition memset :: "mem \<Rightarrow> u64 \<Rightarrow> u8 \<Rightarrow> nat \<Rightarrow> mem" where
  "memset m s byte n =
     (case (if 8 \<le> n \<and> s AND 7 = 0 then memset_words m s (memset_fill byte) n else (m, s, n))
      of (m', p, k) \<Rightarrow> memset_bytes m' p byte k)"

fun memcmp :: "mem \<Rightarrow> u64 \<Rightarrow> u64 \<Rightarrow> nat \<Rightarrow> int" where
  "memcmp m p1 p2 0 = 0"
| "memcmp m p1 p2 (Suc n) =
     (if m p1 \<noteq> m p2 then byte_diff (m p1) (m p2) else memcmp m (p1 + 1) (p2 + 1) n)"

fun memchr :: "mem \<Rightarrow> u64 \<Rightarrow> u8 \<Rightarrow> nat \<Rightarrow> u64 option" where
  "memchr m p byte 0 = None"
| "memchr m p byte (Suc n) = (if m p = byte then Some p else memchr m (p + 1) byte n)"

definition bzero :: "mem \<Rightarrow> u64 \<Rightarrow> nat \<Rightarrow> mem" where
  "bzero m s n = memset m s 0 n"

section \<open>Numbers\<close>

partial_function (option) skip_blanks :: "mem \<Rightarrow> u64 \<Rightarrow> u64 option" where
  "skip_blanks m s = (if m s = 32 \<or> m s = 9 then skip_blanks m (s + 1) else Some s)"

definition hex_digit :: "u8 \<Rightarrow> nat option" where
  "hex_digit c =
     (if 48 \<le> c \<and> c \<le> 57 then Some (unat (c - 48))
      else if 97 \<le> c \<and> c \<le> 102 then Some (unat (c - 97) + 10)
      else if 65 \<le> c \<and> c \<le> 70 then Some (unat (c - 65) + 10)
      else None)"

partial_function (option) strtoul_digits ::
  "mem \<Rightarrow> u64 \<Rightarrow> nat \<Rightarrow> u64 \<Rightarrow> (u64 \<times> u64) option" where
  "strtoul_digits m s base result =
     (if m s \<noteq> 0 then
        (case hex_digit (m s) of
           None \<Rightarrow> Some (result, s)
         | Some digit \<Rightarrow>
             if base \<le> digit then Some (result, s)
             else strtoul_digits m (s + 1) base (result * of_nat base + of_nat digit))
      else Some (result, s))"

text \<open>The value and the end pointer.\<close>

definition strtoul :: "mem \<Rightarrow> u64 \<Rightarrow> nat \<Rightarrow> (u64 \<times> u64) option" where
  "strtoul m s base =
     Option.bind (skip_blanks m s)
       (\<lambda>s1. let s2 = (if m s1 = 43 then s1 + 1 else s1);
                 (s3, b) =
                   (if base = 0 then
                      (if m s2 = 48 then
                         (if m (s2 + 1) = 120 \<or> m (s2 + 1) = 88 then (s2 + 2, 16) else (s2 + 1, 8))
                       else (s2, 10))
                    else if base = 16 \<and> m s2 = 48 \<and> (m (s2 + 1) = 120 \<or> m (s2 + 1) = 88)
                    then (s2 + 2, 16) else (s2, base))
             in strtoul_digits m s3 b 0)"

section \<open>Block copies\<close>

text \<open>The specification of a block copy: every byte of the destination block holds what the
  source block held before, all other bytes are unchanged. Offsets are taken modulo \<open>2 ^ 64\<close>.\<close>

definition mem_copied :: "mem \<Rightarrow> u64 \<Rightarrow> u64 \<Rightarrow> nat \<Rightarrow> mem" where
  "mem_copied m d s n = (\<lambda>a. if unat (a - d) < n then m (s + (a - d)) else m a)"

text \<open>A copy in ascending order is sound when no byte of the source is overwritten before it
  is read.\<close>

definition fwd_safe :: "u64 \<Rightarrow> u64 \<Rightarrow> nat \<Rightarrow> bool" where
  "fwd_safe d s n \<longleftrightarrow> d = s \<or> n \<le> unat (d - s)"

lemma load64_bytes:
  "ucast (load64 m a) = m a" "ucast (drop_bit 8 (load64 m a)) = m (a + 1)"
  "ucast (drop_bit 16 (load64 m a)) = m (a + 2)" "ucast (drop_bit 24 (load64 m a)) = m (a + 3)"
  "ucast (drop_bit 32 (load64 m a)) = m (a + 4)" "ucast (drop_bit 40 (load64 m a)) = m (a + 5)"
  "ucast (drop_bit 48 (load64 m a)) = m (a + 6)" "ucast (drop_bit 56 (load64 m a)) = m (a + 7)"
  by (auto simp: load64_def bit_simps intro!: bit_word_eqI)

lemma memset_fill_bytes:
  "ucast (memset_fill b) = b" "ucast (drop_bit 8 (memset_fill b)) = b"
  "ucast (drop_bit 16 (memset_fill b)) = b" "ucast (drop_bit 24 (memset_fill b)) = b"
  "ucast (drop_bit 32 (memset_fill b)) = b" "ucast (drop_bit 40 (memset_fill b)) = b"
  "ucast (drop_bit 48 (memset_fill b)) = b" "ucast (drop_bit 56 (memset_fill b)) = b"
  by (auto simp: memset_fill_def Let_def bit_simps intro!: bit_word_eqI)

text \<open>A 64-bit store writes the eight bytes at offsets 0 to 7.\<close>

lemma offset_cases:
  fixes a d :: u64
  shows "unat (a - d) < 8 \<longleftrightarrow> a \<in> {d, d + 1, d + 2, d + 3, d + 4, d + 5, d + 6, d + 7}"
proof
  assume "unat (a - d) < 8"
  then have "unat (a - d) \<in> {0, 1, 2, 3, 4, 5, 6, 7}" by auto
  then have "a - d \<in> {0, 1, 2, 3, 4, 5, 6, 7}"
    by (auto simp: word_unat_eq_iff)
  then show "a \<in> {d, d + 1, d + 2, d + 3, d + 4, d + 5, d + 6, d + 7}"
    by (auto simp: diff_eq_eq add.commute)
qed (auto simp: add_diff_cancel_left')

lemma store64_eq:
  assumes "\<And>i. i < 8 \<Longrightarrow> ucast (drop_bit (8 * i) v) = f i"
  shows "store64 m d v = (\<lambda>a. if unat (a - d) < 8 then f (unat (a - d)) else m a)"
proof
  fix a
  have bytes: "ucast v = f 0" "ucast (drop_bit 8 v) = f 1" "ucast (drop_bit 16 v) = f 2"
    "ucast (drop_bit 24 v) = f 3" "ucast (drop_bit 32 v) = f 4" "ucast (drop_bit 40 v) = f 5"
    "ucast (drop_bit 48 v) = f 6" "ucast (drop_bit 56 v) = f 7"
    using assms [of 0] assms [of 1] assms [of 2] assms [of 3] assms [of 4] assms [of 5]
      assms [of 6] assms [of 7] by simp_all
  show "store64 m d v a = (if unat (a - d) < 8 then f (unat (a - d)) else m a)"
  proof (cases "unat (a - d) < 8")
    case True
    then show ?thesis unfolding offset_cases
      by (auto simp: store64_def bytes)
  next
    case False
    then show ?thesis using offset_cases [of a d] by (simp add: store64_def)
  qed
qed

lemma store_load64: "store64 m d (load64 m s) = mem_copied m d s 8"
proof -
  have b: "ucast (drop_bit (8 * i) (load64 m s)) = m (s + of_nat i)" if "i < 8" for i
  proof -
    from that have "i \<in> {0, 1, 2, 3, 4, 5, 6, 7}" by auto
    then show ?thesis by (auto simp: load64_bytes)
  qed
  show ?thesis by (auto simp: store64_eq [OF b] mem_copied_def)
qed

lemma mem_copied_step:
  assumes "k \<le> n" and "k < 2 ^ 64" and "n \<le> 2 ^ 64" and safe: "fwd_safe d s n"
  shows "mem_copied (mem_copied m d s k) (d + of_nat k) (s + of_nat k) (n - k) = mem_copied m d s n"
proof
  fix a
  define w where "w = a - d"
  have a: "a = d + w" by (simp add: w_def)
  define D where "D = d - s"
  have d: "d = s + D" by (simp add: D_def)
  have k: "unat (of_nat k :: u64) = k" using assms(2) by simp
  have wk: "unat (w - of_nat k) = (if k \<le> unat w then unat w - k else unat w + 2 ^ 64 - k)"
    using k by (simp add: unat_sub_if' )
  have wD: "unat (w - D) = (if unat D \<le> unat w then unat w - unat D else unat w + 2 ^ 64 - unat D)"
    by (simp add: unat_sub_if')
  have ad: "a - (d + of_nat k) = w - of_nat k" "s + of_nat k + (w - of_nat k) = s + w"
    "s + w - d = w - D"
    by (simp_all add: a d)
  have Ds: "D = 0 \<or> n \<le> unat D" using safe by (auto simp: fwd_safe_def D_def)
  have Dl: "unat D < 2 ^ 64" using unat_u64_bound [of D] by simp
  show "mem_copied (mem_copied m d s k) (d + of_nat k) (s + of_nat k) (n - k) a = mem_copied m d s n a"
    unfolding mem_copied_def ad w_def [symmetric]
    using assms(1,3) Ds Dl unat_u64_bound [of w] by (auto simp: wk wD ad a)
qed

lemma memcpy_bytes_correct:
  "n \<le> 2 ^ 64 \<Longrightarrow> fwd_safe d s n \<Longrightarrow> memcpy_bytes m d s n = mem_copied m d s n"
proof (induction n arbitrary: m d s)
  case 0
  then show ?case by (simp add: mem_copied_def)
next
  case (Suc n)
  have one: "m(d := m s) = mem_copied m d s 1"
    by (auto simp: mem_copied_def fun_eq_iff unat_eq_zero)
  have "fwd_safe (d + 1) (s + 1) n" using Suc.prems by (auto simp: fwd_safe_def)
  with Suc have "memcpy_bytes m d s (Suc n) = mem_copied (mem_copied m d s 1) (d + 1) (s + 1) n"
    by (simp add: one)
  also have "\<dots> = mem_copied m d s (Suc n)"
    using mem_copied_step [of 1 "Suc n" d s m] Suc.prems by simp
  finally show ?case .
qed

lemma memcpy_words_correct:
  assumes "n \<le> 2 ^ 64" and "fwd_safe d s n" and "memcpy_words m d s n = (m', d', s', k)"
  shows "memcpy_bytes m' d' s' k = mem_copied m d s n"
  using assms
proof (induction m d s n rule: memcpy_words.induct)
  case (1 m d s n)
  show ?case
  proof (cases "8 \<le> n")
    case True
    have "memcpy_words (mem_copied m d s 8) (d + 8) (s + 8) (n - 8) = (m', d', s', k)"
      using 1(4) True by (simp add: memcpy_words.simps [of m d s n] store_load64)
    moreover have "fwd_safe (d + 8) (s + 8) (n - 8)" using 1(3) by (auto simp: fwd_safe_def)
    ultimately have "memcpy_bytes m' d' s' k = mem_copied (mem_copied m d s 8) (d + 8) (s + 8) (n - 8)"
      using 1(1) True 1(2) by (simp add: store_load64)
    also have "\<dots> = mem_copied m d s n"
      using mem_copied_step [of 8 n d s m] True 1(2,3) by simp
    finally show ?thesis .
  next
    case False
    then show ?thesis
      using 1 by (simp add: memcpy_words.simps [of m d s n] memcpy_bytes_correct)
  qed
qed

lemma memcpy_correct:
  assumes "n \<le> 2 ^ 64" and "fwd_safe d s n"
  shows "memcpy m d s n = mem_copied m d s n"
  using assms memcpy_words_correct [OF assms]
  by (auto simp: memcpy_def memcpy_bytes_correct split: prod.splits)

lemma memmove_back_correct:
  assumes "n \<le> 2 ^ 64" and "d = s \<or> n \<le> unat (s - d)"
  shows "memmove_back m (d + of_nat n) (s + of_nat n) n = mem_copied m d s n"
  using assms
proof (induction n arbitrary: m)
  case 0
  then show ?case by (simp add: mem_copied_def)
next
  case (Suc n)
  let ?m = "m(d + of_nat n := m (s + of_nat n))"
  have n: "unat (of_nat n :: u64) = n" using Suc.prems(1) by simp
  have "memmove_back m (d + of_nat (Suc n)) (s + of_nat (Suc n)) (Suc n) = mem_copied ?m d s n"
  proof -
    have "d + of_nat (Suc n) - 1 = d + of_nat n" "s + of_nat (Suc n) - 1 = s + of_nat n"
      by simp_all
    moreover have "d = s \<or> n \<le> unat (s - d)" using Suc.prems(2) by linarith
    ultimately show ?thesis
      using Suc.IH [of ?m] Suc.prems(1) by (simp only: memmove_back.simps)
  qed
  also have "\<dots> = mem_copied m d s (Suc n)"
  proof
    fix a
    define w where "w = a - d"
    have a: "a = d + w" by (simp add: w_def)
    have eqw: "a = d + of_nat n \<longleftrightarrow> unat w = n"
      using n by (metis a add_left_cancel word_of_nat_unat_self)
    have "s + w \<noteq> d + of_nat n" if "unat w < n"
    proof
      assume eq: "s + w = d + of_nat n"
      then have "s - d = of_nat n - w" by (simp add: algebra_simps)
      then have "unat (s - d) = n - unat w"
        using that n by (simp add: unat_sub_if')
      then show False using Suc.prems(2) that by auto
    qed
    then show "mem_copied ?m d s n a = mem_copied m d s (Suc n) a"
      unfolding mem_copied_def w_def [symmetric] using eqw n by (auto simp: a)
  qed
  finally show ?case .
qed

text \<open>The overlap test of \<^verbatim>\<open>memmove\<close> selects a sound direction for every pair of blocks
  that do not wrap around the address space.\<close>

lemma memmove_direction:
  assumes "unat s + n < 2 ^ 64" and "unat d + n \<le> 2 ^ 64"
  shows "d < s \<or> s + of_nat n \<le> d \<Longrightarrow> fwd_safe d s n"
    and "\<not> (d < s \<or> s + of_nat n \<le> d) \<Longrightarrow> d = s \<or> n \<le> unat (s - d)"
proof -
  have sn: "unat (s + of_nat n) = unat s + n"
    using assms(1) by (simp add: unat_word_ariths)
  show "d < s \<or> s + of_nat n \<le> d \<Longrightarrow> fwd_safe d s n"
    using assms sn by (auto simp: fwd_safe_def unat_sub_if' word_less_nat_alt word_le_nat_alt)
  show "\<not> (d < s \<or> s + of_nat n \<le> d) \<Longrightarrow> d = s \<or> n \<le> unat (s - d)"
    using assms sn
    by (auto simp: unat_sub_if' word_less_nat_alt word_le_nat_alt not_less not_le word_unat_eq_iff)
qed

section \<open>Bytes written at an address\<close>

definition mem_write :: "mem \<Rightarrow> u64 \<Rightarrow> u8 list \<Rightarrow> mem" where
  "mem_write m d ys = (\<lambda>a. if unat (a - d) < length ys then ys ! unat (a - d) else m a)"

lemma mem_write_Nil [simp]: "mem_write m d [] = m"
  by (simp add: mem_write_def)

lemma mem_write_Cons:
  assumes "length ys < 2 ^ 64"
  shows "mem_write (m(d := y)) (d + 1) ys = mem_write m d (y # ys)"
proof
  fix a
  define w where "w = a - d"
  have a: "a = d + w" "a - (d + 1) = w - 1" by (simp_all add: w_def)
  have w1: "w \<noteq> 0 \<Longrightarrow> unat w = Suc (unat (w - 1))"
    by (simp add: unat_dec unat_gt_0)
  have w0: "w = 0 \<Longrightarrow> \<not> unat (w - 1) < length ys"
    using assms by (simp add: unat_u64_minus_one)
  show "mem_write (m(d := y)) (d + 1) ys a = mem_write m d (y # ys) a"
    unfolding mem_write_def a(2) w_def [symmetric]
    using w0 w1 a(1) by (cases "w = 0") auto
qed

lemma memset_bytes_write:
  "n \<le> 2 ^ 64 \<Longrightarrow> memset_bytes m p b n = mem_write m p (replicate n b)"
  by (induction n arbitrary: m p) (simp_all add: mem_write_Cons)

lemma mem_write_append:
  assumes "length xs + length ys \<le> 2 ^ 64"
  shows "mem_write (mem_write m d xs) (d + of_nat (length xs)) ys = mem_write m d (xs @ ys)"
  using assms
proof (induction xs arbitrary: m d)
  case (Cons x xs)
  have "mem_write (mem_write m d (x # xs)) (d + of_nat (length (x # xs))) ys
      = mem_write (mem_write (m(d := x)) (d + 1) xs) ((d + 1) + of_nat (length xs)) ys"
    using Cons.prems mem_write_Cons [of xs m d x] by (simp add: add.assoc)
  also have "\<dots> = mem_write (m(d := x)) (d + 1) (xs @ ys)"
    using Cons by simp
  also have "\<dots> = mem_write m d ((x # xs) @ ys)"
    using Cons.prems by (simp add: mem_write_Cons)
  finally show ?case .
qed simp

lemma store64_fill: "store64 m p (memset_fill b) = mem_write m p (replicate 8 b)"
proof -
  have f: "ucast (drop_bit (8 * i) (memset_fill b)) = b" if "i < 8" for i
  proof -
    from that have "i \<in> {0, 1, 2, 3, 4, 5, 6, 7}" by auto
    then show ?thesis by (auto simp: memset_fill_bytes)
  qed
  show ?thesis by (auto simp: store64_eq [where f = "\<lambda>_. b", OF f] mem_write_def)
qed

lemma memset_words_write:
  assumes "n \<le> 2 ^ 64" and "memset_words m p (memset_fill b) n = (m', p', k)"
  shows "memset_bytes m' p' b k = mem_write m p (replicate n b)"
  using assms
proof (induction m p "memset_fill b" n rule: memset_words.induct)
  case (1 m p n)
  show ?case
  proof (cases "8 \<le> n")
    case True
    have "memset_bytes m' p' b k = mem_write (mem_write m p (replicate 8 b)) (p + 8) (replicate (n - 8) b)"
      using 1 True by (simp add: memset_words.simps [of m p _ n] store64_fill)
    also have "\<dots> = mem_write m p (replicate n b)"
      using mem_write_append [of "replicate 8 b" "replicate (n - 8) b" m p] 1(2) True
      by (simp flip: replicate_add)
    finally show ?thesis .
  next
    case False
    then show ?thesis using 1 by (simp add: memset_words.simps [of m p _ n] memset_bytes_write)
  qed
qed

lemma memset_write: "n \<le> 2 ^ 64 \<Longrightarrow> memset m p b n = mem_write m p (replicate n b)"
  using memset_words_write [of n m p b]
  by (auto simp: memset_def memset_bytes_write split: prod.splits)

section \<open>NUL-terminated strings\<close>

fun cstr :: "mem \<Rightarrow> u64 \<Rightarrow> u8 list \<Rightarrow> bool" where
  "cstr m s [] = (m s = 0)"
| "cstr m s (x # xs) = (m s = x \<and> x \<noteq> 0 \<and> cstr m (s + 1) xs)"

lemma of_nat_Suc_shift: "(s :: u64) + of_nat (Suc j) = (s + 1) + of_nat j"
  by (simp add: ac_simps)

lemma cstr_upd:
  assumes "\<And>j. j \<le> length xs \<Longrightarrow> d \<noteq> s + of_nat j"
  shows "cstr (m(d := v)) s xs = cstr m s xs"
  using assms
proof (induction xs arbitrary: s)
  case Nil
  then show ?case using Nil.prems [of 0] by simp
next
  case (Cons x xs)
  have "d \<noteq> (s + 1) + of_nat j" if "j \<le> length xs" for j
    using Cons.prems [of "Suc j"] that by (simp add: ac_simps)
  moreover have "d \<noteq> s" using Cons.prems [of 0] by simp
  ultimately show ?case using Cons.IH [of "s + 1"] by simp
qed

lemma strlen_scan_cstr: "cstr m s xs \<Longrightarrow> strlen_scan m s = Some (s + of_nat (length xs))"
  by (induction xs arbitrary: s) (auto simp: strlen_scan.simps ac_simps)

lemma strlen_cstr: "cstr m s xs \<Longrightarrow> strlen m s = Some (of_nat (length xs))"
  by (simp add: strlen_def strlen_scan_cstr)

lemma strncpy_pad_write:
  "n \<le> 2 ^ 64 \<Longrightarrow> strncpy_pad m d n = mem_write m d (replicate n 0)"
  by (induction n arbitrary: m d) (simp_all add: mem_write_Cons)

lemma strncpy_Suc:
  "strncpy m d s (Suc n) =
     (if m s \<noteq> 0 then strncpy (m(d := m s)) (d + 1) (s + 1) n
      else strncpy_pad (m(d := 0)) (d + 1) (Suc n))"
  by (simp add: strncpy_def Let_def)

definition strncpy_bytes :: "u8 list \<Rightarrow> nat \<Rightarrow> u8 list" where
  "strncpy_bytes xs n = (if n \<le> length xs then take n xs else xs @ replicate (Suc n - length xs) 0)"

lemma strncpy_write:
  assumes "cstr m s xs" and "n < 2 ^ 64"
    and "\<And>i j. i \<le> n \<Longrightarrow> j \<le> length xs \<Longrightarrow> d + of_nat i \<noteq> s + of_nat j"
  shows "strncpy m d s n = mem_write m d (strncpy_bytes xs n)"
  using assms
proof (induction n arbitrary: m d s xs)
  case 0
  then show ?case by (simp add: strncpy_def strncpy_bytes_def)
next
  case (Suc n)
  show ?case
  proof (cases xs)
    case Nil
    have "strncpy m d s (Suc n) = mem_write (m(d := 0)) (d + 1) (replicate (Suc n) 0)"
      using Suc.prems(1,2) Nil strncpy_pad_write [of "Suc n" "m(d := 0)" "d + 1"]
      by (simp add: strncpy_Suc)
    also have "\<dots> = mem_write m d (0 # replicate (Suc n) 0)"
      using Suc.prems(2) by (intro mem_write_Cons) simp
    finally show ?thesis using Nil by (simp add: strncpy_bytes_def)
  next
    case (Cons x ys)
    have sep: "(d + 1) + of_nat i \<noteq> (s + 1) + of_nat j" if "i \<le> n" "j \<le> length ys" for i j
      using Suc.prems(3) [of "Suc i" "Suc j"] that Cons by (simp add: ac_simps)
    have "d \<noteq> (s + 1) + of_nat j" if "j \<le> length ys" for j
      using Suc.prems(3) [of 0 "Suc j"] that Cons by (simp add: ac_simps)
    then have c: "cstr (m(d := x)) (s + 1) ys"
      using Suc.prems(1) Cons by (simp add: cstr_upd)
    have "strncpy (m(d := x)) (d + 1) (s + 1) n = mem_write (m(d := x)) (d + 1) (strncpy_bytes ys n)"
      by (rule Suc.IH [OF c]) (use Suc.prems(2) sep in auto)
    also have "\<dots> = mem_write m d (x # strncpy_bytes ys n)"
      using Suc.prems(2) by (intro mem_write_Cons) (auto simp: strncpy_bytes_def)
    finally show ?thesis
      using Suc.prems(1) Cons by (auto simp: strncpy_Suc strncpy_bytes_def)
  qed
qed

lemma strcmp_cstr:
  assumes "cstr m a xs" and "cstr m b ys"
  shows "\<exists>r. strcmp m a b = Some r \<and> (r = 0 \<longleftrightarrow> xs = ys) \<and> (r < 0 \<longleftrightarrow> ord_class.lexordp xs ys)"
  using assms
proof (induction xs arbitrary: a b ys)
  case Nil
  then show ?case
    by (cases ys) (auto simp: strcmp.simps [of m a b] byte_diff_def word_neq_0_conv word_less_def uint_0_iff)
next
  case (Cons x xs)
  show ?case
  proof (cases ys)
    case Nil
    then show ?thesis using Cons.prems
      by (auto simp: strcmp.simps [of m a b] byte_diff_def uint_0_iff not_less)
  next
    case (Cons y zs)
    show ?thesis
    proof (cases "x = y")
      case True
      then have "strcmp m a b = strcmp m (a + 1) (b + 1)"
        using Cons Cons.prems \<open>cstr m a (x # xs)\<close> by (simp add: strcmp.simps [of m a b])
      then show ?thesis
        using Cons.IH [of "a + 1" "b + 1" zs] Cons.prems True \<open>ys = y # zs\<close> by auto
    next
      case False
      then have "uint x \<noteq> uint y" by (simp add: word_uint_eq_iff)
      then show ?thesis
        using False Cons.prems \<open>ys = y # zs\<close>
        by (auto simp: strcmp.simps [of m a b] byte_diff_def word_less_def)
    qed
  qed
qed

lemma strncmp_prefix:
  assumes "cstr m a xs" and "cstr m b ys"
  shows "strncmp m a b (length ys) = 0 \<longleftrightarrow> take (length ys) xs = ys"
  using assms
proof (induction ys arbitrary: a b xs)
  case Nil
  then show ?case by simp
next
  case (Cons y ys)
  have diff: "byte_diff u v = 0 \<longleftrightarrow> u = v" for u v
    by (simp add: byte_diff_def word_uint_eq_iff)
  show ?case
  proof (cases xs)
    case Nil
    then show ?thesis using Cons.prems by (auto simp: diff)
  next
    case (Cons x zs)
    then show ?thesis
      using Cons.prems Cons.IH [of "a + 1" zs "b + 1"] \<open>cstr m a xs\<close>
      by (cases ys) (auto simp: diff)
  qed
qed

text \<open>The position of the first occurrence of \<open>ys\<close> in \<open>xs\<close>.\<close>

fun first_occ :: "u8 list \<Rightarrow> u8 list \<Rightarrow> nat option" where
  "first_occ [] ys = (if ys = [] then Some 0 else None)"
| "first_occ (x # xs) ys =
     (if take (length ys) (x # xs) = ys then Some 0 else map_option Suc (first_occ xs ys))"

lemma first_occ_Some:
  "first_occ xs ys = Some i \<longleftrightarrow>
     i \<le> length xs \<and> take (length ys) (drop i xs) = ys \<and>
     (\<forall>j<i. take (length ys) (drop j xs) \<noteq> ys)"
proof (induction xs arbitrary: i)
  case Nil
  then show ?case by auto
next
  case (Cons x xs)
  show ?case
  proof (cases i)
    case 0
    then show ?thesis by (auto simp: Cons.IH)
  next
    case (Suc k)
    then show ?thesis using Cons.IH [of k]
      by (auto simp: less_Suc_eq_0_disj split: if_splits)
  qed
qed

lemma strstr_scan_cstr:
  assumes "cstr m h xs" and "cstr m n ys" and "ys \<noteq> []"
  shows "strstr_scan m h n (length ys) = Some (map_option (\<lambda>i. h + of_nat i) (first_occ xs ys))"
  using assms
proof (induction xs arbitrary: h)
  case Nil
  then show ?case by (simp add: strstr_scan.simps)
next
  case (Cons x xs)
  have p: "strncmp m h n (length ys) = 0 \<longleftrightarrow> take (length ys) (x # xs) = ys"
    by (rule strncmp_prefix [OF Cons.prems(1,2)])
  have "strstr_scan m (h + 1) n (length ys)
      = Some (map_option (\<lambda>i. h + 1 + of_nat i) (first_occ xs ys))"
    using Cons by simp
  then show ?case
    using Cons.prems p
    by (cases "first_occ xs ys") (auto simp: strstr_scan.simps [of m h] ac_simps)
qed

section \<open>Properties\<close>

text \<open>C32: \<^verbatim>\<open>memmove\<close> copies correctly whatever the overlap of the two blocks and whichever of the
  word-wise, byte-wise and backward paths it takes: afterwards every byte of the destination block
  holds the byte the source block held before the call, and no other byte has changed.\<close>

theorem memmove_copies:
  assumes "unat src + n < 2 ^ 64" and "unat dest + n \<le> 2 ^ 64"
  shows "memmove m dest src n =
    (\<lambda>a. if unat (a - dest) < n then m (src + (a - dest)) else m a)"
  using memmove_direction [OF assms] assms(1) memcpy_correct [of n dest src m]
    memmove_back_correct [of n dest src m]
  by (auto simp: memmove_def simp flip: mem_copied_def)

theorem memmove_copies_witness:
  "memmove (\<lambda>a. ucast a) 0x1003 0x1000 5 0x1004 = 1 \<and>
   memmove (\<lambda>a. ucast a) 0x1003 0x1000 5 0x1008 = 8"
proof -
  have "memmove (\<lambda>a. ucast a) 0x1003 0x1000 5 =
      (\<lambda>a :: u64. if unat (a - 0x1003) < 5 then ucast (0x1000 + (a - 0x1003)) else ucast a)"
    by (rule memmove_copies) simp_all
  then show ?thesis by simp
qed

text \<open>C37: the exact effect of \<^verbatim>\<open>strncpy\<close>. A source shorter than \<open>n\<close> is copied and followed by
  \<open>n + 1 - strlen\<close> zero bytes, so \<open>n + 1\<close> bytes are written in all: the byte just past the
  \<open>n\<close>-byte limit is overwritten. A source of at least \<open>n\<close> bytes is truncated to \<open>n\<close> bytes
  without a terminator.\<close>

theorem strncpy_effect:
  assumes "cstr m src xs" and "n < 2 ^ 64"
    and "\<And>i j. i \<le> n \<Longrightarrow> j \<le> length xs \<Longrightarrow> dest + of_nat i \<noteq> src + of_nat j"
  shows "strncpy m dest src n =
    (\<lambda>a. let i = unat (a - dest)
         in if i < length xs \<and> i < n then xs ! i
            else if length xs < n \<and> i \<le> n then 0 else m a)"
proof -
  have "strncpy m dest src n = mem_write m dest (strncpy_bytes xs n)"
    by (rule strncpy_write) (use assms in auto)
  then show ?thesis
    by (auto simp: fun_eq_iff Let_def mem_write_def strncpy_bytes_def nth_append)
qed

theorem strncpy_effect_witness:
  "strncpy ((\<lambda>_. 7)(0x100 := 65, 0x101 := 0)) 0x200 0x100 4 0x204 = 0 \<and>
   ((\<lambda>_. 7 :: u8)(0x100 := 65, 0x101 := 0)) (0x204 :: u64) = 7"
proof -
  let ?m = "(\<lambda>_. 7)(0x100 := 65, 0x101 := 0) :: mem"
  have "strncpy ?m 0x200 0x100 4 =
      (\<lambda>a. let i = unat (a - 0x200)
           in if i < length [65 :: u8] \<and> i < 4 then [65] ! i
              else if length [65 :: u8] < 4 \<and> i \<le> 4 then 0 else ?m a)"
  proof (rule strncpy_effect)
    fix i j :: nat
    assume "i \<le> 4" and "j \<le> length [65 :: u8]"
    then have "i \<in> {0, 1, 2, 3, 4}" and "j \<in> {0, 1}" by auto
    then show "0x200 + of_nat i \<noteq> (0x100 + of_nat j :: u64)" by auto
  qed simp_all
  then show ?thesis by simp
qed

text \<open>\<^verbatim>\<open>strcmp\<close> returns on all NUL-terminated strings; its result is zero exactly for equal
  strings and negative exactly when the first is lexicographically smaller in unsigned bytes.\<close>

theorem strcmp_orders:
  assumes "cstr m s1 xs" and "cstr m s2 ys"
  shows "\<exists>r. strcmp m s1 s2 = Some r \<and> (r = 0 \<longleftrightarrow> xs = ys) \<and>
    (r < 0 \<longleftrightarrow> ord_class.lexordp xs ys)"
  by (rule strcmp_cstr [OF assms])

theorem strcmp_orders_witness:
  "\<exists>r. strcmp ((\<lambda>_. 0)(16 := 97, 17 := 98, 32 := 97, 33 := 200)) 16 32 = Some r \<and> r < 0"
proof -
  let ?m = "(\<lambda>_. 0)(16 := 97, 17 := 98, 32 := 97, 33 := 200) :: mem"
  have "cstr ?m 16 [97, 98]" and "cstr ?m 32 [97, 200]" by simp_all
  from strcmp_orders [OF this] show ?thesis by (auto simp: word_less_def)
qed

text \<open>C33: \<^verbatim>\<open>strstr\<close> returns on all NUL-terminated strings and finds the first occurrence: it
  returns the address of offset \<open>i\<close> exactly when the needle occurs at \<open>i\<close> and at no smaller
  offset, and \<^verbatim>\<open>NULL\<close> only when it occurs nowhere.\<close>

theorem strstr_first:
  assumes "cstr m haystack xs" and "cstr m needle ys" and "length ys < 2 ^ 64"
  shows "\<exists>r. strstr m haystack needle = Some (map_option (\<lambda>i. haystack + of_nat i) r) \<and>
    (\<forall>i. r = Some i \<longleftrightarrow> i \<le> length xs \<and> take (length ys) (drop i xs) = ys \<and>
      (\<forall>j<i. take (length ys) (drop j xs) \<noteq> ys))"
proof -
  have "of_nat (length ys) = (0 :: u64) \<longleftrightarrow> ys = []"
    using assms(3) by (auto simp flip: unat_eq_zero)
  moreover have "first_occ xs [] = Some 0" by (cases xs) simp_all
  ultimately have "strstr m haystack needle
      = Some (map_option (\<lambda>i. haystack + of_nat i) (first_occ xs ys))"
    using strstr_scan_cstr [OF assms(1,2)] assms(3)
    by (auto simp: strstr_def strlen_cstr [OF assms(2)])
  then show ?thesis by (intro exI [of _ "first_occ xs ys"]) (simp add: first_occ_Some)
qed

theorem strstr_first_witness:
  "strstr ((\<lambda>_. 0)(16 := 97, 17 := 98, 18 := 98, 32 := 98)) 16 32 = Some (Some 17)"
proof -
  let ?m = "(\<lambda>_. 0)(16 := 97, 17 := 98, 18 := 98, 32 := 98) :: mem"
  have c: "cstr ?m 16 [97, 98, 98]" "cstr ?m 32 [98]" "length [98 :: u8] < 2 ^ 64" by simp_all
  obtain r where
    r: "strstr ?m 16 32 = Some (map_option (\<lambda>i. 16 + of_nat i) r)"
    and p: "\<forall>i. r = Some i \<longleftrightarrow> i \<le> length [97, 98, 98 :: u8] \<and>
          take (length [98 :: u8]) (drop i [97, 98, 98 :: u8]) = [98] \<and>
          (\<forall>j<i. take (length [98 :: u8]) (drop j [97, 98, 98 :: u8]) \<noteq> [98])"
    using strstr_first [OF c] by blast
  from p have "r = Some 1" by simp
  with r show ?thesis by simp
qed

end
