(* ===== verification/Bitmap.thy ===== *)
theory Bitmap
  imports Obelisk_Prelude
begin

text \<open>
  The bitmap library \<^verbatim>\<open>kernel/lib/bitmap.c\<close>: arrays of 64-bit words indexed by bit number.
  The single-bit operations are an instance of the bit-array interface; the searches are shown to
  return the least matching index, and the range operations and the weight are characterised
  exactly.
\<close>

section \<open>Single bits\<close>

definition BIT_WORD :: "nat \<Rightarrow> nat" where
  "BIT_WORD nr = nr div 64"

definition BIT_MASK :: "nat \<Rightarrow> u64" where
  "BIT_MASK nr = push_bit (nr mod 64) 1"

definition BITS_TO_LONGS :: "nat \<Rightarrow> nat" where
  "BITS_TO_LONGS nr = (nr + 64 - 1) div 64"

definition set_bit :: "nat \<Rightarrow> u64 list \<Rightarrow> u64 list" where
  "set_bit nr addr = addr[BIT_WORD nr := addr ! BIT_WORD nr OR BIT_MASK nr]"

definition clear_bit :: "nat \<Rightarrow> u64 list \<Rightarrow> u64 list" where
  "clear_bit nr addr = addr[BIT_WORD nr := addr ! BIT_WORD nr AND NOT (BIT_MASK nr)]"

definition test_bit :: "nat \<Rightarrow> u64 list \<Rightarrow> bool" where
  "test_bit nr addr = (addr ! BIT_WORD nr AND BIT_MASK nr \<noteq> 0)"

definition test_and_set_bit :: "nat \<Rightarrow> u64 list \<Rightarrow> bool \<times> u64 list" where
  "test_and_set_bit nr addr =
     (let msk = BIT_MASK nr; old = addr ! BIT_WORD nr
      in (old AND msk \<noteq> 0, addr[BIT_WORD nr := old OR msk]))"

definition test_and_clear_bit :: "nat \<Rightarrow> u64 list \<Rightarrow> bool \<times> u64 list" where
  "test_and_clear_bit nr addr =
     (let msk = BIT_MASK nr; old = addr ! BIT_WORD nr
      in (old AND msk \<noteq> 0, addr[BIT_WORD nr := old AND NOT msk]))"

definition change_bit :: "nat \<Rightarrow> u64 list \<Rightarrow> u64 list" where
  "change_bit nr addr = addr[BIT_WORD nr := addr ! BIT_WORD nr XOR BIT_MASK nr]"

section \<open>Searches\<close>

text \<open>The compiler's \<^verbatim>\<open>__builtin_ffsl\<close> (one plus the index of the least set bit, 0 for 0) and
  \<^verbatim>\<open>64 - __builtin_clzl\<close> (one plus the index of the greatest set bit).\<close>

definition builtin_ffsl :: "u64 \<Rightarrow> nat" where
  "builtin_ffsl x = (case find (bit x) [0..<64] of None \<Rightarrow> 0 | Some i \<Rightarrow> Suc i)"

definition builtin_clzl :: "u64 \<Rightarrow> nat" where
  "builtin_clzl x = (case find (bit x) (rev [0..<64]) of None \<Rightarrow> 64 | Some i \<Rightarrow> 63 - i)"

definition ffs :: "u64 \<Rightarrow> nat" where
  "ffs x = (if x = 0 then 0 else builtin_ffsl x)"

definition fls :: "u64 \<Rightarrow> nat" where
  "fls x = (if x = 0 then 0 else 64 - builtin_clzl x)"

definition ffz :: "u64 \<Rightarrow> u64" where
  "ffz x = of_nat (ffs (NOT x)) - 1"

function find_first_bit_from :: "u64 list \<Rightarrow> nat \<Rightarrow> nat \<Rightarrow> nat" where
  "find_first_bit_from addr sz idx =
     (if idx * 64 < sz then
        (if addr ! idx \<noteq> 0 then min (idx * 64 + builtin_ffsl (addr ! idx) - 1) sz
         else find_first_bit_from addr sz (Suc idx))
      else sz)"
  by pat_completeness auto
termination
  by (relation "measure (\<lambda>(addr, sz, idx). sz - idx * 64)") auto

definition find_first_bit :: "u64 list \<Rightarrow> nat \<Rightarrow> nat" where
  "find_first_bit addr sz = find_first_bit_from addr sz 0"

function find_first_zero_bit_from :: "u64 list \<Rightarrow> nat \<Rightarrow> nat \<Rightarrow> nat" where
  "find_first_zero_bit_from addr sz idx =
     (if idx * 64 < sz then
        (if NOT (addr ! idx) \<noteq> 0 then min (idx * 64 + unat (ffz (addr ! idx))) sz
         else find_first_zero_bit_from addr sz (Suc idx))
      else sz)"
  by pat_completeness auto
termination
  by (relation "measure (\<lambda>(addr, sz, idx). sz - idx * 64)") auto

definition find_first_zero_bit :: "u64 list \<Rightarrow> nat \<Rightarrow> nat" where
  "find_first_zero_bit addr sz = find_first_zero_bit_from addr sz 0"

text \<open>The word loops of \<^verbatim>\<open>find_next_bit\<close> and \<^verbatim>\<open>find_next_zero_bit\<close>.\<close>

function find_next_bit_loop :: "u64 list \<Rightarrow> nat \<Rightarrow> nat \<Rightarrow> nat" where
  "find_next_bit_loop addr sz offset =
     (if offset < sz then
        (let tmp = addr ! BIT_WORD offset
         in if tmp \<noteq> 0 then min (offset + builtin_ffsl tmp - 1) sz
            else find_next_bit_loop addr sz (offset + 64))
      else sz)"
  by pat_completeness auto
termination
  by (relation "measure (\<lambda>(addr, sz, offset). sz - offset)") auto

definition find_next_bit :: "u64 list \<Rightarrow> nat \<Rightarrow> nat \<Rightarrow> nat" where
  "find_next_bit addr sz offset =
     (if sz \<le> offset then sz
      else let tmp = addr ! BIT_WORD offset AND push_bit (offset mod 64) (- 1)
           in if tmp \<noteq> 0 then min (BIT_WORD offset * 64 + builtin_ffsl tmp - 1) sz
              else find_next_bit_loop addr sz ((BIT_WORD offset + 1) * 64))"

function find_next_zero_bit_loop :: "u64 list \<Rightarrow> nat \<Rightarrow> nat \<Rightarrow> nat" where
  "find_next_zero_bit_loop addr sz offset =
     (if offset < sz then
        (let tmp = NOT (addr ! BIT_WORD offset)
         in if tmp \<noteq> 0 then min (offset + builtin_ffsl tmp - 1) sz
            else find_next_zero_bit_loop addr sz (offset + 64))
      else sz)"
  by pat_completeness auto
termination
  by (relation "measure (\<lambda>(addr, sz, offset). sz - offset)") auto

definition find_next_zero_bit :: "u64 list \<Rightarrow> nat \<Rightarrow> nat \<Rightarrow> nat" where
  "find_next_zero_bit addr sz offset =
     (if sz \<le> offset then sz
      else let tmp = NOT (addr ! BIT_WORD offset) AND push_bit (offset mod 64) (- 1)
           in if tmp \<noteq> 0 then min (BIT_WORD offset * 64 + builtin_ffsl tmp - 1) sz
              else find_next_zero_bit_loop addr sz ((BIT_WORD offset + 1) * 64))"

section \<open>Ranges and weight\<close>

text \<open>The loop state of \<^verbatim>\<open>bitmap_set\<close>: the word index, the remaining bits, the bits left in the
  current word and the mask for it.\<close>

function bitmap_set_loop :: "u64 list \<Rightarrow> nat \<Rightarrow> nat \<Rightarrow> nat \<Rightarrow> u64 \<Rightarrow> u64 list" where
  "bitmap_set_loop bm p nbits bits_to_set msk =
     (if bits_to_set \<le> nbits then
        bitmap_set_loop (bm[p := bm ! p OR msk]) (p + 1) (nbits - bits_to_set) 64 (- 1)
      else if nbits \<noteq> 0 then bm[p := bm ! p OR (msk AND NOT (push_bit nbits (- 1)))]
      else bm)"
  by pat_completeness auto
termination
  by (relation "measure (\<lambda>(bm, p, nbits, b, msk). if b = 0 then nbits + 1 else nbits)") auto

definition bitmap_set :: "u64 list \<Rightarrow> nat \<Rightarrow> nat \<Rightarrow> u64 list" where
  "bitmap_set bm start nbits =
     bitmap_set_loop bm (BIT_WORD start) nbits (64 - start mod 64) (push_bit (start mod 64) (- 1))"

function bitmap_clear_loop :: "u64 list \<Rightarrow> nat \<Rightarrow> nat \<Rightarrow> nat \<Rightarrow> u64 \<Rightarrow> u64 list" where
  "bitmap_clear_loop bm p nbits bits_to_clear msk =
     (if bits_to_clear \<le> nbits then
        bitmap_clear_loop (bm[p := bm ! p AND NOT msk]) (p + 1) (nbits - bits_to_clear) 64 (- 1)
      else if nbits \<noteq> 0 then
        bm[p := bm ! p AND NOT (msk AND NOT (push_bit nbits (- 1)))]
      else bm)"
  by pat_completeness auto
termination
  by (relation "measure (\<lambda>(bm, p, nbits, b, msk). if b = 0 then nbits + 1 else nbits)") auto

definition bitmap_clear :: "u64 list \<Rightarrow> nat \<Rightarrow> nat \<Rightarrow> u64 list" where
  "bitmap_clear bm start nbits =
     bitmap_clear_loop bm (BIT_WORD start) nbits (64 - start mod 64) (push_bit (start mod 64) (- 1))"

function weight_word :: "u64 \<Rightarrow> nat \<Rightarrow> nat" where
  "weight_word v w = (if v \<noteq> 0 then weight_word (drop_bit 1 v) (w + unat (v AND 1)) else w)"
  by pat_completeness auto
termination
  by (relation "measure (\<lambda>(v, w). unat v)")
    (auto simp: drop_bit_eq_div unat_div_distrib unat_gt_0)

definition bitmap_weight :: "u64 list \<Rightarrow> nat \<Rightarrow> nat" where
  "bitmap_weight bitmap bits = fold (\<lambda>k w. weight_word (bitmap ! k) w) [0..<BITS_TO_LONGS bits] 0"

text \<open>\<^verbatim>\<open>bitmap_zero\<close> and \<^verbatim>\<open>bitmap_fill\<close> fill whole words.\<close>

definition bitmap_zero :: "u64 list \<Rightarrow> nat \<Rightarrow> u64 list" where
  "bitmap_zero bitmap bits =
     replicate (min (BITS_TO_LONGS bits) (length bitmap)) 0 @ drop (BITS_TO_LONGS bits) bitmap"

definition bitmap_fill :: "u64 list \<Rightarrow> nat \<Rightarrow> u64 list" where
  "bitmap_fill bitmap bits =
     replicate (min (BITS_TO_LONGS bits) (length bitmap)) (- 1) @ drop (BITS_TO_LONGS bits) bitmap"

declare find_first_bit_from.simps [simp del] find_first_zero_bit_from.simps [simp del]
  find_next_bit_loop.simps [simp del] find_next_zero_bit_loop.simps [simp del]
  bitmap_set_loop.simps [simp del] bitmap_clear_loop.simps [simp del] weight_word.simps [simp del]

section \<open>The single-bit interface\<close>

lemma test_bit_iff: "test_bit nr addr = bit (addr ! (nr div 64)) (nr mod 64)"
  by (simp add: test_bit_def BIT_WORD_def BIT_MASK_def bit_iff_and_push_bit_not_eq_0)

lemma div_mod_64_eq: "(j :: nat) div 64 = i div 64 \<Longrightarrow> j mod 64 = i mod 64 \<longleftrightarrow> j = i"
  by (metis mult_div_mod_eq)

interpretation ulong: bit_array "\<lambda>b i. test_bit i b" "\<lambda>b i. set_bit i b" "\<lambda>b i. clear_bit i b"
  "\<lambda>b. 64 * length b"
proof
  fix b :: "u64 list" and i j :: nat
  assume "i < 64 * length b"
  then have i: "i div 64 < length b" by (simp add: less_mult_imp_div_less mult.commute)
  show "test_bit j (set_bit i b) = (j = i \<or> test_bit j b)"
    using i by (cases "j div 64 = i div 64")
      (auto simp: test_bit_iff set_bit_def BIT_WORD_def BIT_MASK_def bit_simps div_mod_64_eq)
  show "test_bit j (clear_bit i b) = (j \<noteq> i \<and> test_bit j b)"
    using i by (cases "j div 64 = i div 64")
      (auto simp: test_bit_iff clear_bit_def BIT_WORD_def BIT_MASK_def bit_simps div_mod_64_eq)
qed (simp_all add: set_bit_def clear_bit_def)

section \<open>Searches return the least match\<close>

definition is_next :: "(nat \<Rightarrow> bool) \<Rightarrow> nat \<Rightarrow> nat \<Rightarrow> nat \<Rightarrow> bool" where
  "is_next P lo hi r \<longleftrightarrow>
     r \<le> hi \<and> (\<forall>j. lo \<le> j \<and> j < r \<longrightarrow> \<not> P j) \<and> (r < hi \<longrightarrow> lo \<le> r \<and> P r)"

lemma builtin_ffsl_least:
  assumes "x \<noteq> 0"
  obtains i where "builtin_ffsl x = Suc i" "i < 64" "bit x i" "\<And>j. j < i \<Longrightarrow> \<not> bit x j"
proof -
  obtain n where n: "bit x n" using assms by (auto simp: bit_eq_iff)
  then have "n < 64" using bit_imp_le_length by fastforce
  with n have "find (bit x) [0..<64] \<noteq> None" by (auto simp: find_None_iff)
  then obtain i where f: "find (bit x) [0..<64] = Some i" by auto
  then have "i < 64 \<and> bit x i \<and> (\<forall>j<i. \<not> bit x j)" by (auto simp: find_Some_iff)
  with f that show ?thesis by (simp add: builtin_ffsl_def)
qed

text \<open>One word of a search: \<open>w\<close> holds the candidates of the word that starts at \<open>base\<close>.\<close>

lemma is_next_word_hit:
  assumes "w \<noteq> 0" and "base \<le> lo"
    and w: "\<And>k. k < 64 \<Longrightarrow> bit w k \<longleftrightarrow> lo \<le> base + k \<and> P (base + k)"
  shows "is_next P lo sz (min (base + builtin_ffsl w - 1) sz)"
proof -
  obtain i where i: "builtin_ffsl w = Suc i" "i < 64" "bit w i" "\<And>j. j < i \<Longrightarrow> \<not> bit w j"
    using builtin_ffsl_least [OF assms(1)] by blast
  have "\<not> P j" if "lo \<le> j" "j < base + i" for j
    using i(4) [of "j - base"] w [of "j - base"] that assms(2) i(2) by auto
  then show ?thesis using i w [of i] by (auto simp: is_next_def)
qed

lemma is_next_word_miss:
  assumes "w = 0" and "base \<le> lo"
    and w: "\<And>k. k < 64 \<Longrightarrow> bit w k \<longleftrightarrow> lo \<le> base + k \<and> P (base + k)"
    and rest: "is_next P (base + 64) sz r" and "lo \<le> base + 64"
  shows "is_next P lo sz r"
proof -
  have "\<not> P j" if "lo \<le> j" "j < base + 64" for j
    using w [of "j - base"] that assms(1,2) by auto
  then show ?thesis
    using rest assms(5) unfolding is_next_def by (metis le_trans not_le)
qed

lemma test_bit_word: "k < 64 \<Longrightarrow> test_bit (64 * b + k) addr = bit (addr ! b) k"
  by (simp add: test_bit_iff)

lemma bit_tail: "k < 64 \<Longrightarrow> bit (w AND push_bit n (- 1) :: u64) k = (n \<le> k \<and> bit w k)"
  by (auto simp: bit_simps)

lemma bit_not_u64: "k < 64 \<Longrightarrow> bit (NOT w :: u64) k = (\<not> bit w k)"
  by (simp add: bit_not_iff)

lemma is_next_end: "is_next P lo sz sz \<longleftrightarrow> (\<forall>j. lo \<le> j \<and> j < sz \<longrightarrow> \<not> P j)"
  by (simp add: is_next_def)

lemma find_next_bit_loop_next:
  "is_next (\<lambda>j. test_bit j addr) (64 * b) sz (find_next_bit_loop addr sz (64 * b))"
proof (induction "sz - 64 * b" arbitrary: b rule: less_induct)
  case less
  have w: "bit (addr ! b) k \<longleftrightarrow> 64 * b \<le> 64 * b + k \<and> test_bit (64 * b + k) addr" if "k < 64" for k
    using that by (simp add: test_bit_word)
  show ?case
  proof (cases "64 * b < sz \<and> addr ! b = 0")
    case True
    have "is_next (\<lambda>j. test_bit j addr) (64 * Suc b) sz (find_next_bit_loop addr sz (64 * Suc b))"
      using True by (intro less) auto
    moreover have "find_next_bit_loop addr sz (64 * b) = find_next_bit_loop addr sz (64 * Suc b)"
      using True by (simp add: find_next_bit_loop.simps [of addr sz "64 * b"] BIT_WORD_def add.commute)
    ultimately show ?thesis
      using True by (auto simp: add.commute intro!: is_next_word_miss [OF _ _ w])
  next
    case False
    then show ?thesis
      using is_next_word_hit [OF _ _ w, of sz]
      by (auto simp: find_next_bit_loop.simps [of addr sz "64 * b"] BIT_WORD_def is_next_end)
  qed
qed

lemma find_next_zero_bit_loop_next:
  "is_next (\<lambda>j. \<not> test_bit j addr) (64 * b) sz (find_next_zero_bit_loop addr sz (64 * b))"
proof (induction "sz - 64 * b" arbitrary: b rule: less_induct)
  case less
  have w: "bit (NOT (addr ! b)) k \<longleftrightarrow> 64 * b \<le> 64 * b + k \<and> \<not> test_bit (64 * b + k) addr"
    if "k < 64" for k
    using that by (simp add: test_bit_word bit_not_u64)
  show ?case
  proof (cases "64 * b < sz \<and> NOT (addr ! b) = 0")
    case True
    have "is_next (\<lambda>j. \<not> test_bit j addr) (64 * Suc b) sz
        (find_next_zero_bit_loop addr sz (64 * Suc b))"
      using True by (intro less) auto
    moreover have "find_next_zero_bit_loop addr sz (64 * b) = find_next_zero_bit_loop addr sz (64 * Suc b)"
      using True by (simp add: find_next_zero_bit_loop.simps [of addr sz "64 * b"] BIT_WORD_def add.commute)
    ultimately show ?thesis
      using True by (auto simp: add.commute intro!: is_next_word_miss [OF _ _ w])
  next
    case False
    then show ?thesis
      using is_next_word_hit [OF _ _ w, of sz]
      by (auto simp: find_next_zero_bit_loop.simps [of addr sz "64 * b"] BIT_WORD_def is_next_end)
  qed
qed

lemma find_next_bit_next: "is_next (\<lambda>j. test_bit j addr) offset sz (find_next_bit addr sz offset)"
proof -
  let ?b = "offset div 64"
  have o: "offset = 64 * ?b + offset mod 64" by simp
  have w: "bit (addr ! ?b AND push_bit (offset mod 64) (- 1)) k \<longleftrightarrow>
      offset \<le> 64 * ?b + k \<and> test_bit (64 * ?b + k) addr" if "k < 64" for k
    using that o by (simp only: bit_tail test_bit_word) linarith
  have "offset \<le> 64 * ?b + 64" by linarith
  then show ?thesis
    using is_next_word_hit [OF _ _ w, of sz]
      is_next_word_miss [OF _ _ w, of sz] find_next_bit_loop_next [of addr "Suc ?b" sz]
    by (auto simp: find_next_bit_def BIT_WORD_def Let_def is_next_end ac_simps)
qed

lemma find_next_zero_bit_next:
  "is_next (\<lambda>j. \<not> test_bit j addr) offset sz (find_next_zero_bit addr sz offset)"
proof -
  let ?b = "offset div 64"
  have o: "offset = 64 * ?b + offset mod 64" by simp
  have w: "bit (NOT (addr ! ?b) AND push_bit (offset mod 64) (- 1)) k \<longleftrightarrow>
      offset \<le> 64 * ?b + k \<and> \<not> test_bit (64 * ?b + k) addr" if "k < 64" for k
    using that o by (simp only: bit_tail test_bit_word bit_not_u64) linarith
  have "offset \<le> 64 * ?b + 64" by linarith
  then show ?thesis
    using is_next_word_hit [OF _ _ w, of sz]
      is_next_word_miss [OF _ _ w, of sz] find_next_zero_bit_loop_next [of addr "Suc ?b" sz]
    by (auto simp: find_next_zero_bit_def BIT_WORD_def Let_def is_next_end ac_simps)
qed

text \<open>The searches from the start are the searches from offset 0.\<close>

lemma unat_ffz: "NOT w \<noteq> 0 \<Longrightarrow> unat (ffz w) = builtin_ffsl (NOT w) - 1"
proof -
  assume a: "NOT w \<noteq> 0"
  obtain i where "builtin_ffsl (NOT w) = Suc i" "i < 64" using builtin_ffsl_least [OF a] by blast
  then show ?thesis using a by (simp add: ffz_def ffs_def)
qed

lemma find_first_bit_loop: "find_first_bit_from addr sz idx = find_next_bit_loop addr sz (64 * idx)"
proof (induction addr sz idx rule: find_first_bit_from.induct)
  case (1 addr sz idx)
  then show ?case
    unfolding find_first_bit_from.simps [of addr sz idx] find_next_bit_loop.simps [of addr sz "64 * idx"]
    by (auto simp: BIT_WORD_def Let_def mult.commute [of idx 64] add.commute)
qed

lemma find_first_zero_bit_loop:
  "find_first_zero_bit_from addr sz idx = find_next_zero_bit_loop addr sz (64 * idx)"
proof (induction addr sz idx rule: find_first_zero_bit_from.induct)
  case (1 addr sz idx)
  have "NOT (addr ! idx) \<noteq> 0 \<Longrightarrow>
      64 * idx + unat (ffz (addr ! idx)) = 64 * idx + builtin_ffsl (NOT (addr ! idx)) - 1"
    using builtin_ffsl_least [of "NOT (addr ! idx)"] by (force simp: unat_ffz)
  with 1 show ?case
    unfolding find_first_zero_bit_from.simps [of addr sz idx]
      find_next_zero_bit_loop.simps [of addr sz "64 * idx"]
    by (auto simp: BIT_WORD_def Let_def mult.commute [of idx 64] add.commute [of 64 "64 * idx"])
qed

section \<open>Ranges\<close>

lemma split_64: obtains q k where "j = 64 * q + k" "k < (64 :: nat)"
  by (rule that [of "j div 64" "j mod 64"]) simp_all

lemma test_bit_upd:
  "p < length bm \<Longrightarrow> k < 64 \<Longrightarrow>
   test_bit (64 * q + k) (bm[p := v]) = (if q = p then bit v k else bit (bm ! q) k)"
  by (simp add: test_bit_word)

lemma bit_or_u64: "bit (v OR w :: u64) k = (bit v k \<or> bit w k)"
  by (simp add: bit_or_iff)

lemma bit_span:
  "k < 64 \<Longrightarrow> bit (push_bit a (- 1) AND NOT (push_bit n (- 1)) :: u64) k = (a \<le> k \<and> k < n)"
  by (auto simp: bit_simps)

lemma in_word_iff:
  "k < 64 \<Longrightarrow> n \<le> 64 \<Longrightarrow> 64 * p \<le> 64 * q + k \<and> 64 * q + k < 64 * p + n \<longleftrightarrow> q = p \<and> k < (n :: nat)"
  by (cases q p rule: linorder_cases) auto

lemma bitmap_set_loop_aligned:
  assumes "64 * p + nbits \<le> 64 * length bm"
  shows "test_bit j (bitmap_set_loop bm p nbits 64 (- 1)) \<longleftrightarrow>
    test_bit j bm \<or> 64 * p \<le> j \<and> j < 64 * p + nbits"
  using assms
proof (induction nbits arbitrary: bm p rule: less_induct)
  case (less nbits)
  obtain q k where j: "j = 64 * q + k" and k: "k < 64" by (rule split_64)
  consider (full) "64 \<le> nbits" | (part) "0 < nbits" "nbits < 64" | (none) "nbits = 0" by linarith
  then show ?case
  proof cases
    case full
    let ?bm = "bm[p := bm ! p OR - 1]"
    have pl: "p < length bm" using less.prems full by linarith
    have "test_bit j (bitmap_set_loop ?bm (p + 1) (nbits - 64) 64 (- 1)) \<longleftrightarrow>
        test_bit j ?bm \<or> 64 * (p + 1) \<le> j \<and> j < 64 * (p + 1) + (nbits - 64)"
      using less.prems full by (intro less.IH) auto
    moreover have "test_bit j ?bm \<longleftrightarrow> test_bit j bm \<or> q = p"
      using pl k by (simp add: j test_bit_upd test_bit_word [of k q bm])
    moreover have "q = p \<longleftrightarrow> 64 * p \<le> j \<and> j < 64 * p + 64"
      using in_word_iff [OF k, of 64 p q] k by (simp add: j)
    ultimately show ?thesis
      using full by (auto simp: bitmap_set_loop.simps [of bm p nbits])
  next
    case part
    then have "p < length bm" using less.prems by auto
    then show ?thesis
      using part in_word_iff [OF k, of nbits p q] k
      by (auto simp: bitmap_set_loop.simps [of bm p nbits] j test_bit_upd bit_or_u64 bit_mask_iff
          test_bit_word [of k q bm])
  next
    case none
    then show ?thesis by (auto simp: bitmap_set_loop.simps [of bm p 0])
  qed
qed

text \<open>The end of the range the code really touches: a range that ends inside the word it starts in
  is cut short by the offset of its start in that word.\<close>

definition range_end :: "nat \<Rightarrow> nat \<Rightarrow> nat" where
  "range_end start nbits =
     (if nbits < 64 - start mod 64 then start - start mod 64 + nbits else start + nbits)"

lemma bitmap_set_range:
  assumes "start + nbits \<le> 64 * length bm"
  shows "test_bit j (bitmap_set bm start nbits) \<longleftrightarrow>
    test_bit j bm \<or> start \<le> j \<and> j < range_end start nbits"
proof -
  obtain q k where j: "j = 64 * q + k" and k: "k < 64" by (rule split_64)
  obtain p off where s: "start = 64 * p + off" and off: "off < 64" by (rule split_64)
  consider (full) "64 - off \<le> nbits" | (part) "0 < nbits" "nbits < 64 - off" | (none) "nbits = 0"
    by linarith
  then show ?thesis
  proof cases
    case full
    let ?bm = "bm[p := bm ! p OR push_bit off (- 1)]"
    have p: "p < length bm" using assms full s off by linarith
    have "bitmap_set bm start nbits = bitmap_set_loop ?bm (p + 1) (nbits - (64 - off)) 64 (- 1)"
      using full off by (simp add: s bitmap_set_def BIT_WORD_def bitmap_set_loop.simps [of bm p nbits])
    moreover have "64 * (p + 1) + (nbits - (64 - off)) = start + nbits"
      using full off by (simp add: s)
    ultimately have "test_bit j (bitmap_set bm start nbits) \<longleftrightarrow>
        test_bit j ?bm \<or> 64 * (p + 1) \<le> j \<and> j < start + nbits"
      using bitmap_set_loop_aligned [of "p + 1" "nbits - (64 - off)" ?bm j] assms by simp
    moreover have "test_bit j ?bm \<longleftrightarrow> test_bit j bm \<or> q = p \<and> off \<le> k"
      using p k
      by (auto simp: j test_bit_upd bit_or_u64 bit_not_u64 bit_mask_iff test_bit_word [of k q bm])
    moreover have "(q = p \<and> off \<le> k) \<or> (64 * (p + 1) \<le> j \<and> j < start + nbits)
        \<longleftrightarrow> start \<le> j \<and> j < start + nbits"
      using full off k unfolding j s by (cases q p rule: linorder_cases) auto
    ultimately show ?thesis using full off by (auto simp: range_end_def s)
  next
    case part
    have p: "p < length bm" using assms part s by linarith
    have "bitmap_set bm start nbits
        = bm[p := bm ! p OR (push_bit off (- 1) AND NOT (push_bit nbits (- 1)))]"
      using part off by (simp add: s bitmap_set_def BIT_WORD_def bitmap_set_loop.simps [of bm p nbits])
    then have "test_bit j (bitmap_set bm start nbits) \<longleftrightarrow>
        test_bit j bm \<or> q = p \<and> off \<le> k \<and> k < nbits"
      using p k by (simp only: j test_bit_upd bit_or_u64 bit_span test_bit_word [of k q bm]) auto
    moreover have "q = p \<and> off \<le> k \<and> k < nbits \<longleftrightarrow> start \<le> j \<and> j < 64 * p + nbits"
      using part off k unfolding j s by (cases q p rule: linorder_cases) auto
    ultimately show ?thesis using part off by (simp add: range_end_def s)
  next
    case none
    then show ?thesis using off
      by (auto simp: bitmap_set_def range_end_def s bitmap_set_loop.simps [of _ _ 0])
  qed
qed

text \<open>Clearing a range is setting it in the complement.\<close>

lemma map_not_upd:
  "map NOT (bm[p := bm ! p AND NOT v]) = (map NOT bm)[p := map NOT bm ! p OR (v :: u64)]"
  by (cases "p < length bm") (simp_all add: map_update list_update_beyond)

lemma bitmap_clear_loop_set:
  "map NOT (bitmap_clear_loop bm p n b m) = bitmap_set_loop (map NOT bm) p n b m"
proof (induction bm p n b m rule: bitmap_clear_loop.induct)
  case (1 bm p n b m)
  show ?case
  proof (cases "b \<le> n")
    case True
    then show ?thesis
      unfolding bitmap_clear_loop.simps [of bm p n b m] bitmap_set_loop.simps [of "map NOT bm" p n b m]
      by (simp only: if_True "1.IH" map_not_upd)
  next
    case False
    then show ?thesis
      unfolding bitmap_clear_loop.simps [of bm p n b m] bitmap_set_loop.simps [of "map NOT bm" p n b m]
      by (simp only: if_False if_distrib [of "map NOT"] map_not_upd)
  qed
qed

lemma length_bitmap_set_loop: "length (bitmap_set_loop b p n c m) = length b"
proof (induction b p n c m rule: bitmap_set_loop.induct)
  case (1 b p n c m)
  then show ?case by (subst bitmap_set_loop.simps) simp
qed

lemma bitmap_clear_range:
  assumes "start + nbits \<le> 64 * length bm" and "j < 64 * length bm"
  shows "test_bit j (bitmap_clear bm start nbits) \<longleftrightarrow>
    test_bit j bm \<and> \<not> (start \<le> j \<and> j < range_end start nbits)"
proof -
  have neg: "test_bit j (map NOT b) \<longleftrightarrow> \<not> test_bit j b" if "length b = length bm" for b
    using that assms(2) by (simp add: test_bit_iff bit_not_u64 less_mult_imp_div_less mult.commute)
  have c: "map NOT (bitmap_clear bm start nbits) = bitmap_set (map NOT bm) start nbits"
    by (simp add: bitmap_clear_def bitmap_set_def bitmap_clear_loop_set)
  then have "length (bitmap_clear bm start nbits) = length bm"
    by (metis bitmap_set_def length_bitmap_set_loop length_map)
  then have "test_bit j (bitmap_clear bm start nbits) \<longleftrightarrow>
      \<not> test_bit j (bitmap_set (map NOT bm) start nbits)"
    by (simp add: neg c [symmetric])
  then show ?thesis
    using bitmap_set_range [of start nbits "map NOT bm" j] assms by (simp add: neg)
qed

section \<open>Weight\<close>

lemma finite_bits: "finite {k. bit (v :: u64) k}"
  by (rule finite_subset [of _ "{..<64}"]) (auto dest: bit_imp_le_length)

lemma card_bits_drop: "card {k. bit (v :: u64) k} = of_bool (bit v 0) + card {k. bit (drop_bit 1 v) k}"
proof -
  have "{k. bit v k} = (if bit v 0 then {0} else {}) \<union> Suc ` {k. bit (drop_bit 1 v) k}"
    by (auto simp: bit_drop_bit_eq image_iff split: if_splits) (metis not0_implies_Suc)+
  then show ?thesis
    by (simp add: card_image card_insert_if finite_bits image_iff)
qed

lemma weight_word_card: "weight_word v w = w + card {k. bit v k}"
proof (induction v w rule: weight_word.induct)
  case (1 v w)
  have "unat (v AND 1) = of_bool (bit v 0)"
    by (simp add: and_one_eq bit_0 mod_2_eq_odd)
  then show ?case
    using 1 card_bits_drop [of v] by (simp add: weight_word.simps [of v w])
qed

lemma fold_weight:
  "fold (\<lambda>k w. weight_word (bm ! k) w) [0..<n] 0 = card {j. j < 64 * n \<and> test_bit j bm}"
proof (induction n)
  case (Suc n)
  have "{j. j < 64 * Suc n \<and> test_bit j bm} =
      {j. j < 64 * n \<and> test_bit j bm} \<union> (+) (64 * n) ` {k. bit (bm ! n) k}" (is "?l = ?a \<union> ?b")
  proof -
    have "j \<in> ?l \<longleftrightarrow> j \<in> ?a \<union> ?b" for j
    proof (cases "64 * n \<le> j")
      case True
      then obtain k where "j = 64 * n + k" using le_Suc_ex by blast
      moreover have "k < 64" if "bit (bm ! n) k" using bit_imp_le_length [OF that] by simp
      ultimately show ?thesis by (auto simp: test_bit_word image_iff)
    qed auto
    then show ?thesis by blast
  qed
  moreover have "card (?a \<union> ?b) = card ?a + card {k. bit (bm ! n) k}"
    by (subst card_Un_disjoint) (auto simp: finite_bits card_image)
  ultimately show ?case
    using Suc by (simp add: weight_word_card)
qed simp

section \<open>Properties\<close>

text \<open>C34: all four searches return the least matching index at or after their start, and the size
  of the bitmap when there is none.\<close>

theorem bitmap_searches_least:
  "is_next (\<lambda>j. test_bit j addr) 0 sz (find_first_bit addr sz) \<and>
   is_next (\<lambda>j. \<not> test_bit j addr) 0 sz (find_first_zero_bit addr sz) \<and>
   is_next (\<lambda>j. test_bit j addr) offset sz (find_next_bit addr sz offset) \<and>
   is_next (\<lambda>j. \<not> test_bit j addr) offset sz (find_next_zero_bit addr sz offset)"
  using find_next_bit_loop_next [of addr 0 sz] find_next_zero_bit_loop_next [of addr 0 sz]
  by (simp add: find_first_bit_def find_first_zero_bit_def find_first_bit_loop find_first_zero_bit_loop
      find_next_bit_next find_next_zero_bit_next)

text \<open>C35: \<^verbatim>\<open>bitmap_set\<close> and \<^verbatim>\<open>bitmap_clear\<close> change exactly the bits from \<^verbatim>\<open>start\<close> up to
  \<^const>\<open>range_end\<close> and no other. That is the range asked for whenever it reaches the end of the word
  it starts in; a shorter one is cut by the offset of \<^verbatim>\<open>start\<close> in its word.\<close>

theorem bitmap_ranges_exact:
  assumes "start + nbits \<le> 64 * length bm" and "j < 64 * length bm"
  shows "(test_bit j (bitmap_set bm start nbits) \<longleftrightarrow>
      test_bit j bm \<or> start \<le> j \<and> j < range_end start nbits) \<and>
    (test_bit j (bitmap_clear bm start nbits) \<longleftrightarrow>
      test_bit j bm \<and> \<not> (start \<le> j \<and> j < range_end start nbits)) \<and>
    (64 \<le> start mod 64 + nbits \<or> start mod 64 = 0 \<longrightarrow> range_end start nbits = start + nbits)"
  using bitmap_set_range [OF assms(1)] bitmap_clear_range [OF assms]
  by (auto simp: range_end_def)

theorem bitmap_ranges_exact_witness:
  "test_bit 65 (bitmap_set [0, 0] 60 10) \<and> \<not> test_bit 70 (bitmap_set [0, 0] 60 10) \<and>
   \<not> test_bit 4 (bitmap_set [0] 4 2) \<and> \<not> test_bit 65 (bitmap_clear [- 1, - 1] 60 10)"
  using bitmap_ranges_exact [of 60 10 "[0, 0]" 65] bitmap_ranges_exact [of 60 10 "[0, 0]" 70]
    bitmap_ranges_exact [of 4 2 "[0]" 4] bitmap_ranges_exact [of 60 10 "[- 1, - 1]" 65]
  by (simp add: range_end_def test_bit_def BIT_WORD_def)

text \<open>\<^verbatim>\<open>bitmap_weight\<close> returns the number of set bits in all the words the size rounds up to;
  bits of the last word beyond the size are counted too.\<close>

theorem bitmap_weight_counts:
  "bitmap_weight bm bits = card {j. j < 64 * BITS_TO_LONGS bits \<and> test_bit j bm}"
  by (simp add: bitmap_weight_def fold_weight)

end
