(* ===== verification/PhysMem.thy ===== *)
theory PhysMem
  imports Obelisk_Prelude
begin

text \<open>
  The physical page allocator \<^verbatim>\<open>kernel/mm/pmm.c\<close>: three zones over one static bitmap with a bit
  per page frame (set means used), free counters per zone and overall, and the array of
  \<^verbatim>\<open>struct page\<close> metadata. Page frame numbers in loops are naturals (the loops count from a start
  below an end, so they do not wrap); counters, addresses and metadata keep their machine width.
  The allocator is refined to a set of free frames.
\<close>

section \<open>State\<close>

datatype zone_type = ZONE_DMA | ZONE_NORMAL | ZONE_HIGH

primrec zone_index :: "zone_type \<Rightarrow> nat" where
  "zone_index ZONE_DMA = 0"
| "zone_index ZONE_NORMAL = 1"
| "zone_index ZONE_HIGH = 2"

text \<open>All zones point to the one static bitmap, which is a field of the allocator state.\<close>

record pmm_zone =
  start_pfn :: u64
  end_pfn :: u64
  zone_total :: u64
  zone_free :: u64
  bitmap_size :: u64

text \<open>The list link and the private pointer of \<^verbatim>\<open>struct page\<close> are not used by the allocator.\<close>

record page =
  flags :: u32
  refcount :: u32
  page_zone :: u16
  owner :: u16

record pmm =
  zones :: "pmm_zone list"
  total_pages :: u64
  free_pages :: u64
  usable_pages :: u64
  page_array :: "page list option"
  page_array_count :: u64
  page_array_backing_phys :: u64
  initial_bitmap :: "u32 list"

definition PAGE_FLAG_RESERVED :: u32 where "PAGE_FLAG_RESERVED = 1"
definition PAGE_FLAG_KERNEL :: u32 where "PAGE_FLAG_KERNEL = 2"
definition PAGE_FLAG_USER :: u32 where "PAGE_FLAG_USER = 4"
definition PAGE_FLAG_DMA :: u32 where "PAGE_FLAG_DMA = 8"
definition PAGE_FLAG_SLAB :: u32 where "PAGE_FLAG_SLAB = 128"

definition PAGE_OWNER_FREE :: u16 where "PAGE_OWNER_FREE = 0"
definition PAGE_OWNER_KERNEL :: u16 where "PAGE_OWNER_KERNEL = 1"
definition PAGE_OWNER_USER :: u16 where "PAGE_OWNER_USER = 2"
definition PAGE_OWNER_SLAB :: u16 where "PAGE_OWNER_SLAB = 3"
definition PAGE_OWNER_DMA :: u16 where "PAGE_OWNER_DMA = 5"

definition pfn_to_phys :: "u64 \<Rightarrow> u64" where
  "pfn_to_phys pfn = push_bit PAGE_SHIFT pfn"

definition phys_to_pfn :: "u64 \<Rightarrow> u64" where
  "phys_to_pfn phys = drop_bit PAGE_SHIFT phys"

text \<open>The static initialiser, before \<^verbatim>\<open>pmm_init_bitmap\<close> runs; unnamed fields are zero.\<close>

definition bitmap_words :: nat where
  "bitmap_words = 1024 * 1024 div 32"

definition pmm_static :: pmm where
  "pmm_static = \<lparr> zones =
      [\<lparr> start_pfn = 0, end_pfn = 0x1000, zone_total = 0, zone_free = 0, bitmap_size = 0 \<rparr>,
       \<lparr> start_pfn = 0x1000, end_pfn = 0x100000, zone_total = 0, zone_free = 0, bitmap_size = 0 \<rparr>,
       \<lparr> start_pfn = 0x100000, end_pfn = 0, zone_total = 0, zone_free = 0, bitmap_size = 0 \<rparr>],
     total_pages = 0, free_pages = 0, usable_pages = 0, page_array = None, page_array_count = 0,
     page_array_backing_phys = 0, initial_bitmap = replicate bitmap_words 0 \<rparr>"

section \<open>Bitmap and lookup helpers\<close>

definition pmm_bitmap_set :: "u32 list \<Rightarrow> nat \<Rightarrow> u32 list" where
  "pmm_bitmap_set bitmap i = bitmap[i div 32 := bitmap ! (i div 32) OR push_bit (i mod 32) 1]"

definition pmm_bitmap_clear :: "u32 list \<Rightarrow> nat \<Rightarrow> u32 list" where
  "pmm_bitmap_clear bitmap i =
     bitmap[i div 32 := bitmap ! (i div 32) AND NOT (push_bit (i mod 32) 1)]"

definition pmm_bitmap_test :: "u32 list \<Rightarrow> nat \<Rightarrow> bool" where
  "pmm_bitmap_test bitmap i = (bitmap ! (i div 32) AND push_bit (i mod 32) 1 \<noteq> 0)"

text \<open>The searches return a frame number, or \<^const>\<open>None\<close> for -1.\<close>

function bitmap_find_free :: "u32 list \<Rightarrow> nat \<Rightarrow> nat \<Rightarrow> nat option" where
  "bitmap_find_free bitmap i fin =
     (if i < fin then
        (if \<not> pmm_bitmap_test bitmap i then Some i else bitmap_find_free bitmap (i + 1) fin)
      else None)"
  by pat_completeness auto
termination
  by (relation "measure (\<lambda>(bitmap, i, fin). fin - i)") auto

function find_free_region_from ::
  "u32 list \<Rightarrow> nat \<Rightarrow> nat \<Rightarrow> nat \<Rightarrow> nat \<Rightarrow> nat \<Rightarrow> nat option" where
  "find_free_region_from bitmap i fin count found_start found_count =
     (if i < fin then
        (if \<not> pmm_bitmap_test bitmap i then
           (let fs = (if found_count = 0 then i else found_start); fc = found_count + 1
            in if fc = count then Some fs else find_free_region_from bitmap (i + 1) fin count fs fc)
         else find_free_region_from bitmap (i + 1) fin count found_start 0)
      else None)"
  by pat_completeness auto
termination
  by (relation "measure (\<lambda>(bitmap, i, fin, count, fs, fc). fin - i)") auto

definition bitmap_find_free_region :: "u32 list \<Rightarrow> nat \<Rightarrow> nat \<Rightarrow> nat \<Rightarrow> nat option" where
  "bitmap_find_free_region bitmap start fin count =
     find_free_region_from bitmap start fin count 0 0"

declare bitmap_find_free.simps [simp del] find_free_region_from.simps [simp del]

text \<open>\<^verbatim>\<open>pfn_to_zone\<close> returns the index of the zone, or \<^const>\<open>None\<close> for \<^verbatim>\<open>NULL\<close>.\<close>

definition pfn_to_zone :: "pmm \<Rightarrow> nat \<Rightarrow> nat option" where
  "pfn_to_zone s pfn =
     find (\<lambda>i. unat (start_pfn (zones s ! i)) \<le> pfn \<and> pfn < unat (end_pfn (zones s ! i))) [0..<3]"

text \<open>\<^verbatim>\<open>pfn_to_page_struct\<close> returns the index of the page structure, or \<^const>\<open>None\<close> for
  \<^verbatim>\<open>NULL\<close>; \<^verbatim>\<open>with_page\<close> is the recurring \<^verbatim>\<open>if (pg)\<close> around an update of the structure.\<close>

definition pfn_to_page_struct :: "pmm \<Rightarrow> nat \<Rightarrow> nat option" where
  "pfn_to_page_struct s pfn =
     (if page_array s = None \<or> unat (page_array_count s) \<le> pfn then None else Some pfn)"

definition with_page :: "nat \<Rightarrow> (page \<Rightarrow> page) \<Rightarrow> pmm \<Rightarrow> pmm" where
  "with_page pfn f s = (case pfn_to_page_struct s pfn of None \<Rightarrow> s
     | Some i \<Rightarrow> s\<lparr>page_array := map_option (\<lambda>a. a[i := f (a ! i)]) (page_array s)\<rparr>)"

definition update_zone :: "nat \<Rightarrow> (pmm_zone \<Rightarrow> pmm_zone) \<Rightarrow> pmm \<Rightarrow> pmm" where
  "update_zone i f s = s\<lparr>zones := (zones s)[i := f (zones s ! i)]\<rparr>"

text \<open>The three metadata updates the operations share: a frame becomes free, is reserved for the
  kernel, or is handed out by an allocation.\<close>

definition dma_flag :: "bool \<Rightarrow> u32 \<Rightarrow> u32" where
  "dma_flag dma f = (if dma then f OR PAGE_FLAG_DMA else f AND NOT PAGE_FLAG_DMA)"

definition page_freed :: "bool \<Rightarrow> page \<Rightarrow> page" where
  "page_freed dma pg = pg\<lparr>refcount := 0,
     flags := dma_flag dma (flags pg AND
       NOT (PAGE_FLAG_RESERVED OR PAGE_FLAG_KERNEL OR PAGE_FLAG_USER OR PAGE_FLAG_SLAB)),
     owner := PAGE_OWNER_FREE\<rparr>"

definition page_taken :: "bool \<Rightarrow> u16 \<Rightarrow> page \<Rightarrow> page" where
  "page_taken dma own pg = pg\<lparr>refcount := 1,
     flags := dma_flag dma (flags pg OR (PAGE_FLAG_RESERVED OR PAGE_FLAG_KERNEL)),
     owner := own\<rparr>"

section \<open>Initialisation\<close>

text \<open>\<^verbatim>\<open>sizeof(initial_bitmap)\<close> in bytes, and the number of frames it describes.\<close>

definition bitmap_bytes :: u64 where
  "bitmap_bytes = of_nat (bitmap_words * 4)"

definition zone_boundaries :: "u64 \<Rightarrow> pmm_zone list \<Rightarrow> pmm_zone list" where
  "zone_boundaries npages zs =
     (if npages > 0x100000 then zs[2 := (zs ! 2)\<lparr>end_pfn := npages\<rparr>]
      else if npages > 0x1000 then
        zs[1 := (zs ! 1)\<lparr>end_pfn := npages\<rparr>, 2 := (zs ! 2)\<lparr>end_pfn := start_pfn (zs ! 2)\<rparr>]
      else zs[0 := (zs ! 0)\<lparr>end_pfn := npages\<rparr>, 1 := (zs ! 1)\<lparr>end_pfn := start_pfn (zs ! 1)\<rparr>,
        2 := (zs ! 2)\<lparr>end_pfn := start_pfn (zs ! 2)\<rparr>])"

definition pmm_init_bitmap :: "u64 \<Rightarrow> pmm \<Rightarrow> pmm" where
  "pmm_init_bitmap num_pages s =
     (let max_bitmap_pages = bitmap_bytes * 8;
          npages = (if num_pages > max_bitmap_pages then max_bitmap_pages else num_pages);
          zs = zone_boundaries npages (zones s)
      in s\<lparr>total_pages := npages,
           zones := map (\<lambda>z. z\<lparr>bitmap_size := bitmap_bytes, zone_total := end_pfn z - start_pfn z,
             zone_free := 0\<rparr>) zs,
           initial_bitmap := replicate bitmap_words (- 1),
           free_pages := 0, usable_pages := 0\<rparr>)"

section \<open>Regions\<close>

text \<open>The bodies of the two region loops, for one frame.\<close>

definition mark_pfn_free :: "nat \<Rightarrow> pmm \<Rightarrow> pmm" where
  "mark_pfn_free pfn s = (case pfn_to_zone s pfn of None \<Rightarrow> s
     | Some i \<Rightarrow>
         if pmm_bitmap_test (initial_bitmap s) pfn then
           with_page pfn (page_freed (i = 0))
             (update_zone i (\<lambda>z. z\<lparr>zone_free := zone_free z + 1\<rparr>)
               (s\<lparr>initial_bitmap := pmm_bitmap_clear (initial_bitmap s) pfn,
                  free_pages := free_pages s + 1, usable_pages := usable_pages s + 1\<rparr>))
         else s)"

definition pmm_mark_region_free :: "u64 \<Rightarrow> u64 \<Rightarrow> pmm \<Rightarrow> pmm" where
  "pmm_mark_region_free base sz s =
     (let start = phys_to_pfn (ALIGN_UP base PAGE_SIZE);
          fin = phys_to_pfn (ALIGN_DOWN (base + sz) PAGE_SIZE)
      in if fin \<le> start then s else fold mark_pfn_free [unat start..<unat fin] s)"

definition mark_pfn_used :: "nat \<Rightarrow> pmm \<Rightarrow> pmm" where
  "mark_pfn_used pfn s = (case pfn_to_zone s pfn of None \<Rightarrow> s
     | Some i \<Rightarrow>
         if \<not> pmm_bitmap_test (initial_bitmap s) pfn then
           with_page pfn (page_taken (i = 0) PAGE_OWNER_KERNEL)
             (update_zone i (\<lambda>z. if zone_free z > 0 then z\<lparr>zone_free := zone_free z - 1\<rparr> else z)
               (s\<lparr>initial_bitmap := pmm_bitmap_set (initial_bitmap s) pfn,
                  free_pages := (if free_pages s > 0 then free_pages s - 1 else free_pages s)\<rparr>))
         else s)"

definition pmm_mark_region_used :: "u64 \<Rightarrow> u64 \<Rightarrow> pmm \<Rightarrow> pmm" where
  "pmm_mark_region_used base sz s =
     (let start = phys_to_pfn (ALIGN_DOWN base PAGE_SIZE);
          fin = phys_to_pfn (ALIGN_UP (base + sz) PAGE_SIZE)
      in fold mark_pfn_used [unat start..<unat fin] s)"

section \<open>Allocation\<close>

definition alloc_owner :: "zone_type \<Rightarrow> u16" where
  "alloc_owner zt = (if zt = ZONE_DMA then PAGE_OWNER_DMA else PAGE_OWNER_KERNEL)"

definition pmm_alloc_page_zone :: "zone_type \<Rightarrow> pmm \<Rightarrow> pmm \<times> u64" where
  "pmm_alloc_page_zone zt s =
     (let i = zone_index zt; zone = zones s ! i
      in if zone_free zone = 0 then (s, 0)
         else case bitmap_find_free (initial_bitmap s) (unat (start_pfn zone)) (unat (end_pfn zone)) of
           None \<Rightarrow> (s, 0)
         | Some pfn \<Rightarrow>
             (with_page pfn (page_taken (zt = ZONE_DMA) (alloc_owner zt))
                (update_zone i (\<lambda>z. z\<lparr>zone_free := zone_free z - 1\<rparr>)
                  (s\<lparr>initial_bitmap := pmm_bitmap_set (initial_bitmap s) pfn,
                     free_pages := free_pages s - 1\<rparr>)),
              pfn_to_phys (of_nat pfn)))"

definition pmm_alloc_page :: "pmm \<Rightarrow> pmm \<times> u64" where
  "pmm_alloc_page s =
     (let (s, page) = pmm_alloc_page_zone ZONE_NORMAL s
      in if page \<noteq> 0 then (s, page)
         else let (s, page) = pmm_alloc_page_zone ZONE_HIGH s
           in if page \<noteq> 0 then (s, page) else pmm_alloc_page_zone ZONE_DMA s)"

definition take_pfn :: "zone_type \<Rightarrow> nat \<Rightarrow> pmm \<Rightarrow> pmm" where
  "take_pfn zt pfn s = with_page pfn (page_taken (zt = ZONE_DMA) (alloc_owner zt))
     (s\<lparr>initial_bitmap := pmm_bitmap_set (initial_bitmap s) pfn\<rparr>)"

definition pmm_alloc_pages_zone :: "u64 \<Rightarrow> zone_type \<Rightarrow> pmm \<Rightarrow> pmm \<times> u64" where
  "pmm_alloc_pages_zone count zt s =
     (let i = zone_index zt; zone = zones s ! i
      in if zone_free zone < count then (s, 0)
         else case bitmap_find_free_region (initial_bitmap s) (unat (start_pfn zone))
             (unat (end_pfn zone)) (unat count) of
           None \<Rightarrow> (s, 0)
         | Some start \<Rightarrow>
             (let s = fold (take_pfn zt) [start..<start + unat count] s
              in (update_zone i (\<lambda>z. z\<lparr>zone_free := zone_free z - count\<rparr>)
                    (s\<lparr>free_pages := free_pages s - count\<rparr>),
                  pfn_to_phys (of_nat start))))"

definition pmm_alloc_pages :: "u64 \<Rightarrow> pmm \<Rightarrow> pmm \<times> u64" where
  "pmm_alloc_pages count s =
     (let (s, pages) = pmm_alloc_pages_zone count ZONE_NORMAL s
      in if pages \<noteq> 0 then (s, pages)
         else let (s, pages) = pmm_alloc_pages_zone count ZONE_HIGH s
           in if pages \<noteq> 0 then (s, pages) else pmm_alloc_pages_zone count ZONE_DMA s)"

section \<open>Freeing\<close>

definition pmm_free_page :: "u64 \<Rightarrow> pmm \<Rightarrow> pmm" where
  "pmm_free_page phys s =
     (let pfn = unat (phys_to_pfn phys)
      in case pfn_to_zone s pfn of None \<Rightarrow> s
         | Some i \<Rightarrow>
             if \<not> pmm_bitmap_test (initial_bitmap s) pfn then s
             else with_page pfn (page_freed (i = 0))
               (update_zone i (\<lambda>z. z\<lparr>zone_free := zone_free z + 1\<rparr>)
                 (s\<lparr>initial_bitmap := pmm_bitmap_clear (initial_bitmap s) pfn,
                    free_pages := free_pages s + 1\<rparr>)))"

definition pmm_free_pages :: "u64 \<Rightarrow> u64 \<Rightarrow> pmm \<Rightarrow> pmm" where
  "pmm_free_pages phys count s =
     fold (\<lambda>i. pmm_free_page (phys + of_nat i * PAGE_SIZE)) [0..<unat count] s"

section \<open>Metadata and statistics\<close>

text \<open>\<^verbatim>\<open>sizeof(struct page)\<close>: two 32-bit and two 16-bit fields, padding, a list link and a pointer.\<close>

definition sizeof_page :: u64 where
  "sizeof_page = 40"

definition page_reset :: "pmm \<Rightarrow> nat \<Rightarrow> page" where
  "page_reset s pfn =
     (let zone = pfn_to_zone s pfn
      in \<lparr> flags = PAGE_FLAG_RESERVED OR (if zone = Some 0 then PAGE_FLAG_DMA else 0), refcount = 1,
           page_zone = (case zone of None \<Rightarrow> 1 | Some i \<Rightarrow> of_nat i), owner = PAGE_OWNER_KERNEL \<rparr>)"

text \<open>A panic is \<^const>\<open>None\<close>.\<close>

definition pmm_init_page_metadata :: "pmm \<Rightarrow> pmm option" where
  "pmm_init_page_metadata s =
     (if total_pages s = 0 then Some s
      else let meta_bytes = total_pages s * sizeof_page;
               meta_pages = ALIGN_UP meta_bytes PAGE_SIZE div PAGE_SIZE;
               (s, phys) = pmm_alloc_pages meta_pages s
        in if phys = 0 then None
           else let s = s\<lparr>page_array := Some (map (page_reset s) [0..<unat (total_pages s)]),
                          page_array_count := total_pages s, page_array_backing_phys := phys\<rparr>
             in Some (fold (\<lambda>i. with_page (unat (phys_to_pfn (phys + of_nat i * PAGE_SIZE)))
                  (\<lambda>pg. pg\<lparr>flags := flags pg OR PAGE_FLAG_KERNEL, owner := PAGE_OWNER_KERNEL,
                    refcount := 1\<rparr>)) [0..<unat meta_pages] s))"

definition pmm_get_total_pages :: "pmm \<Rightarrow> u64" where "pmm_get_total_pages s = total_pages s"
definition pmm_get_usable_pages :: "pmm \<Rightarrow> u64" where "pmm_get_usable_pages s = usable_pages s"
definition pmm_get_free_pages :: "pmm \<Rightarrow> u64" where "pmm_get_free_pages s = free_pages s"
definition pmm_get_used_pages :: "pmm \<Rightarrow> u64" where
  "pmm_get_used_pages s = total_pages s - free_pages s"

definition pmm_get_page_by_phys :: "u64 \<Rightarrow> pmm \<Rightarrow> page option" where
  "pmm_get_page_by_phys phys s =
     (case pfn_to_page_struct s (unat (phys_to_pfn phys)) of None \<Rightarrow> None
      | Some i \<Rightarrow> map_option (\<lambda>a. a ! i) (page_array s))"

definition pmm_page_set_owner :: "u64 \<Rightarrow> u16 \<Rightarrow> pmm \<Rightarrow> pmm" where
  "pmm_page_set_owner phys own = with_page (unat (phys_to_pfn phys)) (\<lambda>pg. pg\<lparr>owner := own\<rparr>)"

definition pmm_page_update_flags :: "u64 \<Rightarrow> u32 \<Rightarrow> u32 \<Rightarrow> pmm \<Rightarrow> pmm" where
  "pmm_page_update_flags phys set_flags clear_flags = with_page (unat (phys_to_pfn phys))
     (\<lambda>pg. pg\<lparr>flags := (flags pg OR set_flags) AND NOT clear_flags\<rparr>)"

definition pmm_page_ref_inc :: "u64 \<Rightarrow> pmm \<Rightarrow> pmm" where
  "pmm_page_ref_inc phys =
     with_page (unat (phys_to_pfn phys)) (\<lambda>pg. pg\<lparr>refcount := refcount pg + 1\<rparr>)"

definition pmm_page_ref_dec :: "u64 \<Rightarrow> pmm \<Rightarrow> pmm \<times> bool" where
  "pmm_page_ref_dec phys s = (case pmm_get_page_by_phys phys s of None \<Rightarrow> (s, False)
     | Some pg \<Rightarrow>
         if refcount pg = 0 then (s, False)
         else (with_page (unat (phys_to_pfn phys)) (\<lambda>pg. pg\<lparr>refcount := refcount pg - 1\<rparr>) s,
               refcount pg - 1 = 0))"

section \<open>The bitmap is a bit array\<close>

lemma pmm_bitmap_test_bit: "pmm_bitmap_test bm i = bit (bm ! (i div 32)) (i mod 32)"
  by (simp add: pmm_bitmap_test_def bit_iff_and_push_bit_not_eq_0)

lemma div_mod_32_eq: "i div 32 = j div 32 \<Longrightarrow> i mod 32 = j mod 32 \<longleftrightarrow> i = (j :: nat)"
  by (metis div_mult_mod_eq)

interpretation u32map: bit_array pmm_bitmap_test pmm_bitmap_set pmm_bitmap_clear
  "\<lambda>b. 32 * length b"
proof
  fix b :: "u32 list" and i j :: nat
  assume "i < 32 * length b"
  then have i: "i div 32 < length b" by (simp add: less_mult_imp_div_less mult.commute)
  show "pmm_bitmap_test (pmm_bitmap_set b i) j = (j = i \<or> pmm_bitmap_test b j)"
    using i by (cases "j div 32 = i div 32")
      (auto simp: pmm_bitmap_test_bit pmm_bitmap_set_def bit_simps div_mod_32_eq)
  show "pmm_bitmap_test (pmm_bitmap_clear b i) j = (j \<noteq> i \<and> pmm_bitmap_test b j)"
    using i by (cases "j div 32 = i div 32")
      (auto simp: pmm_bitmap_test_bit pmm_bitmap_clear_def bit_simps div_mod_32_eq)
qed (simp_all add: pmm_bitmap_set_def pmm_bitmap_clear_def)

lemmas pmm_bitmap_simps = u32map.test_setb u32map.test_clearb u32map.cap_setb u32map.cap_clearb

lemma length_pmm_bitmap [simp]:
  "length (pmm_bitmap_set b i) = length b" "length (pmm_bitmap_clear b i) = length b"
  by (simp_all add: pmm_bitmap_set_def pmm_bitmap_clear_def)

section \<open>Abstraction and invariant\<close>

text \<open>The frames of a zone, those that are free in it, and all free frames.\<close>

definition zone_frames :: "pmm_zone \<Rightarrow> nat set" where
  "zone_frames z = {unat (start_pfn z)..<unat (end_pfn z)}"

definition free_in :: "pmm \<Rightarrow> nat \<Rightarrow> nat set" where
  "free_in s i = {j \<in> zone_frames (zones s ! i). \<not> pmm_bitmap_test (initial_bitmap s) j}"

definition free_frames :: "pmm \<Rightarrow> nat set" where
  "free_frames s = (\<Union>i<3. free_in s i)"

definition pmm_inv :: "pmm \<Rightarrow> bool" where
  "pmm_inv s \<longleftrightarrow> length (zones s) = 3 \<and> length (initial_bitmap s) = bitmap_words \<and>
     (\<forall>i<3. zone_frames (zones s ! i) \<subseteq> {..<32 * bitmap_words}) \<and>
     (\<forall>i<3. \<forall>k<3. i \<noteq> k \<longrightarrow> zone_frames (zones s ! i) \<inter> zone_frames (zones s ! k) = {}) \<and>
     (\<forall>i<3. unat (zone_free (zones s ! i)) = card (free_in s i)) \<and>
     unat (free_pages s) = (\<Sum>i<3. card (free_in s i)) \<and>
     (\<forall>a. page_array s = Some a \<longrightarrow> length a = unat (page_array_count s))"

lemma bitmap_words_32: "32 * bitmap_words = 0x100000"
  by (simp add: bitmap_words_def)

lemma finite_zone_frames [simp]: "finite (zone_frames z)"
  by (simp add: zone_frames_def)

lemma finite_free_in [simp]: "finite (free_in s i)"
  by (simp add: free_in_def)

lemma pfn_to_zone_Some:
  assumes "pmm_inv s"
  shows "pfn_to_zone s pfn = Some i \<longleftrightarrow> i < 3 \<and> pfn \<in> zone_frames (zones s ! i)"
proof -
  have "pfn_to_zone s pfn = find (\<lambda>i. pfn \<in> zone_frames (zones s ! i)) [0..<3]"
    by (simp add: pfn_to_zone_def zone_frames_def)
  moreover have "pfn \<notin> zone_frames (zones s ! k)"
    if "pfn \<in> zone_frames (zones s ! i)" "i < 3" "k < i" for i k
    using assms that unfolding pmm_inv_def by (metis disjoint_iff less_trans less_irrefl_nat)
  ultimately show ?thesis by (force simp: find_Some_iff)
qed

lemma free_in_bound:
  assumes "pmm_inv s" and "i < 3"
  shows "free_in s i \<subseteq> {..<0x100000}" and "card (free_in s i) \<le> 0x100000"
proof -
  show *: "free_in s i \<subseteq> {..<0x100000}"
    using assms by (auto simp: pmm_inv_def free_in_def bitmap_words_32 subset_iff)
  show "card (free_in s i) \<le> 0x100000"
    using card_mono [OF _ *] by simp
qed

text \<open>Updates of the metadata leave the abstraction alone.\<close>

lemma with_page_simps [simp]:
  "zones (with_page pfn f s) = zones s" "initial_bitmap (with_page pfn f s) = initial_bitmap s"
  "free_pages (with_page pfn f s) = free_pages s" "total_pages (with_page pfn f s) = total_pages s"
  "usable_pages (with_page pfn f s) = usable_pages s"
  "page_array_count (with_page pfn f s) = page_array_count s"
  by (simp_all add: with_page_def split: option.splits)

lemma length_page_array:
  "(\<forall>a. page_array (with_page pfn f s) = Some a \<longrightarrow> length a = n) \<longleftrightarrow>
   (\<forall>a. page_array s = Some a \<longrightarrow> length a = n)"
  by (cases "page_array s") (auto simp: with_page_def split: option.splits)

lemma free_in_with_page [simp]: "free_in (with_page pfn f s) i = free_in s i"
  by (simp add: free_in_def)

lemma pmm_inv_with_page [simp]: "pmm_inv (with_page pfn f s) = pmm_inv s"
  by (simp add: pmm_inv_def length_page_array)

lemma free_frames_with_page [simp]: "free_frames (with_page pfn f s) = free_frames s"
  by (simp add: free_frames_def)

text \<open>An operation that changes the free frames of one zone and adjusts both counters to match
  keeps the invariant.\<close>

lemma pmm_inv_change:
  assumes inv: "pmm_inv s" and i: "i < 3"
    and z: "zones s' = (zones s)[i := (zones s ! i)\<lparr>zone_free := v\<rparr>]"
    and bm: "length (initial_bitmap s') = length (initial_bitmap s)"
    and other: "\<And>k. k < 3 \<Longrightarrow> k \<noteq> i \<Longrightarrow> free_in s' k = free_in s k"
    and v: "unat v = card (free_in s' i)"
    and fp: "unat (free_pages s') + card (free_in s i) = unat (free_pages s) + card (free_in s' i)"
    and pa: "\<forall>a. page_array s' = Some a \<longrightarrow> length a = unat (page_array_count s')"
  shows "pmm_inv s'"
proof -
  have len: "length (zones s) = 3" using inv by (simp add: pmm_inv_def)
  have zf: "zone_frames (zones s' ! k) = zone_frames (zones s ! k)" if "k < 3" for k
    using that len i by (auto simp: z nth_list_update zone_frames_def)
  have "(\<Sum>k<3. card (free_in s' k)) + card (free_in s i) = (\<Sum>k<3. card (free_in s k)) + card (free_in s' i)"
    using i other by (simp add: sum.remove [of _ i])
  then have "unat (free_pages s') = (\<Sum>k<3. card (free_in s' k))"
    using fp inv by (simp add: pmm_inv_def)
  moreover have "unat (zone_free (zones s' ! k)) = card (free_in s' k)" if "k < 3" for k
    using that len i inv v other by (cases "k = i") (auto simp: z pmm_inv_def)
  ultimately show ?thesis
    using inv zf bm pa z unfolding pmm_inv_def by simp
qed

text \<open>Taking frames from a zone and putting one back.\<close>

lemma free_in_disjoint:
  assumes "pmm_inv s" and "i < 3" and "k < 3" and "k \<noteq> i" and "X \<subseteq> zone_frames (zones s ! i)"
  shows "free_in s k \<inter> X = {}"
  using assms unfolding pmm_inv_def free_in_def by fast

lemma free_in_update:
  assumes "length (zones s) = 3" and "i < 3" and "k < 3"
    and "zones s' = (zones s)[i := (zones s ! i)\<lparr>zone_free := v\<rparr>]"
  shows "free_in s' k = {j \<in> zone_frames (zones s ! k). \<not> pmm_bitmap_test (initial_bitmap s') j}"
  using assms by (auto simp: free_in_def nth_list_update zone_frames_def)

lemma take_frames:
  assumes inv: "pmm_inv s" and i: "i < 3" and X: "X \<subseteq> free_in s i" and n: "unat n = card X"
    and z: "zones s' = (zones s)[i := (zones s ! i)\<lparr>zone_free := zone_free (zones s ! i) - n\<rparr>]"
    and bm: "length (initial_bitmap s') = length (initial_bitmap s)"
    and test: "\<And>j. pmm_bitmap_test (initial_bitmap s') j \<longleftrightarrow> j \<in> X \<or> pmm_bitmap_test (initial_bitmap s) j"
    and fp: "free_pages s' = free_pages s - n"
    and pa: "\<forall>a. page_array s' = Some a \<longrightarrow> length a = unat (page_array_count s')"
  shows "pmm_inv s' \<and> free_frames s' = free_frames s - X"
proof -
  have len: "length (zones s) = 3" using inv by (simp add: pmm_inv_def)
  have Xz: "X \<subseteq> zone_frames (zones s ! i)" using X by (auto simp: free_in_def)
  have fi: "free_in s' k = free_in s k - X" if "k < 3" for k
    by (auto simp: free_in_update [OF len i that z] test free_in_def [of s])
  have other: "free_in s' k = free_in s k" if "k < 3" "k \<noteq> i" for k
    using fi [OF that(1)] free_in_disjoint [OF inv i that Xz] by blast
  have le: "card X \<le> card (free_in s i)" using X by (simp add: card_mono)
  have zf: "unat (zone_free (zones s ! i)) = card (free_in s i)" using inv i by (simp add: pmm_inv_def)
  have c: "card (free_in s' i) = card (free_in s i) - card X"
    using X by (simp add: fi [OF i] card_Diff_subset finite_subset)
  have tot: "card (free_in s i) \<le> unat (free_pages s)"
    using inv i by (simp add: pmm_inv_def sum.remove [of _ i])
  have "pmm_inv s'"
  proof (rule pmm_inv_change [OF inv i z bm other _ _ pa])
    show "unat (zone_free (zones s ! i) - n) = card (free_in s' i)"
      using le n zf c by (simp add: unat_sub word_le_nat_alt)
    show "unat (free_pages s') + card (free_in s i) = unat (free_pages s) + card (free_in s' i)"
      using le n c tot by (simp add: fp unat_sub word_le_nat_alt)
  qed
  moreover have "free_frames s' = free_frames s - X"
    by (auto simp: free_frames_def fi)
  ultimately show ?thesis ..
qed

lemma put_frame:
  assumes inv: "pmm_inv s" and i: "i < 3" and p: "pfn \<in> zone_frames (zones s ! i)"
    and used: "pmm_bitmap_test (initial_bitmap s) pfn"
    and z: "zones s' = (zones s)[i := (zones s ! i)\<lparr>zone_free := zone_free (zones s ! i) + 1\<rparr>]"
    and bm: "initial_bitmap s' = pmm_bitmap_clear (initial_bitmap s) pfn"
    and fp: "free_pages s' = free_pages s + 1"
    and pa: "\<forall>a. page_array s' = Some a \<longrightarrow> length a = unat (page_array_count s')"
  shows "pmm_inv s' \<and> free_frames s' = insert pfn (free_frames s)"
proof -
  have len: "length (zones s) = 3" using inv by (simp add: pmm_inv_def)
  have cap: "pfn < 32 * length (initial_bitmap s)" using inv i p by (auto simp: pmm_inv_def)
  have fi: "free_in s' k = free_in s k \<union> ({pfn} \<inter> zone_frames (zones s ! k))" if "k < 3" for k
    using cap by (auto simp: free_in_update [OF len i that z] free_in_def [of s] bm pmm_bitmap_simps)
  have "pfn \<notin> zone_frames (zones s ! k)" if "k < 3" "k \<noteq> i" for k
    using inv i that p unfolding pmm_inv_def by blast
  then have other: "free_in s' k = free_in s k" if "k < 3" "k \<noteq> i" for k
    using fi [OF that(1)] that by auto
  have fi': "free_in s' i = insert pfn (free_in s i)" using fi [OF i] p by auto
  have "pfn \<notin> free_in s i" using used by (simp add: free_in_def)
  then have c: "card (free_in s' i) = Suc (card (free_in s i))" by (simp add: fi')
  have zf: "unat (zone_free (zones s ! i)) = card (free_in s i)" using inv i by (simp add: pmm_inv_def)
  have "(\<Sum>k<3. card (free_in s k)) \<le> (\<Sum>k\<in>{..<3 :: nat}. 0x100000)"
    using free_in_bound [OF inv] by (intro sum_mono) auto
  then have tot: "unat (free_pages s) \<le> 0x300000" using inv by (simp add: pmm_inv_def)
  have "pmm_inv s'"
  proof (rule pmm_inv_change [OF inv i z _ other _ _ pa])
    show "unat (zone_free (zones s ! i) + 1) = card (free_in s' i)"
      using zf c free_in_bound(2) [OF inv i] by simp
    show "unat (free_pages s') + card (free_in s i) = unat (free_pages s) + card (free_in s' i)"
      using c tot by (simp add: fp)
  qed (simp add: bm)
  moreover have "free_frames s' = insert pfn (free_frames s)"
    using p i by (auto simp: free_frames_def fi)
  ultimately show ?thesis ..
qed

section \<open>Searches\<close>

lemma bitmap_find_free_least:
  "case bitmap_find_free bm lo fin of
     None \<Rightarrow> \<forall>j. lo \<le> j \<and> j < fin \<longrightarrow> pmm_bitmap_test bm j
   | Some p \<Rightarrow> lo \<le> p \<and> p < fin \<and> \<not> pmm_bitmap_test bm p \<and>
       (\<forall>j. lo \<le> j \<and> j < p \<longrightarrow> pmm_bitmap_test bm j)"
proof (induction bm lo fin rule: bitmap_find_free.induct)
  case (1 bm i fin)
  then show ?case
    by (subst (1) bitmap_find_free.simps)
      (auto split: option.splits simp: le_eq_less_or_eq [of i] Suc_le_eq)
qed

definition run_clear :: "u32 list \<Rightarrow> nat \<Rightarrow> nat \<Rightarrow> bool" where
  "run_clear bm p n \<longleftrightarrow> (\<forall>j. p \<le> j \<and> j < p + n \<longrightarrow> \<not> pmm_bitmap_test bm j)"

definition first_fit :: "u32 list \<Rightarrow> nat \<Rightarrow> nat \<Rightarrow> nat \<Rightarrow> nat option \<Rightarrow> bool" where
  "first_fit bm lo fin n r = (case r of
     None \<Rightarrow> \<forall>q. lo \<le> q \<and> q + n \<le> fin \<longrightarrow> \<not> run_clear bm q n
   | Some p \<Rightarrow> lo \<le> p \<and> p + n \<le> fin \<and> run_clear bm p n \<and>
       (\<forall>q. lo \<le> q \<and> q < p \<longrightarrow> \<not> run_clear bm q n))"

text \<open>The loop has seen the clear run of length \<^verbatim>\<open>fc\<close> that ends before \<^verbatim>\<open>i\<close>, and no run of the
  wanted length starts before that one.\<close>

lemma find_free_region_from_first_fit:
  assumes "fc < n" and "lo + fc \<le> i" and "fc \<noteq> 0 \<Longrightarrow> fs = i - fc" and "run_clear bm (i - fc) fc"
    and "\<And>q. lo \<le> q \<Longrightarrow> q < i - fc \<Longrightarrow> \<not> run_clear bm q n"
  shows "first_fit bm lo fin n (find_free_region_from bm i fin n fs fc)"
  using assms
proof (induction bm i fin n fs fc rule: find_free_region_from.induct)
  case (1 bm i fin n fs fc)
  let ?fs = "if fc = 0 then i else fs"
  note step = find_free_region_from.simps [of bm i fin n fs fc]
  have fs: "?fs = i - fc" using "1.prems" by auto
  consider (out) "fin \<le> i" | (used) "i < fin" "pmm_bitmap_test bm i"
    | (clear) "i < fin" "\<not> pmm_bitmap_test bm i" by linarith
  then show ?case
  proof cases
    case out
    have "q < i - fc" if "q + n \<le> fin" for q using that out "1.prems"(1) by linarith
    then show ?thesis using out "1.prems"(5) by (auto simp: step first_fit_def)
  next
    case used
    have "\<not> run_clear bm q n" if "lo \<le> q" "q < i + 1" for q
    proof (cases "q < i - fc")
      case False
      then have "q \<le> i \<and> i < q + n" using that "1.prems"(1) by auto
      then show ?thesis using used by (auto simp: run_clear_def)
    qed (use that "1.prems"(5) in blast)
    moreover have "first_fit bm lo fin n (find_free_region_from bm (i + 1) fin n fs 0)"
      using used "1.prems" calculation by (intro "1.IH"(2)) (auto simp: run_clear_def)
    ultimately show ?thesis using used by (simp add: step)
  next
    case clear
    have run: "run_clear bm (i - fc) (fc + 1)"
      using "1.prems"(2,4) clear by (auto simp: run_clear_def less_Suc_eq)
    show ?thesis
    proof (cases "fc + 1 = n")
      case True
      then show ?thesis
        using clear run fs "1.prems"(2,5) by (auto simp: step first_fit_def)
    next
      case False
      have "first_fit bm lo fin n (find_free_region_from bm (i + 1) fin n ?fs (fc + 1))"
        using clear False run fs "1.prems" by (intro "1.IH"(1)) auto
      then show ?thesis using clear False by (simp add: step Let_def)
    qed
  qed
qed

lemma bitmap_find_free_region_first_fit:
  "0 < n \<Longrightarrow> first_fit bm lo fin n (bitmap_find_free_region bm lo fin n)"
  unfolding bitmap_find_free_region_def
  by (rule find_free_region_from_first_fit) (auto simp: run_clear_def)

lemma find_free_region_from_zero: "find_free_region_from bm i fin 0 fs fc = None"
proof (induction "fin - i" arbitrary: i fs fc)
  case 0
  then show ?case by (subst find_free_region_from.simps) simp
next
  case (Suc d)
  then show ?case by (subst find_free_region_from.simps) (simp add: Let_def)
qed

section \<open>Effect of the operations on the free frames\<close>

definition managed :: "pmm \<Rightarrow> nat set" where
  "managed s = (\<Union>i<3. zone_frames (zones s ! i))"

lemma managed_update:
  assumes "pmm_inv s" and "i < 3"
    and "zones s' = (zones s)[i := (zones s ! i)\<lparr>zone_free := v\<rparr>]"
  shows "managed s' = managed s"
proof -
  have "zone_frames (zones s' ! k) = zone_frames (zones s ! k)" if "k < 3" for k
    using assms that by (auto simp: pmm_inv_def nth_list_update zone_frames_def)
  then show ?thesis by (simp add: managed_def)
qed

lemma managed_with_page [simp]: "managed (with_page pfn f s) = managed s"
  by (simp add: managed_def)

lemma pfn_to_zone_None:
  assumes "pmm_inv s"
  shows "pfn_to_zone s pfn = None \<longleftrightarrow> pfn \<notin> managed s"
proof -
  have "(\<exists>i. pfn_to_zone s pfn = Some i) \<longleftrightarrow> pfn \<in> managed s"
    by (auto simp: pfn_to_zone_Some [OF assms] managed_def)
  then show ?thesis by (cases "pfn_to_zone s pfn") auto
qed

lemma free_frames_alt: "free_frames s = {j \<in> managed s. \<not> pmm_bitmap_test (initial_bitmap s) j}"
  by (auto simp: free_frames_def managed_def free_in_def)

lemma free_frames_managed: "free_frames s \<subseteq> managed s"
  by (auto simp: free_frames_alt)

lemma card_free_frames:
  assumes "pmm_inv s" shows "unat (free_pages s) = card (free_frames s)"
proof -
  have "card (free_frames s) = (\<Sum>i<3. card (free_in s i))"
    unfolding free_frames_def
  proof (rule card_UN_disjoint)
    have "free_in s i \<subseteq> zone_frames (zones s ! i)" for i by (auto simp: free_in_def)
    then show "\<forall>i\<in>{..<3}. \<forall>j\<in>{..<3}. i \<noteq> j \<longrightarrow> free_in s i \<inter> free_in s j = {}"
      using free_in_disjoint [OF assms] by simp
  qed simp_all
  then show ?thesis using assms by (simp add: pmm_inv_def)
qed

lemma page_array_inv: "pmm_inv s \<Longrightarrow> \<forall>a. page_array s = Some a \<longrightarrow> length a = unat (page_array_count s)"
  by (simp add: pmm_inv_def)

lemma mark_pfn_free_effect:
  assumes inv: "pmm_inv s"
  shows "pmm_inv (mark_pfn_free pfn s) \<and> managed (mark_pfn_free pfn s) = managed s \<and>
    free_frames (mark_pfn_free pfn s) = free_frames s \<union> ({pfn} \<inter> managed s)"
proof (cases "pfn_to_zone s pfn")
  case None
  then have "pfn \<notin> managed s" using pfn_to_zone_None [OF inv] by simp
  then show ?thesis using None by (simp add: mark_pfn_free_def inv)
next
  case (Some i)
  then have i: "i < 3" "pfn \<in> zone_frames (zones s ! i)" using pfn_to_zone_Some [OF inv] by auto
  then have m: "pfn \<in> managed s" by (auto simp: managed_def)
  show ?thesis
  proof (cases "pmm_bitmap_test (initial_bitmap s) pfn")
    case True
    let ?s = "update_zone i (\<lambda>z. z\<lparr>zone_free := zone_free z + 1\<rparr>)
      (s\<lparr>initial_bitmap := pmm_bitmap_clear (initial_bitmap s) pfn,
         free_pages := free_pages s + 1, usable_pages := usable_pages s + 1\<rparr>)"
    have "pmm_inv ?s \<and> free_frames ?s = insert pfn (free_frames s)"
      using page_array_inv [OF inv] by (intro put_frame [OF inv i True]) (simp_all add: update_zone_def)
    moreover have "managed ?s = managed s"
      by (rule managed_update [OF inv i(1)]) (simp add: update_zone_def)
    moreover have "mark_pfn_free pfn s = with_page pfn (page_freed (i = 0)) ?s"
      using Some True by (simp add: mark_pfn_free_def)
    ultimately show ?thesis using m by simp
  next
    case False
    then show ?thesis using Some m by (auto simp: mark_pfn_free_def inv free_frames_alt)
  qed
qed

text \<open>Freeing a page is marking its frame free, except for the count of usable pages.\<close>

lemma usable_pages_irrelevant [simp]:
  "pmm_inv (s\<lparr>usable_pages := u\<rparr>) = pmm_inv s" "managed (s\<lparr>usable_pages := u\<rparr>) = managed s"
  "free_frames (s\<lparr>usable_pages := u\<rparr>) = free_frames s"
  by (simp_all add: pmm_inv_def managed_def free_frames_alt free_in_def)

lemma pmm_free_page_mark:
  "pmm_free_page phys s =
     (mark_pfn_free (unat (phys_to_pfn phys)) s)\<lparr>usable_pages := usable_pages s\<rparr>"
  by (simp add: pmm_free_page_def mark_pfn_free_def Let_def update_zone_def with_page_def
      pfn_to_page_struct_def split: option.splits)

lemma pmm_free_page_effect:
  assumes "pmm_inv s"
  shows "pmm_inv (pmm_free_page phys s) \<and> managed (pmm_free_page phys s) = managed s \<and>
    free_frames (pmm_free_page phys s) = free_frames s \<union> ({unat (phys_to_pfn phys)} \<inter> managed s)"
  using mark_pfn_free_effect [OF assms] by (simp add: pmm_free_page_mark)

text \<open>A frame in the zone's free set makes the counters positive.\<close>

lemma free_counters:
  assumes inv: "pmm_inv s" and i: "i < 3"
  shows "unat (zone_free (zones s ! i)) = card (free_in s i)"
    and "card (free_in s i) \<le> unat (free_pages s)"
  using inv i by (simp_all add: pmm_inv_def sum.remove [of _ i])

lemma mark_pfn_used_effect:
  assumes inv: "pmm_inv s"
  shows "pmm_inv (mark_pfn_used pfn s) \<and> managed (mark_pfn_used pfn s) = managed s \<and>
    free_frames (mark_pfn_used pfn s) = free_frames s - {pfn}"
proof (cases "pfn \<in> free_frames s")
  case False
  then have "mark_pfn_used pfn s = s"
    using pfn_to_zone_None [OF inv, of pfn]
    by (cases "pfn_to_zone s pfn") (auto simp: mark_pfn_used_def free_frames_alt)
  then show ?thesis using False inv by simp
next
  case True
  then obtain i where i: "i < 3" "pfn \<in> free_in s i" by (auto simp: free_frames_def)
  have z: "pfn_to_zone s pfn = Some i" using i pfn_to_zone_Some [OF inv] by (simp add: free_in_def)
  have cap: "pfn < 32 * length (initial_bitmap s)"
    using free_in_bound(1) [OF inv i(1)] i inv by (auto simp: pmm_inv_def bitmap_words_32)
  have "0 < card (free_in s i)" using i by (auto simp: card_gt_0_iff)
  then have "unat (zone_free (zones s ! i)) \<noteq> 0" "unat (free_pages s) \<noteq> 0"
    using free_counters [OF inv i(1)] by linarith+
  then have pos: "0 < zone_free (zones s ! i)" "0 < free_pages s"
    by (auto simp: word_greater_zero_iff)
  let ?s = "update_zone i (\<lambda>z. z\<lparr>zone_free := zone_free z - 1\<rparr>)
    (s\<lparr>initial_bitmap := pmm_bitmap_set (initial_bitmap s) pfn, free_pages := free_pages s - 1\<rparr>)"
  have "pmm_inv ?s \<and> free_frames ?s = free_frames s - {pfn}"
    using i cap page_array_inv [OF inv]
    by (intro take_frames [OF inv i(1), of _ 1]) (auto simp: update_zone_def pmm_bitmap_simps)
  moreover have "managed ?s = managed s"
    by (rule managed_update [OF inv i(1)]) (simp add: update_zone_def)
  moreover have "mark_pfn_used pfn s = with_page pfn (page_taken (i = 0) PAGE_OWNER_KERNEL) ?s"
    using z i pos by (simp add: mark_pfn_used_def free_in_def update_zone_def)
  ultimately show ?thesis by simp
qed

text \<open>Frame numbers and addresses.\<close>

lemma phys_to_pfn_of_pfn: "p < 2 ^ 52 \<Longrightarrow> unat (phys_to_pfn (pfn_to_phys (of_nat p))) = p"
proof -
  assume p: "p < 2 ^ 52"
  have "unat (push_bit 12 (of_nat p :: u64)) = p * 2 ^ 12"
    using p by (simp add: push_bit_eq_mult unat_word_ariths)
  then show ?thesis
    by (simp add: phys_to_pfn_def pfn_to_phys_def PAGE_SHIFT_def drop_bit_eq_div unat_div_distrib)
qed

lemma pfn_to_phys_zero: "p < 2 ^ 52 \<Longrightarrow> pfn_to_phys (of_nat p) = 0 \<longleftrightarrow> p = 0"
  using phys_to_pfn_of_pfn [of p] phys_to_pfn_of_pfn [of 0] by (auto simp: pfn_to_phys_def)

text \<open>A zone has a run of \<^verbatim>\<open>n\<close> free frames; an allocation took the run that starts at \<^verbatim>\<open>p\<close>.\<close>

definition has_run :: "pmm \<Rightarrow> nat \<Rightarrow> nat \<Rightarrow> bool" where
  "has_run s i n \<longleftrightarrow> (\<exists>p. {p..<p + n} \<subseteq> free_in s i)"

definition took_run :: "pmm \<Rightarrow> nat \<Rightarrow> nat \<Rightarrow> pmm \<Rightarrow> nat \<Rightarrow> bool" where
  "took_run s i n s' p \<longleftrightarrow> {p..<p + n} \<subseteq> free_in s i \<and> (\<forall>q<p. \<not> {q..<q + n} \<subseteq> free_in s i) \<and>
     pmm_inv s' \<and> managed s' = managed s \<and> free_frames s' = free_frames s - {p..<p + n}"

lemma free_in_run:
  "0 < n \<Longrightarrow> {p..<p + n} \<subseteq> free_in s i \<longleftrightarrow>
     unat (start_pfn (zones s ! i)) \<le> p \<and> p + n \<le> unat (end_pfn (zones s ! i)) \<and>
     run_clear (initial_bitmap s) p n"
proof -
  assume n: "0 < n"
  have "{p..<p + n} \<subseteq> zone_frames (zones s ! i) \<longleftrightarrow>
      unat (start_pfn (zones s ! i)) \<le> p \<and> p + n \<le> unat (end_pfn (zones s ! i))"
    using n by (auto simp: zone_frames_def)
  moreover have "{p..<p + n} \<subseteq> free_in s i \<longleftrightarrow>
      {p..<p + n} \<subseteq> zone_frames (zones s ! i) \<and> run_clear (initial_bitmap s) p n"
    by (auto simp: free_in_def run_clear_def)
  ultimately show ?thesis by blast
qed

lemma zone_index_less [simp]: "zone_index zt < 3"
  by (cases zt) simp_all

text \<open>Marking a run in the loop of \<^verbatim>\<open>pmm_alloc_pages_zone\<close>.\<close>

lemma fold_take_pfn:
  "zones (fold (take_pfn zt) xs s) = zones s"
  "free_pages (fold (take_pfn zt) xs s) = free_pages s"
  "page_array_count (fold (take_pfn zt) xs s) = page_array_count s"
  "initial_bitmap (fold (take_pfn zt) xs s) = fold (\<lambda>i b. pmm_bitmap_set b i) xs (initial_bitmap s)"
  "(\<forall>a. page_array (fold (take_pfn zt) xs s) = Some a \<longrightarrow> length a = n) \<longleftrightarrow>
   (\<forall>a. page_array s = Some a \<longrightarrow> length a = n)"
  by (induction xs arbitrary: s) (simp_all add: take_pfn_def length_page_array)

lemma take_run:
  fixes zt :: zone_type
  assumes inv: "pmm_inv s" and i: "i < 3" and run: "{p..<p + unat n} \<subseteq> free_in s i"
  defines "t \<equiv> fold (take_pfn zt) [p..<p + unat n] s"
  defines "u \<equiv> update_zone i (\<lambda>z. z\<lparr>zone_free := zone_free z - n\<rparr>) (t\<lparr>free_pages := free_pages t - n\<rparr>)"
  shows "pmm_inv u \<and> managed u = managed s \<and> free_frames u = free_frames s - {p..<p + unat n}"
proof -
  have cap: "{p..<p + unat n} \<subseteq> {..<32 * length (initial_bitmap s)}"
    using run free_in_bound(1) [OF inv i] inv by (auto simp: pmm_inv_def bitmap_words_32)
  have "pmm_inv u \<and> free_frames u = free_frames s - {p..<p + unat n}"
  proof (rule take_frames [OF inv i run, of n])
    show "pmm_bitmap_test (initial_bitmap u) j \<longleftrightarrow>
        j \<in> {p..<p + unat n} \<or> pmm_bitmap_test (initial_bitmap s) j" for j
      using u32map.test_fold_setb [of "[p..<p + unat n]" "initial_bitmap s"] cap
      by (simp add: u_def t_def update_zone_def fold_take_pfn)
    show "length (initial_bitmap u) = length (initial_bitmap s)"
      using u32map.cap_fold_setb [of "[p..<p + unat n]" "initial_bitmap s"]
      by (simp add: u_def t_def update_zone_def fold_take_pfn)
  qed (use page_array_inv [OF inv] in \<open>simp_all add: u_def t_def update_zone_def fold_take_pfn\<close>)
  moreover have "managed u = managed s"
    by (rule managed_update [OF inv i]) (simp add: u_def t_def update_zone_def fold_take_pfn)
  ultimately show ?thesis by simp
qed

lemma no_run_counter:
  assumes inv: "pmm_inv s" and i: "i < 3" and "zone_free (zones s ! i) < n"
  shows "\<not> has_run s i (unat n)"
proof
  assume "has_run s i (unat n)"
  then obtain p where "{p..<p + unat n} \<subseteq> free_in s i" by (auto simp: has_run_def)
  then have "unat n \<le> card (free_in s i)" using card_mono [of "free_in s i" "{p..<p + unat n}"] by simp
  then show False using assms(3) free_counters(1) [OF inv i] by (simp add: word_less_nat_alt)
qed

lemma pmm_alloc_pages_zone_effect:
  assumes inv: "pmm_inv s" and n: "n \<noteq> 0"
    and a: "pmm_alloc_pages_zone n zt s = (s', r)"
  shows "(s' = s \<and> r = 0 \<and> \<not> has_run s (zone_index zt) (unat n)) \<or>
    (\<exists>p. took_run s (zone_index zt) (unat n) s' p \<and> r = pfn_to_phys (of_nat p))"
proof -
  let ?i = "zone_index zt"
  let ?z = "zones s ! ?i"
  let ?r = "bitmap_find_free_region (initial_bitmap s) (unat (start_pfn ?z)) (unat (end_pfn ?z)) (unat n)"
  have n0: "0 < unat n" using n by (simp add: unat_gt_0)
  have ff: "first_fit (initial_bitmap s) (unat (start_pfn ?z)) (unat (end_pfn ?z)) (unat n) ?r"
    by (rule bitmap_find_free_region_first_fit [OF n0])
  consider (few) "zone_free ?z < n" | (none) "\<not> zone_free ?z < n" "?r = None"
    | (some) p where "\<not> zone_free ?z < n" "?r = Some p" by fastforce
  then show ?thesis
  proof cases
    case few
    then show ?thesis
      using a no_run_counter [OF inv _ few] by (simp add: pmm_alloc_pages_zone_def Let_def)
  next
    case none
    then have "\<not> has_run s ?i (unat n)"
      using ff by (auto simp: has_run_def first_fit_def free_in_run [OF n0])
    then show ?thesis using a none by (simp add: pmm_alloc_pages_zone_def Let_def)
  next
    case some
    have run: "{p..<p + unat n} \<subseteq> free_in s ?i" "\<forall>q<p. \<not> {q..<q + unat n} \<subseteq> free_in s ?i"
      using ff some by (auto simp: first_fit_def free_in_run [OF n0])
    then show ?thesis
      using a some take_run [OF inv _ run(1), where zt = zt]
      by (auto simp: pmm_alloc_pages_zone_def Let_def took_run_def)
  qed
qed

text \<open>A single page is a run of length one.\<close>

lemma find_free_region_one: "find_free_region_from bm i fin (Suc 0) fs 0 = bitmap_find_free bm i fin"
proof (induction bm i fin arbitrary: fs rule: bitmap_find_free.induct)
  case (1 bm i fin)
  then show ?case
    by (subst find_free_region_from.simps, subst bitmap_find_free.simps) (simp add: Let_def)
qed

lemma with_page_commute:
  "with_page pfn f (update_zone i g (s\<lparr>initial_bitmap := b, free_pages := c\<rparr>)) =
   update_zone i g ((with_page pfn f (s\<lparr>initial_bitmap := b\<rparr>))\<lparr>free_pages := c\<rparr>)"
  by (simp add: with_page_def pfn_to_page_struct_def update_zone_def)

lemma pmm_alloc_page_zone_one: "pmm_alloc_page_zone zt s = pmm_alloc_pages_zone 1 zt s"
proof -
  have "zone_free z < 1 \<longleftrightarrow> zone_free z = 0" for z :: pmm_zone
    by (simp add: word_less_nat_alt unat_eq_zero)
  then show ?thesis
    by (simp add: pmm_alloc_page_zone_def pmm_alloc_pages_zone_def bitmap_find_free_region_def
        find_free_region_one take_pfn_def with_page_commute Let_def split: option.splits)
qed

lemma pmm_alloc_page_one: "pmm_alloc_page s = pmm_alloc_pages 1 s"
  unfolding pmm_alloc_page_def pmm_alloc_pages_def pmm_alloc_page_zone_one ..

lemma pmm_alloc_pages_zero: "pmm_alloc_pages 0 s = (s, 0)"
  by (simp add: pmm_alloc_pages_def pmm_alloc_pages_zone_def bitmap_find_free_region_def
      find_free_region_from_zero Let_def)

lemma took_run_nonzero:
  assumes "pmm_inv s" and "n \<noteq> 0" and "0 \<notin> free_frames s" and "took_run s (zone_index zt) n s' p"
  shows "pfn_to_phys (of_nat p) \<noteq> 0" and "p < 0x100000"
proof -
  have p: "p \<in> free_in s (zone_index zt)" using assms by (auto simp: took_run_def)
  then show "p < 0x100000" using free_in_bound(1) [OF assms(1), of "zone_index zt"] by auto
  moreover have "p \<in> free_frames s"
    using p unfolding free_frames_def by (intro UN_I [of "zone_index zt"]) simp_all
  then have "p \<noteq> 0" using assms(3) by metis
  ultimately show "pfn_to_phys (of_nat p) \<noteq> 0" by (simp add: pfn_to_phys_zero)
qed

lemma pmm_alloc_pages_effect:
  assumes inv: "pmm_inv s" and n: "n \<noteq> 0" and z: "0 \<notin> free_frames s"
    and a: "pmm_alloc_pages n s = (s', r)"
  shows "(s' = s \<and> r = 0 \<and> (\<forall>zt. \<not> has_run s (zone_index zt) (unat n))) \<or>
    (r \<noteq> 0 \<and> (\<exists>zt p. took_run s (zone_index zt) (unat n) s' p \<and> r = pfn_to_phys (of_nat p)))"
proof -
  have n0: "unat n \<noteq> 0" using n by (simp add: unat_eq_zero)
  have eff: "(t = s \<and> q = 0 \<and> \<not> has_run s (zone_index zt) (unat n)) \<or>
      (q \<noteq> 0 \<and> (\<exists>p. took_run s (zone_index zt) (unat n) t p \<and> q = pfn_to_phys (of_nat p)))"
    if "pmm_alloc_pages_zone n zt s = (t, q)" for zt t q
    using pmm_alloc_pages_zone_effect [OF inv n that] took_run_nonzero(1) [OF inv n0 z]
    by (elim disjE exE conjE) auto
  obtain s1 r1 where 1: "pmm_alloc_pages_zone n ZONE_NORMAL s = (s1, r1)" by fastforce
  obtain s2 r2 where 2: "pmm_alloc_pages_zone n ZONE_HIGH s = (s2, r2)" by fastforce
  obtain s3 r3 where 3: "pmm_alloc_pages_zone n ZONE_DMA s = (s3, r3)" by fastforce
  have all: "\<not> has_run s (zone_index ZONE_NORMAL) (unat n) \<Longrightarrow>
      \<not> has_run s (zone_index ZONE_HIGH) (unat n) \<Longrightarrow>
      \<not> has_run s (zone_index ZONE_DMA) (unat n) \<Longrightarrow> \<forall>zt. \<not> has_run s (zone_index zt) (unat n)"
    by (metis zone_type.exhaust)
  show ?thesis
  proof (cases "r1 = 0")
    case False
    then show ?thesis using a eff [OF 1] 1 by (auto simp: pmm_alloc_pages_def simp del: zone_index.simps)
  next
    case r1: True
    then have s1: "s1 = s" using eff [OF 1] by simp
    show ?thesis
    proof (cases "r2 = 0")
      case False
      then show ?thesis using a eff [OF 2] 1 2 r1 s1 by (auto simp: pmm_alloc_pages_def simp del: zone_index.simps)
    next
      case True
      then show ?thesis
        using a eff [OF 1] eff [OF 2] eff [OF 3] 1 2 3 r1 s1 all by (auto simp: pmm_alloc_pages_def simp del: zone_index.simps)
    qed
  qed
qed

section \<open>Regions of frames\<close>

lemma fold_mark_free:
  "pmm_inv s \<Longrightarrow> pmm_inv (fold mark_pfn_free xs s) \<and> managed (fold mark_pfn_free xs s) = managed s \<and>
     free_frames (fold mark_pfn_free xs s) = free_frames s \<union> (set xs \<inter> managed s)"
proof (induction xs arbitrary: s)
  case (Cons x xs)
  then show ?case using Cons.IH [of "mark_pfn_free x s"] mark_pfn_free_effect [OF Cons.prems, of x] by auto
qed simp

lemma fold_mark_used:
  "pmm_inv s \<Longrightarrow> pmm_inv (fold mark_pfn_used xs s) \<and> managed (fold mark_pfn_used xs s) = managed s \<and>
     free_frames (fold mark_pfn_used xs s) = free_frames s - set xs"
proof (induction xs arbitrary: s)
  case (Cons x xs)
  then show ?case using Cons.IH [of "mark_pfn_used x s"] mark_pfn_used_effect [OF Cons.prems, of x] by auto
qed simp

lemma page_size_minus_one: "PAGE_SIZE - 1 = mask 12"
  by (simp add: PAGE_SIZE_def mask_eq_exp_minus_1)

lemma pfn_of_align_down: "unat (phys_to_pfn (ALIGN_DOWN x PAGE_SIZE)) = unat x div 4096"
proof -
  have "phys_to_pfn (ALIGN_DOWN x PAGE_SIZE) = drop_bit 12 x"
    unfolding phys_to_pfn_def PAGE_SHIFT_def ALIGN_DOWN_def page_size_minus_one
    by (rule bit_word_eqI) (auto simp: bit_simps dest: bit_imp_le_length)
  then show ?thesis by (simp add: drop_bit_eq_div unat_div_distrib)
qed

lemma pfn_of_align_up:
  assumes "unat x + 4095 < 2 ^ 64"
  shows "unat (phys_to_pfn (ALIGN_UP x PAGE_SIZE)) = (unat x + 4095) div 4096"
proof -
  have "ALIGN_UP x PAGE_SIZE = ALIGN_DOWN (x + 4095) PAGE_SIZE"
    by (simp add: ALIGN_UP_def ALIGN_DOWN_def PAGE_SIZE_def)
  moreover have "unat (x + 4095) = unat x + 4095"
    using assms by (simp add: unat_word_ariths)
  ultimately show ?thesis by (simp add: pfn_of_align_down)
qed

text \<open>The frames that lie wholly inside a byte range, and those that overlap it.\<close>

definition frames_inside :: "nat \<Rightarrow> nat \<Rightarrow> nat set" where
  "frames_inside base sz = {j. base \<le> 4096 * j \<and> 4096 * (j + 1) \<le> base + sz}"

definition frames_touching :: "nat \<Rightarrow> nat \<Rightarrow> nat set" where
  "frames_touching base sz = {j. base < 4096 * (j + 1) \<and> 4096 * j < base + sz}"

lemma page_div:
  fixes x j :: nat
  shows "x div 4096 \<le> j \<longleftrightarrow> x < 4096 * (j + 1)" and "j < x div 4096 \<longleftrightarrow> 4096 * (j + 1) \<le> x"
  using div_less_iff_less_mult [of 4096 x "j + 1"] less_eq_div_iff_mult_less_eq [of 4096 "j + 1" x]
  by auto

lemma frames_inside_interval:
  "frames_inside base sz = {(base + 4095) div 4096..<(base + sz) div 4096}"
  unfolding frames_inside_def set_eq_iff by (simp add: page_div) linarith

lemma frames_touching_interval:
  "frames_touching base sz = {base div 4096..<(base + sz + 4095) div 4096}"
  unfolding frames_touching_def set_eq_iff by (simp add: page_div) linarith

lemma mark_region_free_effect:
  assumes inv: "pmm_inv s" and no: "unat base + unat sz + 4095 < 2 ^ 64"
  shows "pmm_inv (pmm_mark_region_free base sz s) \<and> managed (pmm_mark_region_free base sz s) = managed s \<and>
    free_frames (pmm_mark_region_free base sz s) =
      free_frames s \<union> (frames_inside (unat base) (unat sz) \<inter> managed s)"
proof -
  let ?a = "phys_to_pfn (ALIGN_UP base PAGE_SIZE)" and ?b = "phys_to_pfn (ALIGN_DOWN (base + sz) PAGE_SIZE)"
  have "unat (base + sz) = unat base + unat sz" using no by (simp add: unat_word_ariths)
  then have ab: "{unat ?a..<unat ?b} = frames_inside (unat base) (unat sz)"
    using no by (simp add: pfn_of_align_down pfn_of_align_up frames_inside_interval)
  have "pmm_mark_region_free base sz s = fold mark_pfn_free [unat ?a..<unat ?b] s"
    by (simp add: pmm_mark_region_free_def Let_def word_le_nat_alt)
  then show ?thesis using fold_mark_free [OF inv, of "[unat ?a..<unat ?b]"] ab by simp
qed

lemma mark_region_used_effect:
  assumes inv: "pmm_inv s" and no: "unat base + unat sz + 4095 < 2 ^ 64"
  shows "pmm_inv (pmm_mark_region_used base sz s) \<and> managed (pmm_mark_region_used base sz s) = managed s \<and>
    free_frames (pmm_mark_region_used base sz s) =
      free_frames s - frames_touching (unat base) (unat sz)"
proof -
  let ?a = "phys_to_pfn (ALIGN_DOWN base PAGE_SIZE)" and ?b = "phys_to_pfn (ALIGN_UP (base + sz) PAGE_SIZE)"
  have "unat (base + sz) = unat base + unat sz" using no by (simp add: unat_word_ariths)
  then have ab: "{unat ?a..<unat ?b} = frames_touching (unat base) (unat sz)"
    using no by (simp add: pfn_of_align_down pfn_of_align_up frames_touching_interval)
  then show ?thesis
    using fold_mark_used [OF inv, of "[unat ?a..<unat ?b]"] by (simp add: pmm_mark_region_used_def Let_def)
qed

text \<open>The frames of an allocation of \<^verbatim>\<open>n\<close> pages at a physical address.\<close>

definition page_frames :: "u64 \<Rightarrow> u64 \<Rightarrow> nat set" where
  "page_frames phys n = {unat (phys_to_pfn phys)..<unat (phys_to_pfn phys) + unat n}"

lemma pfn_of_offset:
  assumes "unat phys + i * 4096 < 2 ^ 64"
  shows "unat (phys_to_pfn (phys + of_nat i * PAGE_SIZE)) = unat (phys_to_pfn phys) + i"
proof -
  have "i < 2 ^ 64" using assms by simp
  then have "unat (of_nat i * PAGE_SIZE) = i * 4096"
    using assms by (simp add: PAGE_SIZE_def unat_word_ariths)
  then have "unat (phys + of_nat i * PAGE_SIZE) = unat phys + i * 4096"
    using assms by (simp add: unat_word_ariths)
  then show ?thesis by (simp add: phys_to_pfn_def PAGE_SHIFT_def drop_bit_eq_div unat_div_distrib)
qed

lemma pmm_free_pages_effect:
  assumes "pmm_inv s" and "unat phys + unat n * 4096 \<le> 2 ^ 64"
  shows "pmm_inv (pmm_free_pages phys n s) \<and> managed (pmm_free_pages phys n s) = managed s \<and>
    free_frames (pmm_free_pages phys n s) = free_frames s \<union> (page_frames phys n \<inter> managed s)"
proof -
  have "pmm_inv (fold (\<lambda>i. pmm_free_page (phys + of_nat i * PAGE_SIZE)) [0..<k] s) \<and>
      managed (fold (\<lambda>i. pmm_free_page (phys + of_nat i * PAGE_SIZE)) [0..<k] s) = managed s \<and>
      free_frames (fold (\<lambda>i. pmm_free_page (phys + of_nat i * PAGE_SIZE)) [0..<k] s) =
        free_frames s \<union> ({unat (phys_to_pfn phys)..<unat (phys_to_pfn phys) + k} \<inter> managed s)"
    if "k \<le> unat n" for k
    using that
  proof (induction k)
    case (Suc k)
    have "unat phys + k * 4096 < 2 ^ 64" using Suc.prems assms(2) by simp
    then show ?case using Suc pmm_free_page_effect by (auto simp: pfn_of_offset)
  qed (use assms in simp)
  from this [of "unat n"] show ?thesis by (simp add: pmm_free_pages_def page_frames_def)
qed

section \<open>Initialisation and reachable states\<close>

lemma test_all_ones: "j < 32 * n \<Longrightarrow> pmm_bitmap_test (replicate n (- 1)) j"
  by (simp add: pmm_bitmap_test_bit less_mult_imp_div_less mult.commute)

lemma UN_less_3: "(\<Union>i<3. A i) = A 0 \<union> A (Suc 0) \<union> A (2 :: nat)"
  by (auto simp: numeral_3_eq_3 numeral_2_eq_2 lessThan_Suc)

lemma pmm_init_bitmap_effect:
  fixes n
  defines "s \<equiv> pmm_init_bitmap n pmm_static"
  shows "pmm_inv s \<and> free_frames s = {} \<and> managed s = {..<unat (total_pages s)} \<and>
    unat (total_pages s) = min (unat n) 0x100000"
proof -
  have bb: "bitmap_bytes * 8 = 0x100000" by (simp add: bitmap_bytes_def bitmap_words_def)
  let ?t = "if n > 0x100000 then 0x100000 else n :: u64"
  have t: "unat ?t = min (unat n) 0x100000" by (simp add: word_less_nat_alt)
  have s: "total_pages s = ?t" "initial_bitmap s = replicate bitmap_words (- 1)" "free_pages s = 0"
    "page_array s = None" "length (zones s) = 3"
    by (simp_all add: s_def pmm_init_bitmap_def Let_def bb pmm_static_def zone_boundaries_def)
  have z: "start_pfn (zones s ! 0) = 0" "end_pfn (zones s ! 0) = (if ?t > 0x1000 then 0x1000 else ?t)"
    "start_pfn (zones s ! Suc 0) = 0x1000" "end_pfn (zones s ! Suc 0) = (if ?t > 0x1000 then ?t else 0x1000)"
    "start_pfn (zones s ! 2) = 0x100000" "end_pfn (zones s ! 2) = 0x100000"
    by (simp_all add: s_def pmm_init_bitmap_def Let_def bb pmm_static_def zone_boundaries_def)
  have zf: "zone_free (zones s ! i) = 0" if "i < 3" for i
    using that by (simp add: s_def pmm_init_bitmap_def Let_def pmm_static_def zone_boundaries_def)
  have fr: "zone_frames (zones s ! 0) = {..<min (unat ?t) 0x1000}"
    "zone_frames (zones s ! Suc 0) = {0x1000..<unat ?t}" "zone_frames (zones s ! 2) = {}"
    by (auto simp: zone_frames_def z word_less_nat_alt)
  have sub: "\<forall>i<3. zone_frames (zones s ! i) \<subseteq> {..<32 * bitmap_words}"
    using fr t by (auto simp: all_less_3 bitmap_words_32)
  have "free_in s i = {}" if "i < 3" for i
  proof -
    have "zone_frames (zones s ! i) \<subseteq> {..<32 * bitmap_words}" using sub that by blast
    then show ?thesis by (auto simp: free_in_def s intro!: test_all_ones)
  qed
  moreover have "\<forall>i<3. \<forall>k<3. i \<noteq> k \<longrightarrow> zone_frames (zones s ! i) \<inter> zone_frames (zones s ! k) = {}"
    using fr by (auto simp: all_less_3)
  moreover have "managed s = {..<unat ?t}"
    using fr by (auto simp: managed_def UN_less_3)
  ultimately show ?thesis using s zf sub t by (simp add: pmm_inv_def free_frames_def)
qed

text \<open>Every state the allocator can get into after its bitmap is initialised.\<close>

inductive pmm_reach :: "pmm \<Rightarrow> bool" where
  init: "pmm_reach (pmm_init_bitmap n pmm_static)"
| mark_free: "pmm_reach s \<Longrightarrow> pmm_reach (pmm_mark_region_free base sz s)"
| mark_used: "pmm_reach s \<Longrightarrow> pmm_reach (pmm_mark_region_used base sz s)"
| alloc_zone: "pmm_reach s \<Longrightarrow> pmm_reach (fst (pmm_alloc_pages_zone count zt s))"
| alloc_page_zone: "pmm_reach s \<Longrightarrow> pmm_reach (fst (pmm_alloc_page_zone zt s))"
| alloc_page: "pmm_reach s \<Longrightarrow> pmm_reach (fst (pmm_alloc_page s))"
| alloc_pages: "pmm_reach s \<Longrightarrow> pmm_reach (fst (pmm_alloc_pages count s))"
| free_page: "pmm_reach s \<Longrightarrow> pmm_reach (pmm_free_page phys s)"
| free_pages: "pmm_reach s \<Longrightarrow> pmm_reach (pmm_free_pages phys count s)"
| init_metadata: "pmm_reach s \<Longrightarrow> pmm_init_page_metadata s = Some s' \<Longrightarrow> pmm_reach s'"
| set_owner: "pmm_reach s \<Longrightarrow> pmm_reach (pmm_page_set_owner phys own s)"
| update_flags: "pmm_reach s \<Longrightarrow> pmm_reach (pmm_page_update_flags phys fs fc s)"
| ref_inc: "pmm_reach s \<Longrightarrow> pmm_reach (pmm_page_ref_inc phys s)"
| ref_dec: "pmm_reach s \<Longrightarrow> pmm_reach (fst (pmm_page_ref_dec phys s))"

text \<open>The invariant with the managed frames fixed by the total.\<close>

definition pmm_sound :: "pmm \<Rightarrow> bool" where
  "pmm_sound s \<longleftrightarrow> pmm_inv s \<and> managed s = {..<unat (total_pages s)}"

lemma total_pages_mark [simp]:
  "total_pages (mark_pfn_free p s) = total_pages s" "total_pages (mark_pfn_used p s) = total_pages s"
  "total_pages (take_pfn zt p s) = total_pages s" "total_pages (pmm_free_page a s) = total_pages s"
  by (simp_all add: mark_pfn_free_def mark_pfn_used_def take_pfn_def pmm_free_page_def update_zone_def
      Let_def split: option.splits)

lemma total_pages_fold: "(\<And>x s. total_pages (f x s) = total_pages s) \<Longrightarrow> total_pages (fold f xs s) = total_pages s"
  by (induction xs arbitrary: s) simp_all

lemma fold_sound: "(\<And>x s. pmm_sound s \<Longrightarrow> pmm_sound (f x s)) \<Longrightarrow> pmm_sound s \<Longrightarrow> pmm_sound (fold f xs s)"
  by (induction xs arbitrary: s) simp_all

lemma mark_sound:
  assumes "pmm_sound s"
  shows "pmm_sound (mark_pfn_free p s)" and "pmm_sound (mark_pfn_used p s)" and "pmm_sound (pmm_free_page a s)"
  using assms mark_pfn_free_effect [of s p] mark_pfn_used_effect [of s p] pmm_free_page_effect [of s a]
  by (simp_all add: pmm_sound_def)

lemma with_page_sound [simp]: "pmm_sound (with_page p f s) = pmm_sound s"
  by (simp add: pmm_sound_def)

lemma alloc_zone_sound:
  assumes "pmm_sound s" shows "pmm_sound (fst (pmm_alloc_pages_zone n zt s))"
proof -
  obtain s' r where a: "pmm_alloc_pages_zone n zt s = (s', r)" by fastforce
  have "total_pages s' = total_pages s"
    using a by (auto simp: pmm_alloc_pages_zone_def Let_def update_zone_def total_pages_fold
        split: if_splits option.splits)
  moreover have "n = 0 \<Longrightarrow> s' = s"
    using a by (auto simp: pmm_alloc_pages_zone_def Let_def bitmap_find_free_region_def find_free_region_from_zero)
  ultimately show ?thesis
    using pmm_alloc_pages_zone_effect [OF _ _ a] assms a
    by (cases "n = 0") (auto simp: pmm_sound_def took_run_def)
qed

lemma alloc_pages_sound:
  assumes "pmm_sound s" shows "pmm_sound (fst (pmm_alloc_pages n s))"
  using assms alloc_zone_sound
  by (auto simp: pmm_alloc_pages_def split: prod.splits) (metis fst_conv)+

lemma init_metadata_sound:
  assumes "pmm_sound s" and "pmm_init_page_metadata s = Some s'"
  shows "pmm_sound s'"
proof -
  obtain t r where a: "pmm_alloc_pages (ALIGN_UP (total_pages s * sizeof_page) PAGE_SIZE div PAGE_SIZE) s = (t, r)"
    by fastforce
  then have "pmm_sound t" using alloc_pages_sound [OF assms(1)] by (metis fst_conv)
  then have "pmm_sound (t\<lparr>page_array := Some (map (page_reset t) [0..<unat (total_pages t)]),
      page_array_count := total_pages t, page_array_backing_phys := r\<rparr>)"
    by (simp add: pmm_sound_def pmm_inv_def managed_def free_in_def)
  then show ?thesis
    using assms a
    by (auto simp: pmm_init_page_metadata_def Let_def split: if_splits intro!: fold_sound)
qed

lemma pmm_reach_sound: "pmm_reach s \<Longrightarrow> pmm_sound s"
proof (induction rule: pmm_reach.induct)
  case (init n)
  then show ?case using pmm_init_bitmap_effect [of n] by (simp add: pmm_sound_def)
next
  case (init_metadata s s')
  then show ?case by (blast intro: init_metadata_sound)
next
  case (ref_dec s phys)
  then show ?case by (auto simp: pmm_page_ref_dec_def split: option.splits)
qed (simp_all add: pmm_mark_region_free_def pmm_mark_region_used_def pmm_free_pages_def Let_def
    pmm_alloc_page_zone_one pmm_alloc_page_one pmm_page_set_owner_def pmm_page_update_flags_def
    pmm_page_ref_inc_def alloc_zone_sound alloc_pages_sound mark_sound fold_sound)

section \<open>The page allocator as an interface\<close>

text \<open>
  What the clients of a page allocator rely on: an allocation takes the frames it returns from the
  free frames, a failed one changes nothing, and a release gives the frames back. Address 0 is the
  failure value, so the contract speaks about states in which frame 0 is not free.
\<close>

locale page_source =
  fixes ok :: "'s \<Rightarrow> bool"
    and free :: "'s \<Rightarrow> nat set"
    and owned :: "'s \<Rightarrow> nat set"
    and alloc :: "u64 \<Rightarrow> 's \<Rightarrow> 's \<times> u64"
    and release :: "u64 \<Rightarrow> u64 \<Rightarrow> 's \<Rightarrow> 's"
  assumes ok_zero: "ok s \<Longrightarrow> 0 \<notin> free s"
    and alloc_ok: "ok s \<Longrightarrow> alloc n s = (s', r) \<Longrightarrow> ok s' \<and> owned s' = owned s"
    and alloc_fail: "ok s \<Longrightarrow> alloc n s = (s', 0) \<Longrightarrow> s' = s"
    and alloc_takes: "ok s \<Longrightarrow> alloc n s = (s', r) \<Longrightarrow> r \<noteq> 0 \<Longrightarrow>
      page_frames r n \<subseteq> free s \<and> page_frames r n \<noteq> {} \<and> free s' = free s - page_frames r n \<and>
      unat r mod 4096 = 0 \<and> unat r + unat n * 4096 \<le> 2 ^ 64"
    and free_owned: "ok s \<Longrightarrow> free s \<subseteq> owned s"
    and release_gives: "ok s \<Longrightarrow> 0 \<notin> page_frames r n \<Longrightarrow> page_frames r n \<subseteq> owned s \<Longrightarrow>
      unat r + unat n * 4096 \<le> 2 ^ 64 \<Longrightarrow>
      ok (release r n s) \<and> owned (release r n s) = owned s \<and>
      free (release r n s) = free s \<union> page_frames r n"
begin

lemma alloc_release:
  assumes "ok s" and "alloc n s = (s', r)" and "r \<noteq> 0"
  shows "ok (release r n s') \<and> free (release r n s') = free s"
proof -
  have f: "page_frames r n \<subseteq> free s" "free s' = free s - page_frames r n" "unat r + unat n * 4096 \<le> 2 ^ 64"
    using alloc_takes [OF assms] by blast+
  then have "0 \<notin> page_frames r n" "page_frames r n \<subseteq> owned s'"
    using ok_zero free_owned alloc_ok assms by blast+
  then show ?thesis using release_gives alloc_ok assms f by blast
qed

lemma alloc_disjoint:
  assumes "ok s" and "alloc n s = (s', r)" and "r \<noteq> 0" and "alloc m s' = (s'', q)" and "q \<noteq> 0"
  shows "page_frames r n \<inter> page_frames q m = {} \<and> free s'' = free s - page_frames r n - page_frames q m"
  using alloc_takes [OF assms(1-3)] alloc_takes [OF _ assms(4,5)] alloc_ok [OF assms(1,2)] by auto

end

definition pmm_ok :: "pmm \<Rightarrow> bool" where
  "pmm_ok s \<longleftrightarrow> pmm_inv s \<and> 0 \<notin> free_frames s"

lemma alloc_result_frames:
  assumes "pmm_inv s" and "0 \<notin> free_frames s" and "n \<noteq> 0" and "took_run s (zone_index zt) (unat n) s' p"
    and r: "r = pfn_to_phys (of_nat p)"
  shows "page_frames r n = {p..<p + unat n} \<and> {p..<p + unat n} \<subseteq> free_frames s \<and>
    unat r mod 4096 = 0 \<and> unat r + unat n * 4096 \<le> 2 ^ 64"
proof -
  have n: "unat n \<noteq> 0" using assms(3) by (simp add: unat_eq_zero)
  have sub: "{p..<p + unat n} \<subseteq> free_in s (zone_index zt)" using assms(4) by (simp add: took_run_def)
  then have "p + unat n - 1 \<in> free_in s (zone_index zt)" using n by (simp add: subset_iff)
  then have "p + unat n - 1 < 0x100000" using free_in_bound(1) [OF assms(1), of "zone_index zt"] by auto
  moreover from this have p: "p < 0x100000" using n by linarith
  moreover have "unat r = p * 4096"
    using p by (simp add: r pfn_to_phys_def PAGE_SHIFT_def push_bit_eq_mult unat_word_ariths)
  moreover have "{p..<p + unat n} \<subseteq> free_frames s"
    using sub unfolding free_frames_def by (rule subset_trans) (rule UN_upper, simp)
  ultimately show ?thesis using phys_to_pfn_of_pfn [of p] by (simp add: page_frames_def r)
qed

interpretation pages: page_source pmm_ok free_frames managed pmm_alloc_pages pmm_free_pages
proof
  fix s n s' r
  assume ok: "pmm_ok s" and a: "pmm_alloc_pages n s = (s', r)"
  then have s: "pmm_inv s" "0 \<notin> free_frames s" by (simp_all add: pmm_ok_def)
  note eff = pmm_alloc_pages_effect [OF s(1) _ s(2) a]
  show "pmm_ok s' \<and> managed s' = managed s"
    using a eff ok by (cases "n = 0") (auto simp: pmm_alloc_pages_zero pmm_ok_def took_run_def)
  show "page_frames r n \<subseteq> free_frames s \<and> page_frames r n \<noteq> {} \<and>
      free_frames s' = free_frames s - page_frames r n \<and> unat r mod 4096 = 0 \<and> unat r + unat n * 4096 \<le> 2 ^ 64"
    if r: "r \<noteq> 0"
  proof -
    have n: "n \<noteq> 0" using a r by (auto simp: pmm_alloc_pages_zero)
    then obtain zt p where p: "took_run s (zone_index zt) (unat n) s' p" "r = pfn_to_phys (of_nat p)"
      using eff r by blast
    then show ?thesis using alloc_result_frames [OF s n p] n
      by (simp add: took_run_def unat_eq_zero)
  qed
next
  fix s n s'
  assume "pmm_ok s" and "pmm_alloc_pages n s = (s', 0)"
  then show "s' = s"
    using pmm_alloc_pages_effect [of s n s' 0] by (cases "n = 0") (auto simp: pmm_alloc_pages_zero pmm_ok_def)
next
  fix s r n
  assume "pmm_ok s" "0 \<notin> page_frames r n" "page_frames r n \<subseteq> managed s" "unat r + unat n * 4096 \<le> 2 ^ 64"
  then show "pmm_ok (pmm_free_pages r n s) \<and> managed (pmm_free_pages r n s) = managed s \<and>
      free_frames (pmm_free_pages r n s) = free_frames s \<union> page_frames r n"
    using pmm_free_pages_effect [of s r n] by (auto simp: pmm_ok_def)
qed (simp_all add: pmm_ok_def free_frames_managed)

section \<open>Properties\<close>

text \<open>A machine with 0x8000 frames, of which four are given to the allocator.\<close>

definition pmm_example :: pmm where
  "pmm_example = pmm_mark_region_free 0x200000 0x4000 (pmm_init_bitmap 0x8000 pmm_static)"

lemma pmm_example_facts:
  "pmm_reach pmm_example" "pmm_ok pmm_example" "free_frames pmm_example = {0x200..<0x204}"
  "managed pmm_example = {..<0x8000}"
proof -
  let ?s = "pmm_init_bitmap 0x8000 pmm_static"
  have i: "pmm_inv ?s" "free_frames ?s = {}" "managed ?s = {..<0x8000}"
    using pmm_init_bitmap_effect [of "0x8000"] by simp_all
  have f: "frames_inside 0x200000 0x4000 = {0x200..<0x204}"
    by (simp add: frames_inside_interval)
  show "pmm_reach pmm_example" unfolding pmm_example_def by (intro pmm_reach.intros)
  show "pmm_ok pmm_example" "free_frames pmm_example = {0x200..<0x204}" "managed pmm_example = {..<0x8000}"
    using mark_region_free_effect [OF i(1), of "0x200000" "0x4000"] i f
    by (auto simp: pmm_ok_def pmm_example_def)
qed

lemma free_frame_run: "x \<in> free_frames s \<Longrightarrow> \<exists>zt. has_run s (zone_index zt) (Suc 0)"
proof -
  assume "x \<in> free_frames s"
  then obtain i where i: "i < 3" "x \<in> free_in s i" by (auto simp: free_frames_def)
  have "\<forall>i<3. \<exists>zt. zone_index zt = i"
    unfolding all_less_3 by (metis zone_index.simps One_nat_def)
  then obtain zt where "zone_index zt = i" using i by blast
  then show ?thesis using i by (auto simp: has_run_def intro!: exI [of _ zt] exI [of _ x])
qed

text \<open>C21: in every state the allocator reaches, the counters are exact: each zone's free count is
  the number of clear bits in its range, the reported free count is the number of free frames and
  the reported used count the number of managed frames that are not free.\<close>

theorem pmm_counters_sound:
  assumes "pmm_reach s"
  shows "pmm_inv s \<and> unat (pmm_get_free_pages s) = card (free_frames s) \<and>
    unat (pmm_get_used_pages s) = card (managed s - free_frames s)"
proof -
  have s: "pmm_inv s" "managed s = {..<unat (total_pages s)}"
    using pmm_reach_sound [OF assms] by (simp_all add: pmm_sound_def)
  have le: "card (free_frames s) \<le> unat (total_pages s)"
    using card_mono [OF _ free_frames_managed [of s]] s(2) by simp
  have "card (managed s - free_frames s) = unat (total_pages s) - card (free_frames s)"
    using s(2) free_frames_managed [of s] by (simp add: card_Diff_subset finite_subset)
  moreover have "unat (total_pages s - free_pages s) = unat (total_pages s) - card (free_frames s)"
    using le by (simp add: unat_sub word_le_nat_alt card_free_frames [OF s(1)])
  ultimately show ?thesis
    using s by (simp add: pmm_get_free_pages_def pmm_get_used_pages_def card_free_frames)
qed

theorem pmm_counters_sound_witness:
  "unat (pmm_get_free_pages pmm_example) = 4 \<and> unat (pmm_get_used_pages pmm_example) = 0x8000 - 4"
proof -
  have "card ({..<0x8000} - {0x200..<0x204 :: nat}) = 0x8000 - 4"
    by (subst card_Diff_subset) auto
  then show ?thesis
    using pmm_counters_sound [OF pmm_example_facts(1)] by (simp add: pmm_example_facts(3,4))
qed



text \<open>C12: an allocation hands out frames nobody holds: what it returns was free, two successive
  allocations are disjoint, and freeing what was allocated restores the set of free frames.\<close>

theorem pmm_alloc_free_roundtrip:
  assumes "pmm_ok s" and "pmm_alloc_pages n s = (s', r)" and "r \<noteq> 0"
  shows "page_frames r n \<subseteq> free_frames s \<and> free_frames s' = free_frames s - page_frames r n \<and>
    free_frames (pmm_free_pages r n s') = free_frames s \<and>
    (\<forall>m s'' q. pmm_alloc_pages m s' = (s'', q) \<longrightarrow> q \<noteq> 0 \<longrightarrow> page_frames r n \<inter> page_frames q m = {})"
  using pages.alloc_takes [OF assms] pages.alloc_release [OF assms] pages.alloc_disjoint [OF assms] by blast

lemma pmm_example_alloc:
  obtains s' r where "pmm_alloc_pages 1 pmm_example = (s', r)" and "r \<noteq> 0"
proof -
  obtain zt where "has_run pmm_example (zone_index zt) (Suc 0)"
    using free_frame_run [of "0x200" pmm_example] by (auto simp: pmm_example_facts)
  moreover obtain s' r where a: "pmm_alloc_pages 1 pmm_example = (s', r)" by fastforce
  ultimately have "r \<noteq> 0"
    using pmm_alloc_pages_effect [of pmm_example 1 s' r] pmm_example_facts(2)
    by (auto simp: pmm_ok_def simp del: zone_index.simps)
  then show ?thesis using that a by blast
qed

theorem pmm_alloc_free_roundtrip_witness:
  "\<exists>s' r. pmm_alloc_pages 1 pmm_example = (s', r) \<and> r \<noteq> 0 \<and>
     free_frames (pmm_free_pages r 1 s') = {0x200..<0x204}"
proof -
  obtain s' r where a: "pmm_alloc_pages 1 pmm_example = (s', r)" "r \<noteq> 0" by (rule pmm_example_alloc)
  then show ?thesis
    using pmm_alloc_free_roundtrip [OF pmm_example_facts(2) a] by (auto simp: pmm_example_facts)
qed

text \<open>C30: \<^verbatim>\<open>pmm_mark_region_free\<close> frees exactly the managed frames that lie wholly inside the byte
  range, and \<^verbatim>\<open>pmm_mark_region_used\<close> takes exactly the frames that overlap it; both keep the
  invariant.\<close>

theorem pmm_regions_exact:
  assumes "pmm_inv s" and "unat base + unat sz + 4095 < 2 ^ 64"
  shows "pmm_inv (pmm_mark_region_free base sz s) \<and> pmm_inv (pmm_mark_region_used base sz s) \<and>
    free_frames (pmm_mark_region_free base sz s) =
      free_frames s \<union> {j \<in> managed s. unat base \<le> 4096 * j \<and> 4096 * (j + 1) \<le> unat base + unat sz} \<and>
    free_frames (pmm_mark_region_used base sz s) =
      {j \<in> free_frames s. \<not> (unat base < 4096 * (j + 1) \<and> 4096 * j < unat base + unat sz)}"
  using mark_region_free_effect [OF assms] mark_region_used_effect [OF assms]
  unfolding frames_inside_def frames_touching_def by auto

theorem pmm_regions_exact_witness:
  "free_frames (pmm_mark_region_used 0x201800 1 pmm_example) = {0x200, 0x202, 0x203}"
proof -
  have "free_frames (pmm_mark_region_used 0x201800 1 pmm_example) =
      {j \<in> {0x200..<0x204 :: nat}. \<not> (0x201800 < 4096 * (j + 1) \<and> 4096 * j < 0x201800 + 1)}"
    using pmm_regions_exact [of pmm_example "0x201800" 1] pmm_example_facts(2,3) by (simp add: pmm_ok_def)
  also have "\<dots> = {0x200, 0x202, 0x203}" by auto
  finally show ?thesis .
qed

text \<open>C31: freeing a frame that is already free, or that no zone manages, changes nothing; freeing a
  used managed frame makes exactly that frame free.\<close>

theorem pmm_free_page_exact:
  assumes "pmm_inv s" and "pfn = unat (phys_to_pfn phys)"
  shows "(pfn \<in> free_frames s \<or> pfn \<notin> managed s \<longrightarrow> pmm_free_page phys s = s) \<and>
    (pfn \<in> managed s \<longrightarrow>
      free_frames (pmm_free_page phys s) = insert pfn (free_frames s) \<and> pmm_inv (pmm_free_page phys s))"
proof -
  have "pmm_free_page phys s = s" if "pfn \<in> free_frames s \<or> pfn \<notin> managed s"
    using that pfn_to_zone_None [OF assms(1), of pfn]
    by (cases "pfn_to_zone s pfn") (auto simp: pmm_free_page_def Let_def assms(2) free_frames_alt)
  then show ?thesis using pmm_free_page_effect [OF assms(1), of phys] by (auto simp: assms(2))
qed

theorem pmm_free_page_exact_witness:
  "pmm_free_page 0x200000 pmm_example = pmm_example \<and>
   free_frames (pmm_free_page 0x300000 pmm_example) = insert 0x300 {0x200..<0x204}"
  using pmm_free_page_exact [of pmm_example "0x200" "0x200000"]
    pmm_free_page_exact [of pmm_example "0x300" "0x300000"]
    pmm_example_facts(2-4)
  by (simp add: pmm_ok_def phys_to_pfn_def PAGE_SHIFT_def drop_bit_eq_div unat_div_distrib)

end
