(* ===== verification/Support.thy ===== *)
theory Support
  imports Obelisk_Prelude
begin

text \<open>
  The kernel's Zig helpers (\<^verbatim>\<open>kernel/support\<close>): overflow-checked 64-bit arithmetic, page rounding,
  and the bounded validators for pathnames and command lines. A helper that writes through an out
  pointer returns the written value together with its result code as a boolean, \<^const>\<open>True\<close> for
  non-zero (refused); the null checks of out pointers are omitted, every caller passes the address
  of a local. A buffer is the list of the bytes its capacity covers.
\<close>

section \<open>Checked arithmetic\<close>

definition zig_u64_mul_ok :: "u64 \<Rightarrow> u64 \<Rightarrow> u64 \<times> bool" where
  "zig_u64_mul_ok a b = (a * b, 2 ^ 64 \<le> unat a * unat b)"

definition zig_u64_add_ok :: "u64 \<Rightarrow> u64 \<Rightarrow> u64 \<times> bool" where
  "zig_u64_add_ok a b = (a + b, 2 ^ 64 \<le> unat a + unat b)"

definition zig_u64_sub_ok :: "u64 \<Rightarrow> u64 \<Rightarrow> u64 \<times> bool" where
  "zig_u64_sub_ok a b = (a - b, unat a < unat b)"

definition zig_user_copy_len_ok :: "u64 \<Rightarrow> bool" where
  "zig_user_copy_len_ok len = (len > 0x7ffff000)"

definition zig_u64_add_le_cap :: "u64 \<Rightarrow> u64 \<Rightarrow> u64 \<Rightarrow> bool" where
  "zig_u64_add_le_cap a b cap =
     (let (r, ov) = zig_u64_add_ok a b in if ov then True else if r > cap then True else False)"

definition zig_u64_align_up_pow2_ok :: "u64 \<Rightarrow> u64 \<Rightarrow> u64 option" where
  "zig_u64_align_up_pow2_ok v alignment =
     (if alignment = 0 then None
      else if alignment AND (alignment - 1) \<noteq> 0 then None
      else let msk = alignment - 1; (r, ov) = zig_u64_add_ok v msk
           in if ov then None else Some (r AND NOT msk))"

text \<open>The aligned size and the page count, or \<^const>\<open>None\<close> for a non-zero result.\<close>

definition zig_pages_for_bytes_ok :: "u64 \<Rightarrow> u64 \<Rightarrow> (u64 \<times> u64) option" where
  "zig_pages_for_bytes_ok bytes page_size =
     (if page_size = 0 then None
      else if page_size AND (page_size - 1) \<noteq> 0 then None
      else if bytes = 0 then Some (0, 0)
      else let msk = page_size - 1; (r, ov) = zig_u64_add_ok bytes msk
           in if ov then None
              else let aligned = r AND NOT msk
                in if aligned < bytes then None
                   else if aligned mod page_size \<noteq> 0 then None
                   else Some (aligned, aligned div page_size))"

definition zig_range_end_le_cap_ok :: "u64 \<Rightarrow> u64 \<Rightarrow> u64 \<Rightarrow> u64 option" where
  "zig_range_end_le_cap_ok start len cap =
     (let (fin, ov) = zig_u64_add_ok start len
      in if ov then None else if fin > cap then None else Some fin)"

section \<open>Byte scans\<close>

definition zig_mem_all_zero :: "u8 list \<Rightarrow> bool" where
  "zig_mem_all_zero buf = list_all (\<lambda>b. b = 0) buf"

fun first_zero_from :: "u8 list \<Rightarrow> int \<Rightarrow> int" where
  "first_zero_from [] i = - 1"
| "first_zero_from (b # bs) i = (if b = 0 then i else first_zero_from bs (i + 1))"

definition zig_first_zero_byte :: "u8 list \<Rightarrow> int" where
  "zig_first_zero_byte buf = first_zero_from buf 0"

text \<open>The loop of \<^verbatim>\<open>zig_kernel_cstring_no_control\<close> and of \<^verbatim>\<open>zig_kernel_exec_line_ok\<close>, which only
  differ in the control bytes they refuse; \<^verbatim>\<open>first\<close> says that no byte has been read yet.\<close>

fun cstring_refused :: "(u8 \<Rightarrow> bool) \<Rightarrow> bool \<Rightarrow> u8 list \<Rightarrow> bool" where
  "cstring_refused bad first [] = True"
| "cstring_refused bad first (c # cs) =
     (if c = 0 then first else if bad c then True else cstring_refused bad False cs)"

definition path_bad_byte :: "u8 \<Rightarrow> bool" where
  "path_bad_byte c \<longleftrightarrow> c < 0x20 \<or> c = 0x7f"

definition exec_bad_byte :: "u8 \<Rightarrow> bool" where
  "exec_bad_byte c \<longleftrightarrow> c < 0x20 \<and> c \<noteq> 0x09 \<or> c = 0x7f"

definition zig_kernel_cstring_no_control :: "u8 list \<Rightarrow> bool" where
  "zig_kernel_cstring_no_control s =
     (if length s = 0 then True else if length s > 16384 then True
      else cstring_refused path_bad_byte True s)"

definition zig_kernel_exec_line_ok :: "u8 list \<Rightarrow> bool" where
  "zig_kernel_exec_line_ok s =
     (if length s = 0 then True else if length s > 4096 then True
      else cstring_refused exec_bad_byte True s)"

text \<open>The scan for a \<^verbatim>\<open>..\<close> component. \<^verbatim>\<open>p\<close> is the whole buffer, \<^verbatim>\<open>i\<close> the position and
  \<^verbatim>\<open>seg_len\<close> the length of the component read so far.\<close>

definition ends_dotdot :: "u8 list \<Rightarrow> nat \<Rightarrow> nat \<Rightarrow> bool" where
  "ends_dotdot p i seg_len \<longleftrightarrow> seg_len = 2 \<and> p ! (i - 2) = 0x2e \<and> p ! (i - 1) = 0x2e"

function has_dotdot_from :: "u8 list \<Rightarrow> nat \<Rightarrow> nat \<Rightarrow> bool" where
  "has_dotdot_from p i seg_len =
     (if i < length p then
        (if p ! i = 0 then ends_dotdot p i seg_len
         else if p ! i = 0x2f then
           (if ends_dotdot p i seg_len then True else has_dotdot_from p (i + 1) 0)
         else has_dotdot_from p (i + 1) (seg_len + 1))
      else length p \<ge> 2 \<and> ends_dotdot p (length p) seg_len)"
  by pat_completeness auto
termination
  by (relation "measure (\<lambda>(p, i, seg_len). length p - i)") auto

definition zig_path_has_dotdot_component :: "u8 list \<Rightarrow> bool" where
  "zig_path_has_dotdot_component p = (if length p = 0 then False else has_dotdot_from p 0 0)"

declare has_dotdot_from.simps [simp del]

section \<open>Lemmas\<close>

text \<open>The bytes of the buffer before its first NUL, and the components of a path.\<close>

definition cstring_of :: "u8 list \<Rightarrow> u8 list" where
  "cstring_of p = takeWhile (\<lambda>c. c \<noteq> 0) p"

fun split_path :: "u8 list \<Rightarrow> u8 list \<Rightarrow> u8 list list" where
  "split_path acc [] = [acc]"
| "split_path acc (c # cs) = (if c = 0x2f then acc # split_path [] cs else split_path (acc @ [c]) cs)"

definition components :: "u8 list \<Rightarrow> u8 list list" where
  "components p = split_path [] p"

lemma ends_dotdot_seg:
  assumes "seg_len \<le> i" and "i \<le> length p"
  shows "ends_dotdot p i seg_len \<longleftrightarrow> drop (i - seg_len) (take i p) = [0x2e, 0x2e]"
proof
  assume e: "ends_dotdot p i seg_len"
  then have "2 \<le> i" "seg_len = 2" using assms by (auto simp: ends_dotdot_def)
  then have "drop (i - 2) (take i p) = [p ! (i - 2), p ! (i - 1)]"
    using assms by (intro nth_equalityI) (auto simp: less_Suc_eq numeral_2_eq_2)
  then show "drop (i - seg_len) (take i p) = [0x2e, 0x2e]" using e \<open>seg_len = 2\<close> by (simp add: ends_dotdot_def)
next
  assume d: "drop (i - seg_len) (take i p) = [0x2e, 0x2e]"
  then have "length (drop (i - seg_len) (take i p)) = 2" by simp
  then have two: "seg_len = 2" using assms by simp
  have "Suc (i - 2) = i - 1" using assms two by simp
  then have "drop (i - 2) (take i p) ! 0 = p ! (i - 2)" "drop (i - 2) (take i p) ! 1 = p ! (i - 1)"
    using assms two by auto
  then show "ends_dotdot p i seg_len" using d two by (simp add: ends_dotdot_def)
qed

lemma has_dotdot_from_components:
  assumes "seg_len \<le> i" and "i \<le> length p"
  shows "has_dotdot_from p i seg_len \<longleftrightarrow>
    [0x2e, 0x2e] \<in> set (split_path (drop (i - seg_len) (take i p)) (cstring_of (drop i p)))"
  using assms
proof (induction p i seg_len rule: has_dotdot_from.induct)
  case (1 p i seg_len)
  note step = has_dotdot_from.simps [of p i seg_len] and seg = ends_dotdot_seg [OF "1.prems"]
  show ?case
  proof (cases "i < length p")
    case True
    then have c: "cstring_of (drop i p) = (if p ! i = 0 then [] else p ! i # cstring_of (drop (i + 1) p))"
      by (simp add: cstring_of_def Cons_nth_drop_Suc [symmetric])
    have "drop (i + 1 - (seg_len + 1)) (take (i + 1) p) = drop (i - seg_len) (take i p) @ [p ! i]"
      using True "1.prems" by (simp add: take_Suc_conv_app_nth)
    then show ?thesis using True "1.IH" "1.prems" seg by (auto simp: step c)
  next
    case False
    then have i: "length p = i" using "1.prems" by simp
    then have "has_dotdot_from p i seg_len \<longleftrightarrow> ends_dotdot p i seg_len"
      using "1.prems" by (auto simp: step ends_dotdot_def)
    then show ?thesis using seg i by (auto simp: cstring_of_def)
  qed
qed

lemma cstring_refused_iff:
  "\<not> cstring_refused bad first p \<longleftrightarrow>
     0 \<in> set p \<and> (first \<longrightarrow> cstring_of p \<noteq> []) \<and> (\<forall>c \<in> set (cstring_of p). \<not> bad c)"
  by (induction p arbitrary: first) (auto simp: cstring_of_def)

lemma page_size_pow2: "PAGE_SIZE \<noteq> 0" "PAGE_SIZE AND (PAGE_SIZE - 1) = 0" "PAGE_SIZE - 1 = mask 12"
  by (simp_all add: PAGE_SIZE_def mask_eq_exp_minus_1)

lemma pages_for_bytes:
  "zig_pages_for_bytes_ok bytes PAGE_SIZE =
     (if 2 ^ 64 \<le> unat bytes + 4095 then None
      else Some (of_nat (4096 * ((unat bytes + 4095) div 4096)), of_nat ((unat bytes + 4095) div 4096)))"
proof (cases "bytes = 0 \<or> 2 ^ 64 \<le> unat bytes + 4095")
  case True
  then show ?thesis
    by (auto simp: zig_pages_for_bytes_ok_def zig_u64_add_ok_def Let_def page_size_pow2(2) PAGE_SIZE_def)
next
  case False
  let ?n = "(unat bytes + 4095) div 4096"
  let ?a = "(bytes + (PAGE_SIZE - 1)) AND NOT (PAGE_SIZE - 1)"
  have "unat (bytes + 4095) = unat bytes + 4095" using False by (simp add: unat_word_ariths)
  then have u: "unat ?a = 4096 * ?n"
    using unat_and_not_mask [of "bytes + 4095" 12] by (simp add: PAGE_SIZE_def mask_eq_exp_minus_1)
  then have a: "?a = of_nat (4096 * ?n)" by (metis word_of_nat_unat_self)
  have "unat bytes \<le> 4096 * ?n" by linarith
  then have lt: "\<not> ?a < bytes" using u by (simp add: word_less_nat_alt)
  have "unat (?a mod PAGE_SIZE) = 0" "unat (?a div PAGE_SIZE) = ?n"
    by (simp_all only: unat_mod_distrib unat_div_distrib u) (simp_all add: PAGE_SIZE_def)
  then have md: "?a mod PAGE_SIZE = 0" "?a div PAGE_SIZE = of_nat ?n"
    by (metis unat_eq_zero, metis word_of_nat_unat_self)
  have "unat (PAGE_SIZE - 1) = 4095" by (simp add: PAGE_SIZE_def)
  then show ?thesis
    using False lt md
    by (simp add: zig_pages_for_bytes_ok_def zig_u64_add_ok_def Let_def page_size_pow2(1,2) a)
qed

section \<open>Properties\<close>

text \<open>Rounding a byte count to pages is exact: it is refused only when the rounding overflows,
  and otherwise gives the least number of pages that hold the bytes.\<close>

theorem zig_pages_exact:
  "case zig_pages_for_bytes_ok bytes PAGE_SIZE of
     None \<Rightarrow> 2 ^ 64 \<le> unat bytes + 4095
   | Some (aligned, pages) \<Rightarrow> unat aligned = 4096 * unat pages \<and> unat bytes \<le> unat aligned \<and>
       unat aligned < unat bytes + 4096"
proof -
  let ?n = "(unat bytes + 4095) div 4096"
  have "4096 * ?n < 2 ^ 64 \<and> ?n < 2 ^ 64" if "\<not> 2 ^ 64 \<le> unat bytes + 4095" using that by linarith
  then show ?thesis by (auto simp: pages_for_bytes simp del: of_nat_mult)
qed



end
