(* ===== verification/Slab.thy ===== *)
theory Slab
  imports PhysMem KString Support
begin

text \<open>
  The kernel heap \<^verbatim>\<open>kernel/mm/kmalloc.c\<close>: slab caches over the page allocator, the size classes of
  \<^verbatim>\<open>kmalloc\<close>, and the early bump allocator. Cache and slab structures are kept in stores indexed by
  their address (0 is \<^verbatim>\<open>NULL\<close>); the list of a slab is the list of cache and slab addresses it
  links; the bytes of the objects are the memory of the string library. The heap is refined to the
  set of live objects.
\<close>

section \<open>State\<close>

record slab =
  base :: u64
  inuse :: u32
  free_idx :: u32
  freelist :: "u32 list"
  slab_cache :: u64

record kmem_cache =
  object_size :: u64
  aligned_size :: u64
  align :: u64
  cache_flags :: u32
  objects_per_slab :: u32
  slab_size :: u64
  ctor :: "(u64 \<Rightarrow> mem \<Rightarrow> mem) option"
  dtor :: "(u64 \<Rightarrow> mem \<Rightarrow> mem) option"
  slabs_full :: "u64 list"
  slabs_partial :: "u64 list"
  slabs_free :: "u64 list"
  total_objects :: u64
  active_objects :: u64
  total_slabs :: u64

record heap =
  frames :: pmm
  caches :: "u64 \<Rightarrow> kmem_cache"
  slabs :: "u64 \<Rightarrow> slab"
  cache_list :: "u64 list"
  size_caches :: "u64 list"
  total_allocated :: u64
  total_freed :: u64
  early_heap_start :: u64
  early_heap_end :: u64
  early_heap_current :: u64
  slab_initialized :: bool
  memory :: mem

definition size_classes :: "u64 list" where
  "size_classes = [8, 16, 32, 64, 128, 256, 512, 1024, 2048, 4096, 8192]"

definition SLAB_HWCACHE_ALIGN :: u32 where "SLAB_HWCACHE_ALIGN = 1"

text \<open>\<^verbatim>\<open>sizeof(struct slab)\<close> and \<^verbatim>\<open>sizeof(struct kmem_cache)\<close>.\<close>

definition sizeof_slab :: u64 where "sizeof_slab = 48"
definition sizeof_kmem_cache :: u64 where "sizeof_kmem_cache = 160"

definition upd_cache :: "u64 \<Rightarrow> (kmem_cache \<Rightarrow> kmem_cache) \<Rightarrow> heap \<Rightarrow> heap" where
  "upd_cache c f h = h\<lparr>caches := (caches h)(c := f (caches h c))\<rparr>"

definition upd_slab :: "u64 \<Rightarrow> (slab \<Rightarrow> slab) \<Rightarrow> heap \<Rightarrow> heap" where
  "upd_slab a f h = h\<lparr>slabs := (slabs h)(a := f (slabs h a))\<rparr>"

section \<open>Early allocator\<close>

text \<open>A panic is \<^const>\<open>None\<close>.\<close>

definition early_heap_init :: "heap \<Rightarrow> heap option" where
  "early_heap_init h =
     (let (p, phys) = pmm_alloc_pages 256 (frames h); start = PHYS_TO_VIRT phys
      in if start = 0 then None
         else Some (h\<lparr>frames := p, early_heap_start := start,
           early_heap_end := start + 256 * PAGE_SIZE, early_heap_current := start\<rparr>))"

definition early_alloc :: "u64 \<Rightarrow> heap \<Rightarrow> heap \<times> u64" where
  "early_alloc sz h =
     (let sz = ALIGN_UP sz 16
      in if early_heap_current h + sz > early_heap_end h then (h, 0)
         else let ptr = early_heap_current h
           in (h\<lparr>early_heap_current := early_heap_current h + sz,
                memory := memset (memory h) ptr 0 (unat sz)\<rparr>, ptr))"

section \<open>Slabs\<close>

definition calc_objects_per_slab :: "u64 \<Rightarrow> u64 \<Rightarrow> u32" where
  "calc_objects_per_slab obj_size slab_sz = ucast ((slab_sz - sizeof_slab) div (obj_size + 4))"

definition init_freelist :: "u32 \<Rightarrow> u32 list" where
  "init_freelist n = (map (\<lambda>i. of_nat (i + 1)) [0..<unat n])[unat (n - 1) := - 1]"

definition slab_create :: "u64 \<Rightarrow> heap \<Rightarrow> heap \<times> u64" where
  "slab_create c h =
     (let cache = caches h c;
          pages = slab_size cache div PAGE_SIZE;
          (p, phys) = pmm_alloc_pages pages (frames h)
      in if phys = 0 then (h\<lparr>frames := p\<rparr>, 0)
         else
           let a = PHYS_TO_VIRT phys;
               p = fold (\<lambda>i p. let page_phys = phys + of_nat i * PAGE_SIZE
                 in pmm_page_update_flags page_phys (PAGE_FLAG_SLAB OR PAGE_FLAG_KERNEL) 0
                      (pmm_page_set_owner page_phys PAGE_OWNER_SLAB p)) [0..<unat pages] p;
               n = objects_per_slab cache;
               b = a + sizeof_slab;
               m = (case ctor cache of None \<Rightarrow> memory h
                    | Some f \<Rightarrow> fold (\<lambda>i. f (b + of_nat i * aligned_size cache)) [0..<unat n] (memory h))
           in (upd_cache c (\<lambda>k. k\<lparr>total_slabs := total_slabs k + 1,
                   total_objects := total_objects k + ucast n\<rparr>)
                 (h\<lparr>frames := p, memory := m,
                    slabs := (slabs h)(a := \<lparr> base = b, inuse = 0, free_idx = 0,
                      freelist = init_freelist n, slab_cache = c \<rparr>)\<rparr>),
               a))"

definition slab_destroy :: "u64 \<Rightarrow> u64 \<Rightarrow> heap \<Rightarrow> heap" where
  "slab_destroy c a h =
     (let cache = caches h c;
          n = objects_per_slab cache;
          m = (case dtor cache of None \<Rightarrow> memory h
               | Some f \<Rightarrow> fold (\<lambda>i. f (base (slabs h a) + of_nat i * aligned_size cache)) [0..<unat n] (memory h));
          phys = VIRT_TO_PHYS a;
          pages = slab_size cache div PAGE_SIZE;
          p = fold (\<lambda>i. pmm_page_update_flags (phys + of_nat i * PAGE_SIZE) 0 PAGE_FLAG_SLAB)
                [0..<unat pages] (frames h);
          p = pmm_free_pages phys pages p
      in upd_cache c (\<lambda>k. k\<lparr>total_slabs := total_slabs k - 1,
             total_objects := total_objects k - ucast n\<rparr>) (h\<lparr>frames := p, memory := m\<rparr>))"

definition slab_alloc_obj :: "u64 \<Rightarrow> heap \<Rightarrow> heap \<times> u64" where
  "slab_alloc_obj a h =
     (let s = slabs h a
      in if free_idx s = - 1 then (h, 0)
         else let idx = free_idx s
           in (upd_slab a (\<lambda>s. s\<lparr>free_idx := freelist s ! unat idx, inuse := inuse s + 1\<rparr>) h,
               base s + ucast idx * aligned_size (caches h (slab_cache s))))"

definition slab_free_obj :: "u64 \<Rightarrow> u64 \<Rightarrow> heap \<Rightarrow> heap" where
  "slab_free_obj a obj h =
     (let s = slabs h a;
          offset = obj - base s;
          idx = ucast (offset div aligned_size (caches h (slab_cache s))) :: u32
      in upd_slab a (\<lambda>s. s\<lparr>freelist := (freelist s)[unat idx := free_idx s], free_idx := idx,
           inuse := inuse s - 1\<rparr>) h)"

definition slab_contains_obj :: "heap \<Rightarrow> u64 \<Rightarrow> u64 \<Rightarrow> u64 \<Rightarrow> bool" where
  "slab_contains_obj h c a obj =
     (if c = 0 \<or> a = 0 \<or> obj = 0 then False
      else let start = base (slabs h a);
               fin = start + ucast (objects_per_slab (caches h c)) * aligned_size (caches h c)
        in if obj < start \<or> fin \<le> obj then False
           else (obj - start) mod aligned_size (caches h c) = 0)"

definition find_slab_in_list :: "heap \<Rightarrow> u64 \<Rightarrow> u64 list \<Rightarrow> u64 \<Rightarrow> u64 option" where
  "find_slab_in_list h c lst obj = find (\<lambda>a. slab_contains_obj h c a obj) lst"

definition find_slab_in_cache :: "heap \<Rightarrow> u64 \<Rightarrow> u64 \<Rightarrow> u64 option" where
  "find_slab_in_cache h c obj =
     (case find_slab_in_list h c (slabs_partial (caches h c)) obj of Some a \<Rightarrow> Some a
      | None \<Rightarrow>
          (case find_slab_in_list h c (slabs_full (caches h c)) obj of Some a \<Rightarrow> Some a
           | None \<Rightarrow> find_slab_in_list h c (slabs_free (caches h c)) obj))"

fun find_owner_cache :: "heap \<Rightarrow> u64 list \<Rightarrow> u64 \<Rightarrow> (u64 \<times> u64) option" where
  "find_owner_cache h [] obj = None"
| "find_owner_cache h (c # cs) obj =
     (case find_slab_in_cache h c obj of Some a \<Rightarrow> Some (c, a) | None \<Rightarrow> find_owner_cache h cs obj)"

definition find_owner_cache_for_obj :: "heap \<Rightarrow> u64 \<Rightarrow> (u64 \<times> u64) option" where
  "find_owner_cache_for_obj h obj = find_owner_cache h (cache_list h) obj"

section \<open>Caches\<close>

text \<open>A slab's list node is in at most one of its cache's lists; \<^verbatim>\<open>list_del\<close> takes it out of that
  one.\<close>

definition slab_list_del :: "u64 \<Rightarrow> kmem_cache \<Rightarrow> kmem_cache" where
  "slab_list_del a k = k\<lparr>slabs_full := remove1 a (slabs_full k),
     slabs_partial := remove1 a (slabs_partial k), slabs_free := remove1 a (slabs_free k)\<rparr>"

text \<open>The slab an allocation is served from: the first partial one, else the first free one, else a
  new one; 0 when there is none.\<close>

definition pick_slab :: "u64 \<Rightarrow> heap \<Rightarrow> heap \<times> u64" where
  "pick_slab c h =
     (case slabs_partial (caches h c) of a # _ \<Rightarrow> (h, a)
      | [] \<Rightarrow>
          (case slabs_free (caches h c) of
             a # _ \<Rightarrow> (upd_cache c (\<lambda>k. let k = slab_list_del a k in k\<lparr>slabs_partial := a # slabs_partial k\<rparr>) h, a)
           | [] \<Rightarrow>
               let (h, a) = slab_create c h
               in if a = 0 then (h, 0)
                  else (upd_cache c (\<lambda>k. k\<lparr>slabs_partial := a # slabs_partial k\<rparr>) h, a)))"

definition alloc_in_slab :: "u64 \<Rightarrow> u64 \<Rightarrow> heap \<Rightarrow> heap \<times> u64" where
  "alloc_in_slab c a h =
     (let (h, obj) = slab_alloc_obj a h;
          h = upd_cache c (\<lambda>k. k\<lparr>active_objects := active_objects k + 1\<rparr>) h;
          h = h\<lparr>total_allocated := total_allocated h + object_size (caches h c)\<rparr>;
          h = (if inuse (slabs h a) = objects_per_slab (caches h c)
               then upd_cache c (\<lambda>k. let k = slab_list_del a k in k\<lparr>slabs_full := a # slabs_full k\<rparr>) h
               else h)
      in (h, obj))"

definition kmem_cache_alloc :: "u64 \<Rightarrow> heap \<Rightarrow> heap \<times> u64" where
  "kmem_cache_alloc c h =
     (let (h, a) = pick_slab c h in if a = 0 then (h, 0) else alloc_in_slab c a h)"

definition kmem_cache_zalloc :: "u64 \<Rightarrow> heap \<Rightarrow> heap \<times> u64" where
  "kmem_cache_zalloc c h =
     (let (h, obj) = kmem_cache_alloc c h
      in if obj \<noteq> 0
         then (h\<lparr>memory := memset (memory h) obj 0 (unat (object_size (caches h c)))\<rparr>, obj)
         else (h, obj))"

text \<open>Freeing a found object: the slab is given by the cache that owns it.\<close>

definition free_in_slab :: "u64 \<Rightarrow> u64 \<Rightarrow> u64 \<Rightarrow> heap \<Rightarrow> heap" where
  "free_in_slab c a obj h =
     (if inuse (slabs h a) = 0 then h
      else
        let was_full = (inuse (slabs h a) = objects_per_slab (caches h c));
            h = slab_free_obj a obj h;
            h = upd_cache c (\<lambda>k. if active_objects k > 0 then k\<lparr>active_objects := active_objects k - 1\<rparr> else k) h;
            h = h\<lparr>total_freed := total_freed h + object_size (caches h c)\<rparr>
        in if was_full
           then upd_cache c (\<lambda>k. let k = slab_list_del a k in k\<lparr>slabs_partial := a # slabs_partial k\<rparr>) h
           else if inuse (slabs h a) = 0
           then upd_cache c (\<lambda>k. let k = slab_list_del a k in k\<lparr>slabs_free := a # slabs_free k\<rparr>) h
           else h)"

definition kmem_cache_free :: "u64 \<Rightarrow> u64 \<Rightarrow> heap \<Rightarrow> heap" where
  "kmem_cache_free c obj h =
     (if c = 0 \<or> obj = 0 then h
      else if aligned_size (caches h c) = 0 \<or> objects_per_slab (caches h c) = 0 then h
      else case find_slab_in_cache h c obj of
          Some a \<Rightarrow> free_in_slab c a obj h
        | None \<Rightarrow>
            (case find_owner_cache_for_obj h obj of None \<Rightarrow> h
             | Some (c', a) \<Rightarrow> free_in_slab c' a obj h))"

definition destroy_listed :: "u64 \<Rightarrow> u64 list \<Rightarrow> heap \<Rightarrow> heap" where
  "destroy_listed c lst h = fold (\<lambda>a h. slab_destroy c a (upd_cache c (slab_list_del a) h)) lst h"

definition kmem_cache_shrink :: "u64 \<Rightarrow> heap \<Rightarrow> heap \<times> nat" where
  "kmem_cache_shrink c h =
     (destroy_listed c (slabs_free (caches h c)) h, length (slabs_free (caches h c)))"

section \<open>General purpose allocation\<close>

fun size_class_from :: "u64 list \<Rightarrow> nat \<Rightarrow> u64 \<Rightarrow> nat option" where
  "size_class_from [] i sz = None"
| "size_class_from (k # ks) i sz = (if sz \<le> k then Some i else size_class_from ks (i + 1) sz)"

definition find_size_class :: "u64 \<Rightarrow> nat option" where
  "find_size_class sz = size_class_from size_classes 0 sz"

definition kmalloc_large :: "u64 \<Rightarrow> heap \<Rightarrow> heap \<times> u64" where
  "kmalloc_large sz h =
     (let (need, ov) = zig_u64_add_ok sz 8
      in if ov then (h, 0)
         else case zig_pages_for_bytes_ok need PAGE_SIZE of None \<Rightarrow> (h, 0)
           | Some (aligned, pages) \<Rightarrow>
               let (p, phys) = pmm_alloc_pages pages (frames h)
               in if phys = 0 then (h\<lparr>frames := p\<rparr>, 0)
                  else let ptr = PHYS_TO_VIRT phys
                    in (h\<lparr>frames := p, memory := store64 (memory h) ptr sz\<rparr>, ptr + 8))"

definition kmalloc :: "u64 \<Rightarrow> heap \<Rightarrow> heap \<times> u64" where
  "kmalloc sz h =
     (if \<not> slab_initialized h then early_alloc sz h
      else if sz = 0 then (h, 0)
      else case find_size_class sz of
          Some class \<Rightarrow> kmem_cache_alloc (size_caches h ! class) h
        | None \<Rightarrow> kmalloc_large sz h)"

definition kzalloc :: "u64 \<Rightarrow> heap \<Rightarrow> heap \<times> u64" where
  "kzalloc sz h =
     (let (h, ptr) = kmalloc sz h
      in if ptr \<noteq> 0 then (h\<lparr>memory := memset (memory h) ptr 0 (unat sz)\<rparr>, ptr) else (h, ptr))"

definition kcalloc :: "u64 \<Rightarrow> u64 \<Rightarrow> heap \<Rightarrow> heap \<times> u64" where
  "kcalloc n sz h =
     (let (total_sz, ov) = zig_u64_mul_ok n sz in if ov then (h, 0) else kzalloc total_sz h)"

text \<open>The loop over the size classes in \<^verbatim>\<open>kfree\<close> and in \<^verbatim>\<open>kmalloc_usable_size\<close> returns in its
  first round; what follows it runs only if there were no size classes.\<close>

definition kfree :: "u64 \<Rightarrow> heap \<Rightarrow> heap" where
  "kfree ptr h =
     (if ptr = 0 then h
      else if \<not> slab_initialized h then h
      else case size_caches h of
          c # _ \<Rightarrow> kmem_cache_free c ptr h
        | [] \<Rightarrow>
            let size_ptr = ptr - 8; sz = load64 (memory h) size_ptr
            in case zig_pages_for_bytes_ok (sz + 8) PAGE_SIZE of None \<Rightarrow> h
               | Some (aligned, pages) \<Rightarrow>
                   h\<lparr>frames := pmm_free_pages (VIRT_TO_PHYS size_ptr) pages (frames h)\<rparr>)"

definition kmalloc_usable_size :: "u64 \<Rightarrow> heap \<Rightarrow> u64" where
  "kmalloc_usable_size ptr h =
     (if ptr = 0 then 0
      else case size_classes of k # _ \<Rightarrow> k | [] \<Rightarrow> load64 (memory h) (ptr - 8))"

definition krealloc :: "u64 \<Rightarrow> u64 \<Rightarrow> heap \<Rightarrow> heap \<times> u64" where
  "krealloc ptr sz h =
     (if ptr = 0 then kmalloc sz h
      else if sz = 0 then (kfree ptr h, 0)
      else
        let (h, new_ptr) = kmalloc sz h
        in if new_ptr = 0 then (h, 0)
           else
             let old_size = kmalloc_usable_size ptr h;
                 h = h\<lparr>memory := memcpy (memory h) new_ptr ptr (unat (min old_size sz))\<rparr>
             in (kfree ptr h, new_ptr))"

section \<open>Creation and destruction of caches\<close>

definition kmem_cache_create ::
  "u64 \<Rightarrow> u64 \<Rightarrow> u32 \<Rightarrow> (u64 \<Rightarrow> mem \<Rightarrow> mem) option \<Rightarrow> heap \<Rightarrow> heap \<times> u64" where
  "kmem_cache_create sz al fl ct h =
     (let (h, c) = (if slab_initialized h then kmalloc sizeof_kmem_cache h
                    else early_alloc sizeof_kmem_cache h)
      in if c = 0 then (h, 0)
         else
           let al = (if al < 8 then 8 else al);
               al = (if fl AND SLAB_HWCACHE_ALIGN \<noteq> 0 then max al 64 else al);
               asz = ALIGN_UP sz al;
               ssz = (if asz \<le> PAGE_SIZE div 8 then PAGE_SIZE
                      else if asz \<le> PAGE_SIZE then PAGE_SIZE * 2
                      else ALIGN_UP (asz + sizeof_slab) PAGE_SIZE);
               n = calc_objects_per_slab asz ssz;
               h = upd_cache c (\<lambda>k. k\<lparr>object_size := sz, aligned_size := asz, align := al,
                     cache_flags := fl, ctor := ct, dtor := None, slab_size := ssz,
                     objects_per_slab := n\<rparr>) h
           in if n = 0 then (h, 0)
              else
                (let h = upd_cache c (\<lambda>k. k\<lparr>slabs_full := [], slabs_partial := [], slabs_free := [],
                       total_objects := 0, active_objects := 0, total_slabs := 0\<rparr>) h
                 in (h\<lparr>cache_list := c # cache_list h\<rparr>, c)))"

definition kmem_cache_destroy :: "u64 \<Rightarrow> heap \<Rightarrow> heap" where
  "kmem_cache_destroy c h =
     (let h = destroy_listed c (slabs_full (caches h c)) h;
          h = destroy_listed c (slabs_partial (caches h c)) h;
          h = destroy_listed c (slabs_free (caches h c)) h;
          h = h\<lparr>cache_list := remove1 c (cache_list h)\<rparr>
      in kfree c h)"

fun create_size_caches :: "u64 list \<Rightarrow> heap \<Rightarrow> heap option" where
  "create_size_caches [] h = Some h"
| "create_size_caches (k # ks) h =
     (let (h, c) = kmem_cache_create k 8 0 None h
      in if c = 0 then None
         else create_size_caches ks (h\<lparr>size_caches := size_caches h @ [c]\<rparr>))"

definition kmalloc_init :: "heap \<Rightarrow> heap option" where
  "kmalloc_init h =
     (case early_heap_init h of None \<Rightarrow> None
      | Some h \<Rightarrow>
          (case create_size_caches size_classes (h\<lparr>size_caches := []\<rparr>) of None \<Rightarrow> None
           | Some h \<Rightarrow> Some (h\<lparr>slab_initialized := True\<rparr>)))"

section \<open>The free list of a slab\<close>

text \<open>The indices reached from an index through the free list, up to the end marker.\<close>

fun free_chain :: "u32 list \<Rightarrow> u32 \<Rightarrow> nat list \<Rightarrow> bool" where
  "free_chain fl i [] \<longleftrightarrow> i = - 1"
| "free_chain fl i (x # xs) \<longleftrightarrow> i \<noteq> - 1 \<and> unat i = x \<and> x < length fl \<and> free_chain fl (fl ! x) xs"

fun follow :: "u32 list \<Rightarrow> u32 \<Rightarrow> nat \<Rightarrow> nat list" where
  "follow fl i 0 = []"
| "follow fl i (Suc k) =
     (if i = - 1 \<or> length fl \<le> unat i then [] else unat i # follow fl (fl ! unat i) k)"

definition free_objs :: "slab \<Rightarrow> nat list" where
  "free_objs s = follow (freelist s) (free_idx s) (length (freelist s))"

text \<open>A slab of \<^verbatim>\<open>n\<close> objects whose free list is sound and whose use count agrees with it.\<close>

definition slab_ok :: "u32 \<Rightarrow> slab \<Rightarrow> bool" where
  "slab_ok n s \<longleftrightarrow> length (freelist s) = unat n \<and> n \<noteq> 0 \<and> n \<noteq> - 1 \<and>
     free_chain (freelist s) (free_idx s) (free_objs s) \<and> distinct (free_objs s) \<and>
     unat (inuse s) + length (free_objs s) = unat n"

definition used_objs :: "slab \<Rightarrow> nat set" where
  "used_objs s = {..<length (freelist s)} - set (free_objs s)"

lemma free_chain_follow: "free_chain fl i xs \<Longrightarrow> length xs \<le> k \<Longrightarrow> follow fl i k = xs"
proof (induction xs arbitrary: i k)
  case Nil
  then show ?case by (cases k) simp_all
next
  case (Cons x xs)
  then show ?case by (cases k) auto
qed

lemma free_chain_bounded: "free_chain fl i xs \<Longrightarrow> set xs \<subseteq> {..<length fl}"
  by (induction xs arbitrary: i) auto

lemma free_chain_upd: "x \<notin> set xs \<Longrightarrow> free_chain (fl[x := v]) i xs = free_chain fl i xs"
  by (induction xs arbitrary: i) auto

lemma distinct_bounded_length: "distinct xs \<Longrightarrow> set xs \<subseteq> {..<n} \<Longrightarrow> length xs \<le> (n :: nat)"
  using card_mono [of "{..<n}" "set xs"] distinct_card [of xs] by simp

text \<open>It is enough to exhibit a chain.\<close>

lemma slab_okI:
  assumes "free_chain (freelist s) (free_idx s) xs" and "distinct xs"
    and "length (freelist s) = unat n" "n \<noteq> 0" "n \<noteq> - 1" "unat (inuse s) + length xs = unat n"
  shows "slab_ok n s" and "free_objs s = xs"
proof -
  have "length xs \<le> length (freelist s)"
    using assms(2) free_chain_bounded [OF assms(1)] by (rule distinct_bounded_length)
  then show f: "free_objs s = xs"
    using free_chain_follow [OF assms(1)] by (simp add: free_objs_def)
  then show "slab_ok n s" using assms by (simp add: slab_ok_def)
qed

lemma unat_minus_one_u32: "(i :: u32) = - 1 \<longleftrightarrow> unat i = 2 ^ 32 - 1"
  by (simp add: word_unat_eq_iff unsigned_minus_1_eq_mask mask_eq_exp_minus_1)

lemma unat_u32_bound: "unat (n :: u32) < 2 ^ 32"
  using unsigned_less [of n] by simp

lemma of_nat_u32_neq_minus_one: "k < unat (n :: u32) \<Longrightarrow> (of_nat k :: u32) \<noteq> - 1"
  using unat_u32_bound [of n] by (simp add: unat_minus_one_u32)

lemma init_freelist_nth:
  assumes "n \<noteq> 0" and "k < unat n"
  shows "init_freelist n ! k = (if Suc k = unat n then - 1 else of_nat (Suc k))"
proof -
  have "unat (n - 1) = unat n - 1" using assms(1) by (rule unat_dec)
  then show ?thesis using assms by (auto simp: init_freelist_def nth_list_update)
qed

lemma length_init_freelist [simp]: "length (init_freelist n) = unat n"
  by (simp add: init_freelist_def)

lemma init_freelist_chain:
  assumes "n \<noteq> 0" and "k < unat n"
  shows "free_chain (init_freelist n) (of_nat k) [k..<unat n]"
  using assms(2)
proof (induction "unat n - k" arbitrary: k)
  case (Suc d)
  have k: "k < 2 ^ 32" using Suc.prems unat_u32_bound [of n] by simp
  have "free_chain (init_freelist n) (init_freelist n ! k) [Suc k..<unat n]"
  proof (cases "Suc k = unat n")
    case False
    then have "free_chain (init_freelist n) (of_nat (Suc k)) [Suc k..<unat n]"
      using Suc by (intro Suc.hyps) auto
    then show ?thesis using False Suc.prems by (simp add: init_freelist_nth [OF assms(1)])
  qed (use Suc.prems in \<open>simp add: init_freelist_nth [OF assms(1)]\<close>)
  then show ?case
    using Suc.prems k of_nat_u32_neq_minus_one [OF Suc.prems]
    by (simp add: upt_conv_Cons)
qed simp

lemma slab_new_ok:
  assumes "n \<noteq> 0" and "n \<noteq> - 1"
  shows "slab_ok n \<lparr> base = b, inuse = 0, free_idx = 0, freelist = init_freelist n, slab_cache = c \<rparr> \<and>
    used_objs \<lparr> base = b, inuse = 0, free_idx = 0, freelist = init_freelist n, slab_cache = c \<rparr> = {}"
proof -
  have "0 < unat n" using assms(1) by (simp add: unat_gt_0)
  then have "free_chain (init_freelist n) 0 [0..<unat n]"
    using init_freelist_chain [OF assms(1), of 0] by simp
  then show ?thesis
    using slab_okI [of "\<lparr> base = b, inuse = 0, free_idx = 0, freelist = init_freelist n, slab_cache = c \<rparr>"
        "[0..<unat n]" n] assms
    by (auto simp: used_objs_def)
qed

text \<open>Taking the first free object and putting an object back.\<close>

lemma slab_pop:
  assumes ok: "slab_ok n s" and lt: "unat (inuse s) < unat n"
  defines "s' \<equiv> s\<lparr>free_idx := freelist s ! unat (free_idx s), inuse := inuse s + 1\<rparr>"
  shows "free_idx s \<noteq> - 1 \<and> unat (free_idx s) < unat n \<and> unat (free_idx s) \<notin> used_objs s \<and>
    slab_ok n s' \<and> used_objs s' = insert (unat (free_idx s)) (used_objs s)"
proof -
  have "free_objs s \<noteq> []" using ok lt by (auto simp: slab_ok_def)
  then obtain x xs where f: "free_objs s = x # xs" by (cases "free_objs s") auto
  then have x: "free_idx s \<noteq> - 1" "unat (free_idx s) = x" "x < unat n" "x \<notin> set xs" "distinct xs"
    "free_chain (freelist s) (freelist s ! x) xs"
    using ok by (auto simp: slab_ok_def)
  have "unat (inuse s + 1) = unat (inuse s) + 1"
    using lt unat_u32_bound [of n] by simp
  then have s': "slab_ok n s'" "free_objs s' = xs"
    using slab_okI [of s' xs n] ok x f by (auto simp: s'_def slab_ok_def)
  have "used_objs s' = insert x (used_objs s)"
    using s'(2) f x ok by (auto simp: used_objs_def s'_def slab_ok_def)
  then show ?thesis using x f s'(1) by (simp add: used_objs_def)
qed

lemma slab_push:
  assumes ok: "slab_ok n s" and x: "x \<in> used_objs s" and xi: "unat idx = x"
  defines "s' \<equiv> s\<lparr>freelist := (freelist s)[x := free_idx s], free_idx := idx, inuse := inuse s - 1\<rparr>"
  shows "0 < unat (inuse s) \<and> unat (inuse s') = unat (inuse s) - 1 \<and> slab_ok n s' \<and>
    used_objs s' = used_objs s - {x}"
proof -
  have len: "length (freelist s) = unat n" using ok by (simp add: slab_ok_def)
  have xs: "x < unat n" "x \<notin> set (free_objs s)" using x len by (auto simp: used_objs_def)
  have "set (x # free_objs s) \<subseteq> {..<unat n}"
    using xs free_chain_bounded ok len by (fastforce simp: slab_ok_def)
  then have "length (x # free_objs s) \<le> unat n"
    using ok xs by (intro distinct_bounded_length) (auto simp: slab_ok_def)
  then have pos: "0 < unat (inuse s)" using ok by (simp add: slab_ok_def)
  then have dec: "unat (inuse s - 1) = unat (inuse s) - 1" by (intro unat_dec) auto
  have "idx \<noteq> - 1" using xs xi unat_u32_bound [of n] ok by (auto simp: unat_minus_one_u32 slab_ok_def)
  then have "free_chain (freelist s') (free_idx s') (x # free_objs s)"
    using xs xi ok len by (simp add: s'_def slab_ok_def free_chain_upd)
  then have s': "slab_ok n s'" "free_objs s' = x # free_objs s"
    using slab_okI [of s' "x # free_objs s" n] ok xs pos dec by (auto simp: s'_def slab_ok_def)
  then show ?thesis using pos dec by (auto simp: used_objs_def s'_def)
qed

section \<open>Layout and heap invariant\<close>

definition slabs_of :: "kmem_cache \<Rightarrow> u64 list" where
  "slabs_of k = slabs_full k @ slabs_partial k @ slabs_free k"

text \<open>The header, the objects and the free list fit in the pages of a slab.\<close>

definition layout_ok :: "kmem_cache \<Rightarrow> bool" where
  "layout_ok k \<longleftrightarrow> aligned_size k \<noteq> 0 \<and> objects_per_slab k \<noteq> 0 \<and> objects_per_slab k \<noteq> - 1 \<and>
     unat (slab_size k) mod 4096 = 0 \<and>
     48 + unat (objects_per_slab k) * (unat (aligned_size k) + 4) \<le> unat (slab_size k)"

text \<open>The page frames a slab occupies, and the address of its \<^verbatim>\<open>i\<close>-th object.\<close>

definition slab_frames :: "kmem_cache \<Rightarrow> u64 \<Rightarrow> nat set" where
  "slab_frames k a = page_frames (VIRT_TO_PHYS a) (slab_size k div PAGE_SIZE)"

definition obj_at :: "kmem_cache \<Rightarrow> u64 \<Rightarrow> nat \<Rightarrow> u64" where
  "obj_at k a i = a + sizeof_slab + of_nat i * aligned_size k"

text \<open>The lists of a cache hold its slabs by use: full ones, ones with room, empty ones.\<close>

definition cache_inv :: "(u64 \<Rightarrow> slab) \<Rightarrow> u64 \<Rightarrow> kmem_cache \<Rightarrow> bool" where
  "cache_inv S c k \<longleftrightarrow> layout_ok k \<and> distinct (slabs_of k) \<and>
     (\<forall>a \<in> set (slabs_full k). inuse (S a) = objects_per_slab k) \<and>
     (\<forall>a \<in> set (slabs_partial k). unat (inuse (S a)) < unat (objects_per_slab k)) \<and>
     (\<forall>a \<in> set (slabs_free k). inuse (S a) = 0) \<and>
     (\<forall>a \<in> set (slabs_of k). slab_ok (objects_per_slab k) (S a) \<and> slab_cache (S a) = c \<and>
        base (S a) = a + sizeof_slab)"

text \<open>The slabs of a heap with their caches. Each owns page frames that are in use and that no other
  slab owns.\<close>

definition heap_slabs :: "heap \<Rightarrow> (u64 \<times> u64) set" where
  "heap_slabs h = {(c, a). c \<in> set (cache_list h) \<and> a \<in> set (slabs_of (caches h c))}"

definition slab_placed :: "pmm \<Rightarrow> kmem_cache \<Rightarrow> u64 \<Rightarrow> bool" where
  "slab_placed p k a \<longleftrightarrow> slab_frames k a \<subseteq> managed p - free_frames p \<and> 0 \<notin> slab_frames k a \<and>
     unat (VIRT_TO_PHYS a) mod 4096 = 0"

definition heap_inv :: "heap \<Rightarrow> bool" where
  "heap_inv h \<longleftrightarrow> pmm_ok (frames h) \<and> distinct (cache_list h) \<and> 0 \<notin> set (cache_list h) \<and>
     (\<forall>c \<in> set (cache_list h). cache_inv (slabs h) c (caches h c)) \<and>
     (\<forall>c a. (c, a) \<in> heap_slabs h \<longrightarrow> slab_placed (frames h) (caches h c) a) \<and>
     (\<forall>c a c' a'. (c, a) \<in> heap_slabs h \<longrightarrow> (c', a') \<in> heap_slabs h \<longrightarrow> (c, a) \<noteq> (c', a') \<longrightarrow>
        slab_frames (caches h c) a \<inter> slab_frames (caches h c') a' = {})"

text \<open>The allocated objects.\<close>

definition live_objs :: "heap \<Rightarrow> (u64 \<times> u64 \<times> nat) set" where
  "live_objs h = {(c, a, i). (c, a) \<in> heap_slabs h \<and> i \<in> used_objs (slabs h a)}"

definition live :: "heap \<Rightarrow> u64 set" where
  "live h = (\<lambda>(c, a, i). obj_at (caches h c) a i) ` live_objs h"

lemma pmm_managed_bound: "pmm_ok p \<Longrightarrow> managed p \<subseteq> {..<0x100000}"
proof -
  assume "pmm_ok p"
  then have "\<forall>i<3. zone_frames (zones p ! i) \<subseteq> {..<0x100000}"
    by (simp add: pmm_ok_def pmm_inv_def bitmap_words_32)
  then show ?thesis unfolding managed_def by blast
qed

lemma slab_frames_nat:
  assumes "unat (slab_size k) mod 4096 = 0" and "unat (VIRT_TO_PHYS a) mod 4096 = 0"
  shows "slab_frames k a = {j. unat (VIRT_TO_PHYS a) \<le> 4096 * j \<and>
    4096 * j < unat (VIRT_TO_PHYS a) + unat (slab_size k)}"
proof -
  obtain p where p: "unat (VIRT_TO_PHYS a) = 4096 * p" using assms(2) by (metis mult_div_mod_eq add.right_neutral)
  obtain q where q: "unat (slab_size k) = 4096 * q" using assms(1) by (metis mult_div_mod_eq add.right_neutral)
  have "unat (phys_to_pfn (VIRT_TO_PHYS a)) = p" "unat (slab_size k div PAGE_SIZE) = q"
    by (simp_all add: phys_to_pfn_def PAGE_SHIFT_def drop_bit_eq_div unat_div_distrib p q PAGE_SIZE_def)
  then show ?thesis by (auto simp: slab_frames_def page_frames_def p q)
qed

text \<open>A placed slab lies below the end of the direct map, so its addresses do not wrap.\<close>

lemma slab_address:
  assumes lay: "layout_ok k" and pl: "slab_placed p k a" and ok: "pmm_ok p"
  shows "unat a = unat KERNEL_PHYS_MAP_BASE + unat (VIRT_TO_PHYS a) \<and>
    unat (VIRT_TO_PHYS a) + unat (slab_size k) \<le> 0x100000 * 4096"
proof -
  let ?f = "unat (VIRT_TO_PHYS a)"
  have m: "unat (slab_size k) mod 4096 = 0" "?f mod 4096 = 0"
    using lay pl by (simp_all add: layout_ok_def slab_placed_def)
  obtain x where x: "?f = 4096 * x" using m(2) by (metis mult_div_mod_eq add.right_neutral)
  obtain y where y: "unat (slab_size k) = 4096 * y" using m(1) by (metis mult_div_mod_eq add.right_neutral)
  have "0 < unat (slab_size k)" using lay by (simp add: layout_ok_def)
  then have "x + y - 1 \<in> slab_frames k a"
    using y by (auto simp: slab_frames_nat [OF m] x)
  then have "x + y - 1 < 0x100000"
    using pl pmm_managed_bound [OF ok] by (auto simp: slab_placed_def)
  then have le: "?f + unat (slab_size k) \<le> 0x100000 * 4096" by (simp add: x y)
  have "a = VIRT_TO_PHYS a + KERNEL_PHYS_MAP_BASE" by (simp add: VIRT_TO_PHYS_def)
  moreover have "unat (VIRT_TO_PHYS a + KERNEL_PHYS_MAP_BASE) = ?f + unat KERNEL_PHYS_MAP_BASE"
    using le by (simp add: unat_word_ariths KERNEL_PHYS_MAP_BASE_def)
  ultimately show ?thesis using le by simp
qed

lemma layout_bound:
  assumes "layout_ok k" and "i < unat (objects_per_slab k)"
  shows "48 + i * unat (aligned_size k) + unat (aligned_size k) \<le> unat (slab_size k)"
proof -
  have "Suc i * unat (aligned_size k) \<le> unat (objects_per_slab k) * (unat (aligned_size k) + 4)"
    using assms(2) by (intro mult_le_mono) auto
  then show ?thesis using assms(1) by (simp add: layout_ok_def)
qed

lemma obj_address:
  assumes lay: "layout_ok k" and pl: "slab_placed p k a" and ok: "pmm_ok p"
    and i: "i < unat (objects_per_slab k)"
  shows "unat (obj_at k a i) = unat a + 48 + i * unat (aligned_size k)"
proof -
  have b: "unat a + unat (slab_size k) < 2 ^ 64"
    using slab_address [OF lay pl ok] by (simp add: KERNEL_PHYS_MAP_BASE_def)
  have le: "48 + i * unat (aligned_size k) + unat (aligned_size k) \<le> unat (slab_size k)"
    by (rule layout_bound [OF lay i])
  have i64: "i < 2 ^ 64" using i unat_u32_bound [of "objects_per_slab k"] by simp
  have m: "unat (of_nat i * aligned_size k) = i * unat (aligned_size k)"
    using le b i64 by (simp add: unat_word_ariths)
  have "unat (a + sizeof_slab) = unat a + 48" using le b by (simp add: sizeof_slab_def unat_word_ariths)
  then show ?thesis using m le b unfolding obj_at_def by (simp add: unat_word_ariths)
qed

lemma obj_frame:
  assumes lay: "layout_ok k" and pl: "slab_placed p k a" and ok: "pmm_ok p"
    and i: "i < unat (objects_per_slab k)"
    and x: "unat (obj_at k a i) \<le> x" "x < unat (obj_at k a i) + unat (aligned_size k)"
  shows "(x - unat KERNEL_PHYS_MAP_BASE) div 4096 \<in> slab_frames k a"
proof -
  let ?f = "unat (VIRT_TO_PHYS a)" and ?y = "x - unat KERNEL_PHYS_MAP_BASE"
  have m: "unat (slab_size k) mod 4096 = 0" "?f mod 4096 = 0"
    using lay pl by (simp_all add: layout_ok_def slab_placed_def)
  have "?f \<le> ?y" "?y < ?f + unat (slab_size k)"
    using x obj_address [OF lay pl ok i] slab_address [OF lay pl ok] layout_bound [OF lay i] by linarith+
  moreover have "4096 * (?y div 4096) \<le> ?y" by simp
  moreover have "?f \<le> 4096 * (?y div 4096)"
    using \<open>?f \<le> ?y\<close> m(2) by (metis div_le_mono mult_div_mod_eq add.right_neutral mult_le_mono2)
  ultimately show ?thesis by (simp add: slab_frames_nat [OF m])
qed

definition obj_extent :: "heap \<Rightarrow> u64 \<times> u64 \<times> nat \<Rightarrow> nat set" where
  "obj_extent h = (\<lambda>(c, a, i). {unat (obj_at (caches h c) a i)..<
     unat (obj_at (caches h c) a i) + unat (aligned_size (caches h c))})"

lemma heap_slab_facts:
  assumes "heap_inv h" and "(c, a) \<in> heap_slabs h"
  shows "layout_ok (caches h c)" "slab_placed (frames h) (caches h c) a" "pmm_ok (frames h)"
    "slab_ok (objects_per_slab (caches h c)) (slabs h a)" "slab_cache (slabs h a) = c"
    "base (slabs h a) = a + sizeof_slab" "c \<in> set (cache_list h)" "c \<noteq> 0"
    "cache_inv (slabs h) c (caches h c)"
proof -
  have c: "c \<in> set (cache_list h)" "a \<in> set (slabs_of (caches h c))"
    using assms(2) by (simp_all add: heap_slabs_def)
  then have ci: "cache_inv (slabs h) c (caches h c)" using assms(1) by (simp add: heap_inv_def)
  have "slab_placed (frames h) (caches h c) a" using assms unfolding heap_inv_def by blast
  moreover have "slab_ok (objects_per_slab (caches h c)) (slabs h a) \<and> slab_cache (slabs h a) = c \<and>
      base (slabs h a) = a + sizeof_slab"
    using ci c(2) unfolding cache_inv_def by blast
  moreover have "layout_ok (caches h c)" using ci unfolding cache_inv_def by blast
  moreover have "pmm_ok (frames h)" "c \<noteq> 0" using assms(1) c(1) unfolding heap_inv_def by blast+
  ultimately show "layout_ok (caches h c)" "slab_placed (frames h) (caches h c) a" "pmm_ok (frames h)"
    "slab_ok (objects_per_slab (caches h c)) (slabs h a)" "slab_cache (slabs h a) = c"
    "base (slabs h a) = a + sizeof_slab" "c \<in> set (cache_list h)" "c \<noteq> 0"
    "cache_inv (slabs h) c (caches h c)"
    using ci c(1) by simp_all
qed

lemma used_objs_less: "slab_ok n s \<Longrightarrow> i \<in> used_objs s \<Longrightarrow> i < unat n"
  by (auto simp: used_objs_def slab_ok_def)

lemma objs_disjoint:
  assumes inv: "heap_inv h" and 1: "(c, a) \<in> heap_slabs h" "i < unat (objects_per_slab (caches h c))"
    and 2: "(c', a') \<in> heap_slabs h" "i' < unat (objects_per_slab (caches h c'))"
    and ne: "(c, a, i) \<noteq> (c', a', i')"
  shows "obj_extent h (c, a, i) \<inter> obj_extent h (c', a', i') = {}"
proof (cases "(c, a) = (c', a')")
  case True
  have "unat (obj_at (caches h c) a i) = unat a + 48 + i * unat (aligned_size (caches h c))"
    "unat (obj_at (caches h c) a i') = unat a + 48 + i' * unat (aligned_size (caches h c))"
    using heap_slab_facts [OF inv 1(1)] 1(2) 2(2) True by (simp_all add: obj_address)
  moreover have "i + 1 \<le> i' \<or> i' + 1 \<le> i" using ne True by auto
  then have "(i + 1) * unat (aligned_size (caches h c)) \<le> i' * unat (aligned_size (caches h c)) \<or>
      (i' + 1) * unat (aligned_size (caches h c)) \<le> i * unat (aligned_size (caches h c))"
    by (metis mult_le_mono1)
  ultimately show ?thesis using True by (auto simp: obj_extent_def)
next
  case False
  then have "slab_frames (caches h c) a \<inter> slab_frames (caches h c') a' = {}"
    using inv 1(1) 2(1) unfolding heap_inv_def by fast
  moreover have "(x - unat KERNEL_PHYS_MAP_BASE) div 4096 \<in> slab_frames (caches h c) a"
    if "x \<in> obj_extent h (c, a, i)" for x
    using that obj_frame [OF heap_slab_facts(1-3) [OF inv 1(1)] 1(2), of x] by (simp add: obj_extent_def)
  moreover have "(x - unat KERNEL_PHYS_MAP_BASE) div 4096 \<in> slab_frames (caches h c') a'"
    if "x \<in> obj_extent h (c', a', i')" for x
    using that obj_frame [OF heap_slab_facts(1-3) [OF inv 2(1)] 2(2), of x] by (simp add: obj_extent_def)
  ultimately show ?thesis by blast
qed

lemma obj_at_inj:
  assumes inv: "heap_inv h" and 1: "(c, a) \<in> heap_slabs h" "i < unat (objects_per_slab (caches h c))"
    and 2: "(c', a') \<in> heap_slabs h" "i' < unat (objects_per_slab (caches h c'))"
    and eq: "obj_at (caches h c) a i = obj_at (caches h c') a' i'"
  shows "(c, a, i) = (c', a', i')"
proof (rule ccontr)
  assume "(c, a, i) \<noteq> (c', a', i')"
  moreover have "unat (obj_at (caches h c) a i) \<in> obj_extent h (c, a, i) \<inter> obj_extent h (c', a', i')"
    using heap_slab_facts(1) [OF inv 1(1)] heap_slab_facts(1) [OF inv 2(1)] eq
    by (auto simp: obj_extent_def layout_ok_def unat_gt_0)
  ultimately show False using objs_disjoint [OF inv 1 2] by blast
qed

text \<open>The containment test accepts exactly the object addresses of a slab.\<close>

lemma slab_contains_obj_iff:
  assumes inv: "heap_inv h" and ca: "(c, a) \<in> heap_slabs h"
  shows "slab_contains_obj h c a obj \<longleftrightarrow>
    (\<exists>i < unat (objects_per_slab (caches h c)). obj = obj_at (caches h c) a i)"
proof -
  note f = heap_slab_facts [OF inv ca]
  let ?k = "caches h c"
  let ?n = "unat (objects_per_slab ?k)" and ?z = "unat (aligned_size ?k)"
  have ad: "unat (obj_at ?k a i) = unat a + 48 + i * ?z" if "i < ?n" for i
    using obj_address [OF f(1-3) that] .
  have sa: "unat a + unat (slab_size ?k) < 2 ^ 64" "a \<noteq> 0"
    using slab_address [OF f(1-3)] by (auto simp: KERNEL_PHYS_MAP_BASE_def)
  have z: "0 < ?z" using f(1) by (simp add: layout_ok_def unat_gt_0)
  have tot: "48 + ?n * ?z \<le> unat (slab_size ?k)"
    using f(1) by (simp add: layout_ok_def add_mult_distrib2)
  then have st: "unat (a + sizeof_slab) = unat a + 48"
    using sa by (simp add: sizeof_slab_def unat_word_ariths)
  have "unat (ucast (objects_per_slab ?k) * aligned_size ?k) = ?n * ?z"
    using tot sa unat_u32_bound [of "objects_per_slab ?k"] by (simp add: unat_word_ariths unsigned_ucast_eq take_bit_nat_eq_self)
  then have fin: "unat (a + sizeof_slab + ucast (objects_per_slab ?k) * aligned_size ?k) = unat a + 48 + ?n * ?z"
    using tot sa st by (simp add: unat_word_ariths)
  let ?b = "a + sizeof_slab"
  have lt: "obj < ?b \<longleftrightarrow> unat obj < unat a + 48" by (simp only: word_less_nat_alt st)
  have ge: "?b + ucast (objects_per_slab ?k) * aligned_size ?k \<le> obj \<longleftrightarrow> unat a + 48 + ?n * ?z \<le> unat obj"
    by (simp only: word_le_nat_alt fin)
  have md: "(obj - ?b) mod aligned_size ?k = 0 \<longleftrightarrow> (unat obj - (unat a + 48)) mod ?z = 0"
    if "\<not> obj < ?b"
  proof -
    have "unat (obj - ?b) = unat obj - (unat a + 48)"
      using that by (simp only: not_less unat_sub st)
    then have "unat ((obj - ?b) mod aligned_size ?k) = (unat obj - (unat a + 48)) mod ?z"
      by (simp only: unat_mod_distrib)
    then show ?thesis by (metis unat_eq_zero)
  qed
  have "obj \<noteq> 0" if "unat a + 48 \<le> unat obj" using that by auto
  then have test: "slab_contains_obj h c a obj \<longleftrightarrow> unat a + 48 \<le> unat obj \<and>
      unat obj < unat a + 48 + ?n * ?z \<and> (unat obj - (unat a + 48)) mod ?z = 0"
    unfolding slab_contains_obj_def Let_def f(6) using f(8) sa(2) md lt ge by (auto simp: not_less not_le)
  show ?thesis
  proof
    assume "slab_contains_obj h c a obj"
    then have o: "unat a + 48 \<le> unat obj" "unat obj < unat a + 48 + ?n * ?z"
      "(unat obj - (unat a + 48)) mod ?z = 0" by (simp_all add: test)
    let ?i = "(unat obj - (unat a + 48)) div ?z"
    have i: "?i < ?n" using o(1,2) z by (simp add: div_less_iff_less_mult)
    have "?i * ?z = unat obj - (unat a + 48)" using o(3) by (metis mult_div_mod_eq add.right_neutral mult.commute)
    then have "unat (obj_at ?k a ?i) = unat obj" using o(1) by (simp add: ad [OF i])
    then have "obj = obj_at ?k a ?i" by (simp add: word_unat_eq_iff)
    then show "\<exists>i < ?n. obj = obj_at ?k a i" using i by blast
  next
    assume "\<exists>i < ?n. obj = obj_at ?k a i"
    then obtain i where i: "i < ?n" "obj = obj_at ?k a i" by blast
    then have "i * ?z < ?n * ?z" using z by simp
    then have "unat obj = unat a + 48 + i * ?z \<and> i * ?z < ?n * ?z" using ad [OF i(1)] i(2) by simp
    then show "slab_contains_obj h c a obj" unfolding test by simp
  qed
qed

section \<open>Updating one slab\<close>

lemma slab_frames_first: "layout_ok k \<Longrightarrow> unat (phys_to_pfn (VIRT_TO_PHYS a)) \<in> slab_frames k a"
proof -
  assume k: "layout_ok k"
  then have "0 < unat (slab_size k)" "unat (slab_size k) mod 4096 = 0" by (auto simp: layout_ok_def)
  then have "0 < unat (slab_size k) div 4096" by auto
  then have "0 < unat (slab_size k div PAGE_SIZE)" by (simp add: PAGE_SIZE_def unat_div_distrib)
  then show ?thesis by (simp add: slab_frames_def page_frames_def)
qed

lemma slab_unique_cache:
  assumes inv: "heap_inv h" and "(c, a) \<in> heap_slabs h" and "(c', a) \<in> heap_slabs h"
  shows "c' = c"
proof (rule ccontr)
  assume "c' \<noteq> c"
  then have "slab_frames (caches h c) a \<inter> slab_frames (caches h c') a = {}"
    using assms unfolding heap_inv_def by blast
  then show False
    using slab_frames_first heap_slab_facts(1) [OF inv assms(2)] heap_slab_facts(1) [OF inv assms(3)] by blast
qed

lemma cache_inv_cong:
  assumes "\<And>a. a \<in> set (slabs_of k) \<Longrightarrow> S' a = S a" and "cache_inv S c k"
  shows "cache_inv S' c k"
  using assms unfolding cache_inv_def slabs_of_def by auto

text \<open>A step that rewrites the slab \<^verbatim>\<open>a\<close> of the cache \<^verbatim>\<open>c\<close> and rearranges the lists of \<^verbatim>\<open>c\<close>.\<close>

definition slab_step :: "heap \<Rightarrow> u64 \<Rightarrow> u64 \<Rightarrow> slab \<Rightarrow> heap \<Rightarrow> bool" where
  "slab_step h c a s' h' \<longleftrightarrow> frames h' = frames h \<and> cache_list h' = cache_list h \<and>
     slabs h' = (slabs h)(a := s') \<and> (\<forall>c'. c' \<noteq> c \<longrightarrow> caches h' c' = caches h c') \<and>
     aligned_size (caches h' c) = aligned_size (caches h c) \<and>
     objects_per_slab (caches h' c) = objects_per_slab (caches h c) \<and>
     slab_size (caches h' c) = slab_size (caches h c) \<and>
     set (slabs_of (caches h' c)) = set (slabs_of (caches h c)) \<and>
     cache_inv ((slabs h)(a := s')) c (caches h' c)"

lemma slab_step_static:
  assumes "slab_step h c a s' h'"
  shows "slab_size (caches h' c') = slab_size (caches h c')"
    "aligned_size (caches h' c') = aligned_size (caches h c')"
    "set (slabs_of (caches h' c')) = set (slabs_of (caches h c'))" "heap_slabs h' = heap_slabs h"
proof -
  show "slab_size (caches h' c') = slab_size (caches h c')"
    "aligned_size (caches h' c') = aligned_size (caches h c')"
    "set (slabs_of (caches h' c')) = set (slabs_of (caches h c'))" for c'
    using assms unfolding slab_step_def by (cases "c' = c"; simp)+
  then show "heap_slabs h' = heap_slabs h"
    using assms unfolding slab_step_def heap_slabs_def by simp
qed

lemma slab_step_inv:
  assumes inv: "heap_inv h" and ca: "(c, a) \<in> heap_slabs h" and st: "slab_step h c a s' h'"
  shows "heap_inv h'"
proof -
  note f = slab_step_static [OF st]
  have sf: "slab_frames (caches h' c') = slab_frames (caches h c')" for c'
    by (simp add: slab_frames_def f fun_eq_iff)
  have s: "frames h' = frames h" "cache_list h' = cache_list h" "slabs h' = (slabs h)(a := s')"
    "\<And>c'. c' \<noteq> c \<Longrightarrow> caches h' c' = caches h c'" "cache_inv (slabs h') c (caches h' c)"
    using st unfolding slab_step_def by auto
  have "cache_inv (slabs h') c' (caches h' c')" if "c' \<in> set (cache_list h)" for c'
  proof (cases "c' = c")
    case False
    have "a \<notin> set (slabs_of (caches h c'))"
      using slab_unique_cache [OF inv ca, of c'] that False by (auto simp: heap_slabs_def)
    then have "slabs h' x = slabs h x" if "x \<in> set (slabs_of (caches h c'))" for x
      using that by (auto simp: s)
    moreover have "cache_inv (slabs h) c' (caches h c')" using inv that by (simp add: heap_inv_def)
    ultimately have "cache_inv (slabs h') c' (caches h c')" by (rule cache_inv_cong)
    then show ?thesis using False by (simp add: s)
  qed (use s(5) in simp)
  moreover have pl: "slab_placed q (caches h' c') x = slab_placed q (caches h c') x" for q c' x
    by (simp add: slab_placed_def sf)
  ultimately show ?thesis
    using inv unfolding heap_inv_def f(4) sf pl s(1,2) by blast
qed

lemma live_objs_split:
  assumes inv: "heap_inv h" and ca: "(c, a) \<in> heap_slabs h"
    and hs: "heap_slabs h' = heap_slabs h" and sl: "\<And>x. x \<noteq> a \<Longrightarrow> slabs h' x = slabs h x"
  shows "live_objs h' = {(c', a', j). (c', a', j) \<in> live_objs h \<and> a' \<noteq> a} \<union> {c} \<times> {a} \<times> used_objs (slabs h' a)"
    (is "_ = ?r")
proof -
  have "(c', a', j) \<in> live_objs h' \<longleftrightarrow> (c', a', j) \<in> ?r" for c' a' j
  proof (cases "a' = a")
    case True
    then show ?thesis using ca slab_unique_cache [OF inv ca, of c'] by (auto simp: live_objs_def hs)
  next
    case False
    then show ?thesis using sl [OF False] by (simp add: live_objs_def hs)
  qed
  then show ?thesis by auto
qed

lemma live_objs_indices:
  assumes inv: "heap_inv h" and "(c, a, i) \<in> live_objs h"
  shows "(c, a) \<in> heap_slabs h" and "i < unat (objects_per_slab (caches h c))"
  using assms used_objs_less [OF heap_slab_facts(4) [OF inv]] by (auto simp: live_objs_def)

lemma slab_step_live_objs:
  assumes inv: "heap_inv h" and ca: "(c, a) \<in> heap_slabs h" and st: "slab_step h c a s' h'"
  shows "used_objs s' = insert i (used_objs (slabs h a)) \<Longrightarrow> live_objs h' = insert (c, a, i) (live_objs h)"
    and "used_objs s' = used_objs (slabs h a) - {i} \<Longrightarrow> live_objs h' = live_objs h - {(c, a, i)}"
proof -
  have "slabs h' = (slabs h)(a := s')" using st by (simp add: slab_step_def)
  then have h': "live_objs h' = {(c', a', j). (c', a', j) \<in> live_objs h \<and> a' \<noteq> a} \<union> {c} \<times> {a} \<times> used_objs s'"
    using live_objs_split [OF inv ca slab_step_static(4) [OF st]] by simp
  have h: "live_objs h = {(c', a', j). (c', a', j) \<in> live_objs h \<and> a' \<noteq> a} \<union> {c} \<times> {a} \<times> used_objs (slabs h a)"
    by (rule live_objs_split [OF inv ca]) simp_all
  show "live_objs h' = insert (c, a, i) (live_objs h)" if "used_objs s' = insert i (used_objs (slabs h a))"
    unfolding h' that by (subst (2) h) blast
  show "live_objs h' = live_objs h - {(c, a, i)}" if "used_objs s' = used_objs (slabs h a) - {i}"
    unfolding h' that by (subst (2) h) blast
qed

lemma obj_inj_on:
  assumes inv: "heap_inv h" and "(c, a) \<in> heap_slabs h" "i < unat (objects_per_slab (caches h c))"
  shows "inj_on (\<lambda>(c, a, i). obj_at (caches h c) a i) (insert (c, a, i) (live_objs h))"
proof (rule inj_onI)
  fix x y assume x: "x \<in> insert (c, a, i) (live_objs h)" and y: "y \<in> insert (c, a, i) (live_objs h)"
    and eq: "(\<lambda>(c, a, i). obj_at (caches h c) a i) x = (\<lambda>(c, a, i). obj_at (caches h c) a i) y"
  obtain c1 a1 i1 c2 a2 i2 where xy: "x = (c1, a1, i1)" "y = (c2, a2, i2)" by (cases x, cases y)
  have "(c1, a1) \<in> heap_slabs h" "i1 < unat (objects_per_slab (caches h c1))"
    using x assms(2,3) live_objs_indices [OF inv, of c1 a1 i1] by (auto simp: xy)
  moreover have "(c2, a2) \<in> heap_slabs h" "i2 < unat (objects_per_slab (caches h c2))"
    using y assms(2,3) live_objs_indices [OF inv, of c2 a2 i2] by (auto simp: xy)
  ultimately show "x = y" using obj_at_inj [OF inv] eq by (simp add: xy)
qed

lemma slab_step_live:
  assumes inv: "heap_inv h" and ca: "(c, a) \<in> heap_slabs h" and st: "slab_step h c a s' h'"
    and i: "i < unat (objects_per_slab (caches h c))"
  shows "used_objs s' = insert i (used_objs (slabs h a)) \<Longrightarrow>
      live h' = insert (obj_at (caches h c) a i) (live h)"
    and "used_objs s' = used_objs (slabs h a) - {i} \<Longrightarrow>
      live h' = live h - {obj_at (caches h c) a i}"
proof -
  have at: "obj_at (caches h' c') = obj_at (caches h c')" for c'
    by (simp add: obj_at_def slab_step_static [OF st] fun_eq_iff)
  note o = slab_step_live_objs [OF inv ca st, of i]
  show "live h' = insert (obj_at (caches h c) a i) (live h)"
    if "used_objs s' = insert i (used_objs (slabs h a))"
    by (simp add: live_def at o(1) [OF that])
  show "live h' = live h - {obj_at (caches h c) a i}" if "used_objs s' = used_objs (slabs h a) - {i}"
  proof -
    have "live_objs h - {(c, a, i)} \<subseteq> insert (c, a, i) (live_objs h)" by blast
    from inj_on_image_set_diff [OF obj_inj_on [OF inv ca i] this] show ?thesis
      by (simp add: live_def at o(2) [OF that])
  qed
qed

end
