(* ===== verification/Slab_Heap.thy ===== *)
theory Slab_Heap
  imports Slab
begin

text \<open>
  Correctness of the slab heap of the theory Slab: allocation and freeing keep the heap invariant and act
  on the set of live objects as insertion and deletion, for every cache and through \<^verbatim>\<open>kmalloc\<close>
  and \<^verbatim>\<open>kfree\<close>.
\<close>

section \<open>Allocation from a cache\<close>

lemma slab_list_del_simps [simp]:
  "slabs_full (slab_list_del a k) = remove1 a (slabs_full k)"
  "slabs_partial (slab_list_del a k) = remove1 a (slabs_partial k)"
  "slabs_free (slab_list_del a k) = remove1 a (slabs_free k)"
  "aligned_size (slab_list_del a k) = aligned_size k"
  "objects_per_slab (slab_list_del a k) = objects_per_slab k"
  "slab_size (slab_list_del a k) = slab_size k" "object_size (slab_list_del a k) = object_size k"
  by (simp_all add: slab_list_del_def)

lemma layout_ok_cong:
  "aligned_size k' = aligned_size k \<Longrightarrow> objects_per_slab k' = objects_per_slab k \<Longrightarrow>
   slab_size k' = slab_size k \<Longrightarrow> layout_ok k' = layout_ok k"
  by (simp add: layout_ok_def)

text \<open>The list a slab belongs in, and the cache with the slab moved to it.\<close>

definition list_class :: "u32 \<Rightarrow> slab \<Rightarrow> kmem_cache \<Rightarrow> u64 \<Rightarrow> bool" where
  "list_class n s k a \<longleftrightarrow> (a \<in> set (slabs_full k) \<longrightarrow> inuse s = n) \<and>
     (a \<in> set (slabs_partial k) \<longrightarrow> unat (inuse s) < unat n) \<and> (a \<in> set (slabs_free k) \<longrightarrow> inuse s = 0)"

lemma cache_inv_alt:
  "cache_inv S c k \<longleftrightarrow> layout_ok k \<and> distinct (slabs_of k) \<and>
     (\<forall>a \<in> set (slabs_of k). list_class (objects_per_slab k) (S a) k a \<and>
        slab_ok (objects_per_slab k) (S a) \<and> slab_cache (S a) = c \<and> base (S a) = a + sizeof_slab)"
  unfolding cache_inv_def list_class_def slabs_of_def by auto

text \<open>Rewriting one slab keeps the invariant of its cache if the slab is sound, sits in the right
  list, and no other slab changes its list.\<close>

lemma cache_inv_change:
  assumes k: "cache_inv S c k" and a: "a \<in> set (slabs_of k)"
    and static: "aligned_size k' = aligned_size k" "objects_per_slab k' = objects_per_slab k"
      "slab_size k' = slab_size k"
    and d: "distinct (slabs_of k')" "set (slabs_of k') = set (slabs_of k)"
    and cls: "list_class (objects_per_slab k) s' k' a"
    and other: "\<And>x. x \<noteq> a \<Longrightarrow> (x \<in> set (slabs_full k') \<longleftrightarrow> x \<in> set (slabs_full k)) \<and>
      (x \<in> set (slabs_partial k') \<longleftrightarrow> x \<in> set (slabs_partial k)) \<and>
      (x \<in> set (slabs_free k') \<longleftrightarrow> x \<in> set (slabs_free k))"
    and s': "slab_ok (objects_per_slab k) s'" "slab_cache s' = c" "base s' = a + sizeof_slab"
  shows "cache_inv (S(a := s')) c k'"
proof -
  have "layout_ok k'" using k layout_ok_cong [OF static] by (simp add: cache_inv_alt)
  moreover have "list_class (objects_per_slab k) ((S(a := s')) x) k' x \<and>
      slab_ok (objects_per_slab k) ((S(a := s')) x) \<and> slab_cache ((S(a := s')) x) = c \<and>
      base ((S(a := s')) x) = x + sizeof_slab" if "x \<in> set (slabs_of k)" for x
  proof (cases "x = a")
    case True
    then show ?thesis using cls s' by simp
  next
    case False
    then have "list_class (objects_per_slab k) (S x) k' x = list_class (objects_per_slab k) (S x) k x"
      using other [OF False] by (simp add: list_class_def)
    then show ?thesis using k that False by (simp add: cache_inv_alt)
  qed
  ultimately show ?thesis using d static by (simp add: cache_inv_alt)
qed

lemma move_slab:
  assumes d: "distinct (slabs_of k)" and a: "a \<in> set (slabs_of k)"
  shows "distinct (slabs_of (slab_list_del a k\<lparr>slabs_full := a # remove1 a (slabs_full k)\<rparr>))"
    and "distinct (slabs_of (slab_list_del a k\<lparr>slabs_partial := a # remove1 a (slabs_partial k)\<rparr>))"
    and "distinct (slabs_of (slab_list_del a k\<lparr>slabs_free := a # remove1 a (slabs_free k)\<rparr>))"
    and "set (slabs_of (slab_list_del a k\<lparr>slabs_full := a # remove1 a (slabs_full k)\<rparr>)) = set (slabs_of k)"
    and "set (slabs_of (slab_list_del a k\<lparr>slabs_partial := a # remove1 a (slabs_partial k)\<rparr>)) = set (slabs_of k)"
    and "set (slabs_of (slab_list_del a k\<lparr>slabs_free := a # remove1 a (slabs_free k)\<rparr>)) = set (slabs_of k)"
  using assms by (auto simp: slabs_of_def set_remove1_eq)

lemma alloc_in_slab_step:
  assumes inv: "heap_inv h" and c: "c \<in> set (cache_list h)" and a: "a \<in> set (slabs_partial (caches h c))"
    and r: "alloc_in_slab c a h = (h', obj)"
  shows "\<exists>i s'. slab_step h c a s' h' \<and> i < unat (objects_per_slab (caches h c)) \<and>
    obj = obj_at (caches h c) a i \<and> i \<notin> used_objs (slabs h a) \<and>
    used_objs s' = insert i (used_objs (slabs h a))"
proof -
  let ?k = "caches h c" and ?s = "slabs h a"
  let ?n = "objects_per_slab ?k" and ?i = "unat (free_idx ?s)"
  let ?s' = "?s\<lparr>free_idx := freelist ?s ! ?i, inuse := inuse ?s + 1\<rparr>"
  have aa: "a \<in> set (slabs_of ?k)" using a by (simp add: slabs_of_def)
  then have ca: "(c, a) \<in> heap_slabs h" using c by (simp add: heap_slabs_def)
  note f = heap_slab_facts [OF inv ca]
  have lt: "unat (inuse ?s) < unat ?n" using f(9) a by (simp add: cache_inv_def)
  note pop = slab_pop [OF f(4) lt]
  have d: "distinct (slabs_of ?k)" using f(9) by (simp add: cache_inv_alt)
  then have nf: "a \<notin> set (slabs_full ?k)" "a \<notin> set (slabs_free ?k)" using a by (auto simp: slabs_of_def)
  have obj: "obj = obj_at ?k a ?i"
    using r pop f(5,6) by (auto simp: alloc_in_slab_def slab_alloc_obj_def obj_at_def Let_def split: if_splits)
  have h': "slabs h' = (slabs h)(a := ?s')" "frames h' = frames h" "cache_list h' = cache_list h"
    "\<forall>c'. c' \<noteq> c \<longrightarrow> caches h' c' = caches h c'"
    using r pop by (auto simp: alloc_in_slab_def slab_alloc_obj_def Let_def upd_slab_def upd_cache_def split: if_splits)
  let ?k1 = "?k\<lparr>active_objects := active_objects ?k + 1\<rparr>"
  have k': "caches h' c = (if inuse ?s' = ?n
      then slab_list_del a ?k1\<lparr>slabs_full := a # remove1 a (slabs_full ?k)\<rparr> else ?k1)"
    using r pop by (auto simp: alloc_in_slab_def slab_alloc_obj_def Let_def upd_slab_def upd_cache_def slab_list_del_def split: if_splits)
  have "cache_inv ((slabs h)(a := ?s')) c (caches h' c) \<and> set (slabs_of (caches h' c)) = set (slabs_of ?k)"
  proof (cases "inuse ?s' = ?n")
    case True
    then have k: "caches h' c = slab_list_del a ?k1\<lparr>slabs_full := a # remove1 a (slabs_full ?k)\<rparr>"
      by (simp add: k')
    have m: "distinct (slabs_of (caches h' c))" "set (slabs_of (caches h' c)) = set (slabs_of ?k)"
      using move_slab(1,4) [of ?k1 a] d aa unfolding k by (simp_all add: slabs_of_def)
    moreover have "cache_inv ((slabs h)(a := ?s')) c (caches h' c)"
    proof (rule cache_inv_change [OF f(9) aa])
      show "list_class ?n ?s' (caches h' c) a"
        using True d a nf by (auto simp: list_class_def k slabs_of_def set_remove1_eq)
    qed (use m pop f(5,6) d in \<open>auto simp: k slabs_of_def\<close>)
    ultimately show ?thesis by simp
  next
    case False
    then have k: "caches h' c = ?k1" by (simp add: k')
    have "unat (inuse ?s + 1) = unat (inuse ?s) + 1" using lt unat_u32_bound [of ?n] by simp
    moreover have "unat (inuse ?s + 1) \<noteq> unat ?n" using False by (simp add: word_unat_eq_iff)
    ultimately have "unat (inuse ?s + 1) < unat ?n" using lt by linarith
    then have "list_class ?n ?s' ?k1 a" using nf by (simp add: list_class_def)
    then have "cache_inv ((slabs h)(a := ?s')) c ?k1"
      using pop f(5,6) d by (intro cache_inv_change [OF f(9) aa]) (auto simp: slabs_of_def)
    then show ?thesis by (simp add: k slabs_of_def)
  qed
  moreover have "aligned_size (caches h' c) = aligned_size ?k" "objects_per_slab (caches h' c) = ?n"
    "slab_size (caches h' c) = slab_size ?k" by (simp_all add: k')
  ultimately have "slab_step h c a ?s' h'" using h' by (simp add: slab_step_def)
  then show ?thesis using pop obj by blast
qed

text \<open>Page metadata does not matter for the ownership of frames.\<close>

lemma fold_page_meta:
  assumes "\<And>x p. pmm_ok (f x p) = pmm_ok p" "\<And>x p. free_frames (f x p) = free_frames p"
    "\<And>x p. managed (f x p) = managed p"
  shows "pmm_ok (fold f xs p) = pmm_ok p \<and> free_frames (fold f xs p) = free_frames p \<and>
    managed (fold f xs p) = managed p"
  by (induction xs arbitrary: p) (simp_all add: assms)

lemma page_meta_simps [simp]:
  "pmm_ok (pmm_page_update_flags ph fs fc p) = pmm_ok p"
  "free_frames (pmm_page_update_flags ph fs fc p) = free_frames p"
  "managed (pmm_page_update_flags ph fs fc p) = managed p"
  "pmm_ok (pmm_page_set_owner ph ow p) = pmm_ok p"
  "free_frames (pmm_page_set_owner ph ow p) = free_frames p"
  "managed (pmm_page_set_owner ph ow p) = managed p"
  by (simp_all add: pmm_page_update_flags_def pmm_page_set_owner_def pmm_ok_def)

text \<open>What a successful \<^verbatim>\<open>slab_create\<close> does, up to counters and object bytes.\<close>

lemma slab_create_effect:
  assumes inv: "heap_inv h" and c: "c \<in> set (cache_list h)" and r: "slab_create c h = (h', a)"
  shows "(a = 0 \<and> h' = h) \<or>
    (a \<noteq> 0 \<and> unat (VIRT_TO_PHYS a) mod 4096 = 0 \<and>
     slab_frames (caches h c) a \<subseteq> free_frames (frames h) \<and>
     pmm_ok (frames h') \<and> managed (frames h') = managed (frames h) \<and>
     free_frames (frames h') = free_frames (frames h) - slab_frames (caches h c) a \<and>
     cache_list h' = cache_list h \<and>
     slabs h' = (slabs h)(a := \<lparr> base = a + sizeof_slab, inuse = 0, free_idx = 0,
       freelist = init_freelist (objects_per_slab (caches h c)), slab_cache = c \<rparr>) \<and>
     caches h' = (caches h)(c := (caches h c)\<lparr>total_slabs := total_slabs (caches h c) + 1,
       total_objects := total_objects (caches h c) + ucast (objects_per_slab (caches h c))\<rparr>))"
proof -
  let ?pages = "slab_size (caches h c) div PAGE_SIZE"
  obtain p phys where al: "pmm_alloc_pages ?pages (frames h) = (p, phys)" by fastforce
  have ok: "pmm_ok (frames h)" using inv by (simp add: heap_inv_def)
  show ?thesis
  proof (cases "phys = 0")
    case True
    then have "p = frames h" using pages.alloc_fail [OF ok] al by simp
    then show ?thesis using r al True by (auto simp: slab_create_def Let_def)
  next
    case False
    note t = pages.alloc_takes [OF ok al False] and m = pages.alloc_ok [OF ok al]
    have a: "a = PHYS_TO_VIRT phys" using r al False by (auto simp: slab_create_def Let_def)
    have "unat (phys_to_pfn phys) < 0x100000"
      using t pmm_managed_bound [OF ok] pages.free_owned [OF ok] by (fastforce simp: page_frames_def)
    then have "unat phys div 4096 < 0x100000"
      by (simp add: phys_to_pfn_def PAGE_SHIFT_def drop_bit_eq_div unat_div_distrib)
    then have "unat phys < 0x100000000" by simp
    then have "unat (phys + KERNEL_PHYS_MAP_BASE) = unat phys + unat KERNEL_PHYS_MAP_BASE"
      by (simp add: unat_word_ariths KERNEL_PHYS_MAP_BASE_def)
    then have a0: "a \<noteq> 0" by (auto simp: a PHYS_TO_VIRT_def KERNEL_PHYS_MAP_BASE_def)
    have fr: "slab_frames (caches h c) a = page_frames phys ?pages" by (simp add: slab_frames_def a)
    show ?thesis
      using r al False t m a0 fr
      by (auto simp: slab_create_def Let_def upd_cache_def fold_page_meta a split: prod.splits)
  qed
qed

lemma cache_inv_add:
  assumes k: "cache_inv S c k" and a: "a \<notin> set (slabs_of k)"
    and static: "aligned_size k' = aligned_size k" "objects_per_slab k' = objects_per_slab k"
      "slab_size k' = slab_size k"
    and lists: "slabs_full k' = slabs_full k" "slabs_partial k' = a # slabs_partial k"
      "slabs_free k' = slabs_free k"
    and s: "slab_ok (objects_per_slab k) (S a)" "slab_cache (S a) = c" "base (S a) = a + sizeof_slab"
      "inuse (S a) = 0"
  shows "cache_inv S c k'"
proof -
  have "layout_ok k'" using k layout_ok_cong [OF static] by (simp add: cache_inv_def)
  moreover have "distinct (slabs_of k')" using k a by (auto simp: cache_inv_def slabs_of_def lists)
  moreover have "set (slabs_of k') = insert a (set (slabs_of k))" by (auto simp: slabs_of_def lists)
  moreover have "0 < unat (objects_per_slab k)" using k by (simp add: cache_inv_def layout_ok_def unat_gt_0)
  ultimately show ?thesis using k s unfolding cache_inv_def lists static by auto
qed

lemma pick_slab_new:
  assumes inv: "heap_inv h" and c: "c \<in> set (cache_list h)"
    and r: "slab_create c h = (h1, a)" and a0: "a \<noteq> 0"
    and h': "h' = upd_cache c (\<lambda>k. k\<lparr>slabs_partial := a # slabs_partial k\<rparr>) h1"
  shows "heap_inv h' \<and> cache_list h' = cache_list h \<and> a \<in> set (slabs_partial (caches h' c)) \<and> live h' = live h"
proof -
  let ?k = "caches h c" and ?s = "slabs h' a"
  have e: "unat (VIRT_TO_PHYS a) mod 4096 = 0" "slab_frames ?k a \<subseteq> free_frames (frames h)"
    "pmm_ok (frames h')" "managed (frames h') = managed (frames h)"
    "free_frames (frames h') = free_frames (frames h) - slab_frames ?k a"
    "cache_list h' = cache_list h" "slabs h' = (slabs h)(a := \<lparr> base = a + sizeof_slab, inuse = 0,
       free_idx = 0, freelist = init_freelist (objects_per_slab ?k), slab_cache = c \<rparr>)"
    using slab_create_effect [OF inv c r] a0 by (simp_all add: h' upd_cache_def)
  have cs: "caches h' c' = caches h c'" if "c' \<noteq> c" for c'
    using slab_create_effect [OF inv c r] a0 that by (auto simp: h' upd_cache_def)
  have k': "slabs_partial (caches h' c) = a # slabs_partial ?k" "slabs_full (caches h' c) = slabs_full ?k"
    "slabs_free (caches h' c) = slabs_free ?k" "aligned_size (caches h' c) = aligned_size ?k"
    "slab_size (caches h' c) = slab_size ?k" "objects_per_slab (caches h' c) = objects_per_slab ?k"
    using slab_create_effect [OF inv c r] a0 by (auto simp: h' upd_cache_def)
  have ci: "cache_inv (slabs h) c' (caches h c')" if "c' \<in> set (cache_list h)" for c'
    using inv that by (simp add: heap_inv_def)
  have lay: "layout_ok ?k" using ci [OF c] by (simp add: cache_inv_def)
  have old: "slab_frames (caches h c') x \<subseteq> managed (frames h) - free_frames (frames h)"
    if "(c', x) \<in> heap_slabs h" for c' x
    using heap_slab_facts(2) [OF inv that] by (simp add: slab_placed_def)
  have fresh: "(c', a) \<notin> heap_slabs h" for c'
  proof
    assume m: "(c', a) \<in> heap_slabs h"
    then show False
      using old [OF m] e(2) slab_frames_first [OF lay, of a] slab_frames_first [OF heap_slab_facts(1) [OF inv m], of a]
      by blast
  qed
  have sf: "slab_frames (caches h' c') = slab_frames (caches h c')" for c'
    by (cases "c' = c") (simp_all add: slab_frames_def cs k' fun_eq_iff)
  have so: "set (slabs_of (caches h' c)) = insert a (set (slabs_of ?k))" by (auto simp: slabs_of_def k')
  have hs: "heap_slabs h' = insert (c, a) (heap_slabs h)"
  proof -
    have "(c', x) \<in> heap_slabs h' \<longleftrightarrow> (c', x) \<in> insert (c, a) (heap_slabs h)" for c' x
      using c so cs [of c'] by (cases "c' = c") (auto simp: heap_slabs_def e(6))
    then show ?thesis by auto
  qed
  have n: "objects_per_slab ?k \<noteq> 0" "objects_per_slab ?k \<noteq> - 1" using lay by (simp_all add: layout_ok_def)
  have an: "a \<notin> set (slabs_of (caches h c'))" if "c' \<in> set (cache_list h)" for c'
    using fresh [of c'] that by (simp add: heap_slabs_def)
  have "cache_inv (slabs h') c' (caches h' c')" if c': "c' \<in> set (cache_list h)" for c'
  proof -
    have same: "cache_inv (slabs h') c' (caches h c')"
      using an [OF c'] by (intro cache_inv_cong [OF _ ci [OF c']]) (auto simp: e(7))
    show ?thesis
    proof (cases "c' = c")
      case True
      have "cache_inv (slabs h') c ?k" using same True by simp
      moreover have "slabs h' a = \<lparr> base = a + sizeof_slab, inuse = 0, free_idx = 0,
          freelist = init_freelist (objects_per_slab ?k), slab_cache = c \<rparr>" by (simp add: e(7))
      ultimately have "cache_inv (slabs h') c (caches h' c)"
        using slab_new_ok [OF n, of "a + sizeof_slab" c] cache_inv_add [OF _ an [OF c], of "slabs h'" c "caches h' c"]
        by (simp add: k')
      then show ?thesis using True by simp
    qed (use same cs in simp)
  qed
  moreover have "slab_placed (frames h') (caches h' c') x" if m: "(c', x) \<in> heap_slabs h'" for c' x
  proof (cases "(c', x) = (c, a)")
    case True
    have ok: "pmm_ok (frames h)" using inv by (simp add: heap_inv_def)
    show ?thesis
      using True e(1,2,4,5) pages.ok_zero [OF ok] pages.free_owned [OF ok] unfolding slab_placed_def sf by blast
  next
    case False
    then have "(c', x) \<in> heap_slabs h" using m hs by blast
    then show ?thesis
      using heap_slab_facts(2) [OF inv, of c' x] e(4,5) unfolding slab_placed_def sf by blast
  qed
  moreover have "slab_frames (caches h' c1) x1 \<inter> slab_frames (caches h' c2) x2 = {}"
    if "(c1, x1) \<in> heap_slabs h'" "(c2, x2) \<in> heap_slabs h'" "(c1, x1) \<noteq> (c2, x2)" for c1 x1 c2 x2
    using that old [of c1 x1] old [of c2 x2] e(2) inv unfolding hs sf heap_inv_def by blast
  ultimately have "heap_inv h'" using inv e(3,6) unfolding heap_inv_def by simp
  moreover have "live_objs h' = live_objs h"
  proof -
    have "(c', x, i) \<in> live_objs h' \<longleftrightarrow> (c', x, i) \<in> live_objs h" for c' x i
    proof (cases "x = a")
      case True
      have "used_objs (slabs h' a) = {}" using slab_new_ok [OF n] by (simp add: e(7))
      then show ?thesis using True fresh by (simp add: live_objs_def)
    qed (simp add: live_objs_def hs e(7))
    then show ?thesis by auto
  qed
  moreover have "obj_at (caches h' c') = obj_at (caches h c')" for c'
    by (cases "c' = c") (simp_all add: obj_at_def cs k' fun_eq_iff)
  ultimately show ?thesis using k' e(6) by (simp add: live_def)
qed

lemma pick_slab_effect:
  assumes inv: "heap_inv h" and c: "c \<in> set (cache_list h)" and r: "pick_slab c h = (h', a)"
  shows "(a = 0 \<and> h' = h) \<or> (a \<noteq> 0 \<and> heap_inv h' \<and> cache_list h' = cache_list h \<and>
    a \<in> set (slabs_partial (caches h' c)) \<and> live h' = live h)"
proof -
  let ?k = "caches h c"
  have nz: "x \<noteq> 0" if "x \<in> set (slabs_of ?k)" for x
  proof -
    have m: "(c, x) \<in> heap_slabs h" using that c by (simp add: heap_slabs_def)
    then show ?thesis
      using slab_address [OF heap_slab_facts(1-3) [OF inv m]] by (auto simp: KERNEL_PHYS_MAP_BASE_def)
  qed
  consider (partial) x xs where "slabs_partial ?k = x # xs"
    | (empty) x xs where "slabs_partial ?k = []" "slabs_free ?k = x # xs"
    | (new) "slabs_partial ?k = []" "slabs_free ?k = []" by (meson neq_Nil_conv)
  then show ?thesis
  proof cases
    case partial
    then show ?thesis using r inv nz [of x] by (auto simp: pick_slab_def slabs_of_def)
  next
    case empty
    let ?k' = "slab_list_del x ?k\<lparr>slabs_partial := x # remove1 x (slabs_partial ?k)\<rparr>"
    have h': "h' = upd_cache c (\<lambda>k. ?k') h" "a = x"
      using r empty by (auto simp: pick_slab_def upd_cache_def)
    have x: "x \<in> set (slabs_of ?k)" using empty by (simp add: slabs_of_def)
    then have cx: "(c, x) \<in> heap_slabs h" using c by (simp add: heap_slabs_def)
    note f = heap_slab_facts [OF inv cx]
    have d: "distinct (slabs_of ?k)" and u: "inuse (slabs h x) = 0"
      using f(9) empty by (auto simp: cache_inv_def)
    have "0 < unat (objects_per_slab ?k)" using f(1) by (simp add: layout_ok_def unat_gt_0)
    then have cls: "list_class (objects_per_slab ?k) (slabs h x) ?k' x"
      using empty d u by (auto simp: list_class_def slabs_of_def)
    have "cache_inv ((slabs h)(x := slabs h x)) c ?k'"
      using move_slab(2,5) [OF d x] d cls f(4-6) empty
      by (intro cache_inv_change [OF f(9) x]) (auto simp: slabs_of_def)
    then have st: "slab_step h c x (slabs h x) h'"
      using move_slab(5) [OF d x] by (simp add: slab_step_def h' upd_cache_def)
    have "live_objs h' = live_objs h"
      using slab_step_static(4) [OF st] by (simp add: live_objs_def h' upd_cache_def)
    moreover have "obj_at (caches h' c') = obj_at (caches h c')" for c'
      by (simp add: obj_at_def slab_step_static [OF st] fun_eq_iff)
    ultimately have "live h' = live h" by (simp add: live_def)
    then show ?thesis
      using slab_step_inv [OF inv cx st] nz [OF x] by (auto simp: h' upd_cache_def)
  next
    case new
    obtain h1 a1 where sc: "slab_create c h = (h1, a1)" by fastforce
    show ?thesis
    proof (cases "a1 = 0")
      case True
      then show ?thesis using r new sc slab_create_effect [OF inv c sc] by (auto simp: pick_slab_def)
    next
      case False
      then show ?thesis using r new sc pick_slab_new [OF inv c sc False] by (auto simp: pick_slab_def)
    qed
  qed
qed

text \<open>The objects a heap can hand out are at non-zero addresses.\<close>

lemma obj_at_nonzero:
  assumes "heap_inv h" and "(c, a) \<in> heap_slabs h" and "i < unat (objects_per_slab (caches h c))"
  shows "obj_at (caches h c) a i \<noteq> 0"
proof -
  note f = heap_slab_facts(1-3) [OF assms(1,2)]
  have "0 < unat (obj_at (caches h c) a i)" using obj_address [OF f assms(3)] by simp
  then show ?thesis by auto
qed

lemma kmem_cache_alloc_effect:
  assumes inv: "heap_inv h" and c: "c \<in> set (cache_list h)" and r: "kmem_cache_alloc c h = (h', obj)"
  shows "heap_inv h' \<and> cache_list h' = cache_list h \<and>
    (obj = 0 \<longrightarrow> h' = h) \<and> (obj \<noteq> 0 \<longrightarrow> obj \<notin> live h \<and> live h' = insert obj (live h))"
proof -
  obtain h1 a where p: "pick_slab c h = (h1, a)" by fastforce
  show ?thesis
  proof (cases "a = 0")
    case True
    then show ?thesis using r p inv pick_slab_effect [OF inv c p] by (simp add: kmem_cache_alloc_def)
  next
    case False
    then have h1: "heap_inv h1" "cache_list h1 = cache_list h" "a \<in> set (slabs_partial (caches h1 c))" "live h1 = live h"
      using pick_slab_effect [OF inv c p] by auto
    have c1: "c \<in> set (cache_list h1)" using c h1(2) by simp
    have al: "alloc_in_slab c a h1 = (h', obj)" using r p False by (simp add: kmem_cache_alloc_def)
    obtain i s' where st: "slab_step h1 c a s' h'" and i: "i < unat (objects_per_slab (caches h1 c))"
      and obj: "obj = obj_at (caches h1 c) a i" and fresh: "i \<notin> used_objs (slabs h1 a)"
      and used: "used_objs s' = insert i (used_objs (slabs h1 a))"
      using alloc_in_slab_step [OF h1(1) c1 h1(3) al] by blast
    have ca: "(c, a) \<in> heap_slabs h1" using c1 h1(3) by (simp add: heap_slabs_def slabs_of_def)
    have "obj \<notin> live h1"
    proof
      assume "obj \<in> live h1"
      then obtain c' a' i' where m: "(c', a', i') \<in> live_objs h1" "obj = obj_at (caches h1 c') a' i'"
        by (auto simp: live_def)
      then have "(c, a, i) = (c', a', i')"
        using obj_at_inj [OF h1(1) ca i live_objs_indices [OF h1(1) m(1)]] obj by simp
      then show False using m(1) fresh by (simp add: live_objs_def)
    qed
    moreover have "cache_list h' = cache_list h" using st h1(2) by (simp add: slab_step_def)
    ultimately show ?thesis
      using slab_step_inv [OF h1(1) ca st] slab_step_live(1) [OF h1(1) ca st i used]
        obj_at_nonzero [OF h1(1) ca i] h1(4) obj by simp
  qed
qed

section \<open>Freeing\<close>

lemma free_index:
  assumes inv: "heap_inv h" and ca: "(c, a) \<in> heap_slabs h" and i: "i < unat (objects_per_slab (caches h c))"
  shows "unat (ucast ((obj_at (caches h c) a i - base (slabs h a)) div
      aligned_size (caches h (slab_cache (slabs h a)))) :: u32) = i"
proof -
  note f = heap_slab_facts [OF inv ca]
  let ?k = "caches h c"
  have "unat a + unat (slab_size ?k) < 2 ^ 64"
    using slab_address [OF f(1-3)] by (simp add: KERNEL_PHYS_MAP_BASE_def)
  then have "i * unat (aligned_size ?k) < 2 ^ 64" using layout_bound [OF f(1) i] by linarith
  moreover have "i < 2 ^ 32" using i unat_u32_bound [of "objects_per_slab ?k"] by simp
  ultimately have m: "unat (of_nat i * aligned_size ?k) = i * unat (aligned_size ?k)"
    by (simp add: unat_word_ariths)
  have "0 < unat (aligned_size ?k)" using f(1) by (simp add: layout_ok_def unat_gt_0)
  then have "unat ((of_nat i * aligned_size ?k) div aligned_size ?k) = i"
    by (simp add: unat_div_distrib m)
  moreover have "obj_at ?k a i - base (slabs h a) = of_nat i * aligned_size ?k"
    by (simp add: obj_at_def f(6))
  ultimately show ?thesis
    using \<open>i < 2 ^ 32\<close> by (simp add: f(5) unsigned_ucast_eq take_bit_nat_eq_self)
qed

lemma free_in_slab_step:
  assumes inv: "heap_inv h" and l: "(c, a, i) \<in> live_objs h" and obj: "obj = obj_at (caches h c) a i"
  shows "\<exists>s'. slab_step h c a s' (free_in_slab c a obj h) \<and> used_objs s' = used_objs (slabs h a) - {i}"
proof -
  let ?k = "caches h c" and ?s = "slabs h a" and ?h = "free_in_slab c a obj h"
  let ?n = "objects_per_slab ?k"
  have ca: "(c, a) \<in> heap_slabs h" and i: "i < unat ?n" by (rule live_objs_indices [OF inv l])+
  note f = heap_slab_facts [OF inv ca]
  define idx where "idx = (ucast ((obj - base ?s) div aligned_size (caches h (slab_cache ?s))) :: u32)"
  have idx: "unat idx = i" using free_index [OF inv ca i] by (simp add: idx_def obj)
  let ?s' = "?s\<lparr>freelist := (freelist ?s)[i := free_idx ?s], free_idx := idx, inuse := inuse ?s - 1\<rparr>"
  have iu: "i \<in> used_objs ?s" using l by (simp add: live_objs_def)
  have push: "0 < unat (inuse ?s)" "unat (inuse ?s - 1) = unat (inuse ?s) - 1" "slab_ok ?n ?s'"
    "used_objs ?s' = used_objs ?s - {i}"
    using slab_push [OF f(4) iu idx] by simp_all
  have aa: "a \<in> set (slabs_of ?k)" using ca by (simp add: heap_slabs_def)
  have d: "distinct (slabs_of ?k)" using f(9) by (simp add: cache_inv_def)
  have cls: "list_class ?n ?s ?k a" using f(9) aa by (simp add: cache_inv_alt)
  have pos: "inuse ?s \<noteq> 0" using push(1) by auto
  let ?k1 = "if active_objects ?k > 0 then ?k\<lparr>active_objects := active_objects ?k - 1\<rparr> else ?k"
  let ?k' = "if inuse ?s = ?n then slab_list_del a ?k1\<lparr>slabs_partial := a # remove1 a (slabs_partial ?k)\<rparr>
    else if inuse ?s - 1 = 0 then slab_list_del a ?k1\<lparr>slabs_free := a # remove1 a (slabs_free ?k)\<rparr> else ?k1"
  have h: "frames ?h = frames h" "cache_list ?h = cache_list h" "slabs ?h = (slabs h)(a := ?s')"
    "\<forall>c'. c' \<noteq> c \<longrightarrow> caches ?h c' = caches h c'" "caches ?h c = ?k'"
    using pos idx by (simp_all add: free_in_slab_def Let_def slab_free_obj_def upd_slab_def upd_cache_def
        idx_def [symmetric] slab_list_del_def)
  have k1: "slabs_of ?k1 = slabs_of ?k" "slabs_full ?k1 = slabs_full ?k" "slabs_partial ?k1 = slabs_partial ?k"
    "slabs_free ?k1 = slabs_free ?k" by (simp_all add: slabs_of_def)
  have mv: "distinct (slabs_of ?k')" "set (slabs_of ?k') = set (slabs_of ?k)"
    using move_slab [of ?k1 a] d aa by (auto simp: k1)
  have le: "unat (inuse ?s) \<le> unat ?n" using f(4) by (simp add: slab_ok_def)
  have cls': "list_class ?n ?s' ?k' a"
  proof (cases "inuse ?s = ?n")
    case True
    then show ?thesis using d aa push(1,2) by (auto simp: list_class_def slabs_of_def)
  next
    case False
    then have "unat (inuse ?s) < unat ?n" using le by (metis le_neq_implies_less word_unat_eq_iff)
    then have "unat (inuse ?s - 1) < unat ?n" using push(2) by simp
    then show ?thesis using False cls pos d by (auto simp: list_class_def slabs_of_def)
  qed
  have "cache_inv ((slabs h)(a := ?s')) c ?k'"
  proof (rule cache_inv_change [OF f(9) aa _ _ _ mv cls'])
    show "(x \<in> set (slabs_full ?k') \<longleftrightarrow> x \<in> set (slabs_full ?k)) \<and>
        (x \<in> set (slabs_partial ?k') \<longleftrightarrow> x \<in> set (slabs_partial ?k)) \<and>
        (x \<in> set (slabs_free ?k') \<longleftrightarrow> x \<in> set (slabs_free ?k))" if "x \<noteq> a" for x
      using that by (simp add: k1)
  qed (use push(3) f(5,6) in simp_all)
  then have "slab_step h c a ?s' ?h"
    using h mv(2) by (simp add: slab_step_def)
  then show ?thesis using push(4) by blast
qed

lemma find_slab_in_cache_iff:
  assumes inv: "heap_inv h" and c: "c \<in> set (cache_list h)"
  shows "find_slab_in_cache h c obj = Some a \<Longrightarrow> (c, a) \<in> heap_slabs h \<and> slab_contains_obj h c a obj"
    and "find_slab_in_cache h c obj = None \<Longrightarrow> (c, x) \<in> heap_slabs h \<Longrightarrow> \<not> slab_contains_obj h c x obj"
  using c by (auto simp: find_slab_in_cache_def find_slab_in_list_def heap_slabs_def slabs_of_def
      find_Some_iff find_None_iff split: option.splits)

lemma find_slab_owner:
  assumes inv: "heap_inv h" and l: "(c, a, i) \<in> live_objs h" and obj: "obj = obj_at (caches h c) a i"
    and c': "c' \<in> set (cache_list h)"
  shows "find_slab_in_cache h c' obj = (if c' = c then Some a else None)"
proof -
  note ci = live_objs_indices [OF inv l]
  have cont: "slab_contains_obj h c a obj" using slab_contains_obj_iff [OF inv ci(1)] ci(2) obj by blast
  have only: "c' = c \<and> x = a" if m: "(c', x) \<in> heap_slabs h" "slab_contains_obj h c' x obj" for x
  proof -
    obtain j where j: "j < unat (objects_per_slab (caches h c'))" "obj = obj_at (caches h c') x j"
      using m slab_contains_obj_iff [OF inv m(1)] by blast
    have "(c, a, i) = (c', x, j)" by (rule obj_at_inj [OF inv ci m(1) j(1)]) (use obj j(2) in simp)
    then show ?thesis by simp
  qed
  show ?thesis
  proof (cases "find_slab_in_cache h c' obj")
    case None
    then show ?thesis using find_slab_in_cache_iff(2) [OF inv c' None] ci(1) cont by auto
  next
    case (Some x)
    then show ?thesis using only find_slab_in_cache_iff(1) [OF inv c' Some] by auto
  qed
qed

lemma find_owner_live:
  assumes inv: "heap_inv h" and l: "(c, a, i) \<in> live_objs h" and obj: "obj = obj_at (caches h c) a i"
    and "set cs \<subseteq> set (cache_list h)" and "c \<in> set cs"
  shows "find_owner_cache h cs obj = Some (c, a)"
  using assms(4,5)
proof (induction cs)
  case (Cons c' cs)
  then show ?case using find_slab_owner [OF inv l obj, of c'] by auto
qed simp

lemma kmem_cache_free_live:
  assumes inv: "heap_inv h" and l: "(c, a, i) \<in> live_objs h" and obj: "obj = obj_at (caches h c) a i"
    and c': "c' \<in> set (cache_list h)"
  shows "kmem_cache_free c' obj h = free_in_slab c a obj h"
proof -
  note ci = live_objs_indices [OF inv l]
  have "c' \<noteq> 0" "layout_ok (caches h c')" using inv c' by (auto simp: heap_inv_def cache_inv_def)
  moreover have "obj \<noteq> 0" using obj_at_nonzero [OF inv ci] obj by simp
  moreover have "find_owner_cache_for_obj h obj = Some (c, a)"
    unfolding find_owner_cache_for_obj_def
    using ci(1) by (intro find_owner_live [OF inv l obj]) (auto simp: heap_slabs_def)
  ultimately show ?thesis
    using find_slab_owner [OF inv l obj c'] by (simp add: kmem_cache_free_def layout_ok_def)
qed

lemma kmem_cache_free_effect:
  assumes inv: "heap_inv h" and obj: "obj \<in> live h" and c': "c' \<in> set (cache_list h)"
  shows "heap_inv (kmem_cache_free c' obj h) \<and> live (kmem_cache_free c' obj h) = live h - {obj} \<and>
    cache_list (kmem_cache_free c' obj h) = cache_list h"
proof -
  obtain c a i where l: "(c, a, i) \<in> live_objs h" and o: "obj = obj_at (caches h c) a i"
    using obj by (auto simp: live_def)
  note ci = live_objs_indices [OF inv l]
  obtain s' where st: "slab_step h c a s' (free_in_slab c a obj h)"
    and u: "used_objs s' = used_objs (slabs h a) - {i}"
    using free_in_slab_step [OF inv l o] by blast
  have "cache_list (free_in_slab c a obj h) = cache_list h" using st by (simp add: slab_step_def)
  then show ?thesis
    using slab_step_inv [OF inv ci(1) st] slab_step_live(2) [OF inv ci(1) st ci(2) u]
      kmem_cache_free_live [OF inv l o c'] o by simp
qed

text \<open>An address that is no object of any slab is not found in any cache.\<close>

definition slab_objects :: "heap \<Rightarrow> u64 set" where
  "slab_objects h = {obj_at (caches h c) a i |c a i.
     (c, a) \<in> heap_slabs h \<and> i < unat (objects_per_slab (caches h c))}"

lemma kmem_cache_free_foreign:
  assumes inv: "heap_inv h" and c': "c' \<in> set (cache_list h)" and "obj \<notin> slab_objects h"
  shows "kmem_cache_free c' obj h = h"
proof -
  have none: "find_slab_in_cache h c obj = None" if c: "c \<in> set (cache_list h)" for c
  proof (cases "find_slab_in_cache h c obj")
    case (Some a)
    then have a: "(c, a) \<in> heap_slabs h" "slab_contains_obj h c a obj"
      using find_slab_in_cache_iff(1) [OF inv c] by auto
    then show ?thesis
      using slab_contains_obj_iff [OF inv a(1), of obj] assms(3) by (auto simp: slab_objects_def)
  qed simp
  have "find_owner_cache h cs obj = None" if "set cs \<subseteq> set (cache_list h)" for cs
    using that by (induction cs) (simp_all add: none)
  then show ?thesis using none [OF c'] by (simp add: kmem_cache_free_def find_owner_cache_for_obj_def)
qed

section \<open>A concrete heap\<close>

text \<open>One cache of 64-byte objects and no slab yet, over the example state of the page allocator.\<close>

definition heap_example :: heap where
  "heap_example = \<lparr> frames = pmm_example,
     caches = (\<lambda>_. \<lparr> object_size = 64, aligned_size = 64, align = 8, cache_flags = 0,
       objects_per_slab = 59, slab_size = 4096, ctor = None, dtor = None, slabs_full = [],
       slabs_partial = [], slabs_free = [], total_objects = 0, active_objects = 0, total_slabs = 0 \<rparr>),
     slabs = (\<lambda>_. \<lparr> base = 0, inuse = 0, free_idx = 0, freelist = [], slab_cache = 0 \<rparr>),
     cache_list = [0x1000], size_caches = [0x1000], total_allocated = 0, total_freed = 0,
     early_heap_start = 0, early_heap_end = 0, early_heap_current = 0, slab_initialized = True,
     memory = (\<lambda>_. 0) \<rparr>"

lemma heap_example_inv: "heap_inv heap_example" "live heap_example = {}" "slab_objects heap_example = {}"
  "cache_list heap_example = [0x1000]"
proof -
  have "heap_slabs heap_example = {}" by (simp add: heap_slabs_def heap_example_def slabs_of_def)
  then show "heap_inv heap_example" "live heap_example = {}" "slab_objects heap_example = {}"
    "cache_list heap_example = [0x1000]"
    by (simp_all add: heap_inv_def live_def live_objs_def slab_objects_def)
      (simp_all add: heap_example_def cache_inv_def slabs_of_def layout_ok_def pmm_example_facts)
qed

lemma heap_example_alloc:
  obtains h' obj where "kmem_cache_alloc 0x1000 heap_example = (h', obj)" and "obj \<noteq> 0"
proof -
  obtain p r where al: "pmm_alloc_pages 1 pmm_example = (p, r)" "r \<noteq> 0" by (rule pmm_example_alloc)
  obtain h1 a where sc: "slab_create 0x1000 heap_example = (h1, a)" by fastforce
  have one: "slab_size (caches heap_example 0x1000) div PAGE_SIZE = 1" "frames heap_example = pmm_example"
    by (simp_all add: heap_example_def PAGE_SIZE_def)
  have t: "page_frames r 1 \<subseteq> free_frames pmm_example" "page_frames r 1 \<noteq> {}"
    "free_frames p = free_frames pmm_example - page_frames r 1"
    using pages.alloc_takes [OF pmm_example_facts(2) al] by auto
  have "free_frames (frames h1) = free_frames p"
    using sc al one by (auto simp: slab_create_def Let_def upd_cache_def)
  then have "frames h1 \<noteq> frames heap_example" using t one(2) by (metis Diff_disjoint Int_absorb2 inf_commute)
  then have "a \<noteq> 0"
    using slab_create_effect [OF heap_example_inv(1) _ sc] heap_example_inv(4) by auto
  have "slabs_partial (caches heap_example 0x1000) = []" "slabs_free (caches heap_example 0x1000) = []"
    by (simp_all add: heap_example_def)
  then obtain h2 where p: "pick_slab 0x1000 heap_example = (h2, a)"
    using sc \<open>a \<noteq> 0\<close> by (simp add: pick_slab_def)
  obtain h' obj where r: "kmem_cache_alloc 0x1000 heap_example = (h', obj)" by fastforce
  then have ai: "alloc_in_slab 0x1000 a h2 = (h', obj)" using p \<open>a \<noteq> 0\<close> by (simp add: kmem_cache_alloc_def)
  have c: "0x1000 \<in> set (cache_list heap_example)" by (simp add: heap_example_def)
  have h2: "heap_inv h2" "cache_list h2 = cache_list heap_example" "a \<in> set (slabs_partial (caches h2 0x1000))"
    using pick_slab_effect [OF heap_example_inv(1) c p] \<open>a \<noteq> 0\<close> by auto
  have c2: "0x1000 \<in> set (cache_list h2)" using h2(2) c by simp
  obtain i s' where "i < unat (objects_per_slab (caches h2 0x1000))" "obj = obj_at (caches h2 0x1000) a i"
    using alloc_in_slab_step [OF h2(1) c2 h2(3) ai] by blast
  moreover have "(0x1000, a) \<in> heap_slabs h2" using c2 h2(3) by (simp add: heap_slabs_def slabs_of_def)
  ultimately have "obj \<noteq> 0" using obj_at_nonzero [OF h2(1), of "0x1000" a i] by simp
  then show thesis using that r by blast
qed

section \<open>Properties\<close>

text \<open>C5: a cache hands out only objects nobody holds. \<^verbatim>\<open>kmem_cache_alloc\<close> keeps the heap invariant;
  when it fails nothing changes; when it succeeds the object was not live and is the only one that
  becomes live. No two live objects overlap.\<close>

theorem kmem_cache_alloc_fresh:
  assumes "heap_inv h" and "c \<in> set (cache_list h)" and "kmem_cache_alloc c h = (h', obj)"
  shows "heap_inv h' \<and> (obj = 0 \<longrightarrow> h' = h) \<and> (obj \<noteq> 0 \<longrightarrow> obj \<notin> live h \<and> live h' = insert obj (live h)) \<and>
    (\<forall>x y. x \<in> live_objs h' \<longrightarrow> y \<in> live_objs h' \<longrightarrow> x \<noteq> y \<longrightarrow> obj_extent h' x \<inter> obj_extent h' y = {})"
proof -
  note e = kmem_cache_alloc_effect [OF assms]
  have "obj_extent h' (c1, a1, i1) \<inter> obj_extent h' (c2, a2, i2) = {}"
    if "(c1, a1, i1) \<in> live_objs h'" "(c2, a2, i2) \<in> live_objs h'" "(c1, a1, i1) \<noteq> (c2, a2, i2)"
    for c1 a1 i1 c2 a2 i2
    using objs_disjoint [of h'] live_objs_indices [of h'] e that by metis
  then show ?thesis using e by (simp add: split_paired_all)
qed

theorem kmem_cache_alloc_fresh_witness:
  "\<exists>h' obj. kmem_cache_alloc 0x1000 heap_example = (h', obj) \<and> obj \<noteq> 0 \<and> live h' = {obj}"
proof -
  obtain h' obj where a: "kmem_cache_alloc 0x1000 heap_example = (h', obj)" "obj \<noteq> 0"
    by (rule heap_example_alloc)
  moreover have "0x1000 \<in> set (cache_list heap_example)" by (simp add: heap_example_inv)
  ultimately show ?thesis
    using kmem_cache_alloc_fresh [OF heap_example_inv(1) _ a(1)] by (auto simp: heap_example_inv)
qed

text \<open>C18: freeing a live object ends exactly its life, whichever cache the caller names, so what
  \<^verbatim>\<open>kfree\<close> does with the first size class is right for the objects of all of them; freeing an address
  that is no object of any slab changes nothing.\<close>

theorem kmem_cache_free_exact:
  assumes "heap_inv h" and "c \<in> set (cache_list h)"
  shows "(obj \<in> live h \<longrightarrow> heap_inv (kmem_cache_free c obj h) \<and> live (kmem_cache_free c obj h) = live h - {obj}) \<and>
    (obj \<notin> slab_objects h \<longrightarrow> kmem_cache_free c obj h = h)"
  using kmem_cache_free_effect [OF assms(1) _ assms(2)] kmem_cache_free_foreign [OF assms] by blast

theorem kmem_cache_free_exact_witness:
  "\<exists>h' obj. kmem_cache_alloc 0x1000 heap_example = (h', obj) \<and> obj \<noteq> 0 \<and>
     live (kmem_cache_free 0x1000 obj h') = {}"
proof -
  have c: "0x1000 \<in> set (cache_list heap_example)" by (simp add: heap_example_inv)
  obtain h' obj where a: "kmem_cache_alloc 0x1000 heap_example = (h', obj)" "obj \<noteq> 0"
    by (rule heap_example_alloc)
  have "heap_inv h'" "0x1000 \<in> set (cache_list h')" "live h' = {obj}"
    using kmem_cache_alloc_effect [OF heap_example_inv(1) c a(1)] a(2) c by (simp_all add: heap_example_inv)
  then show ?thesis using kmem_cache_free_exact [of h' "0x1000" obj] a by auto
qed



text \<open>The early heap is set up even when no memory was available: the test for failure looks at
  the direct-map address of the result, which is never null, so the panic cannot happen.\<close>

theorem early_heap_init_unchecked:
  assumes "pmm_alloc_pages 256 (frames h) = (p, 0)"
  shows "\<exists>h'. early_heap_init h = Some h' \<and> early_heap_start h' = KERNEL_PHYS_MAP_BASE"
  using assms by (simp add: early_heap_init_def PHYS_TO_VIRT_def KERNEL_PHYS_MAP_BASE_def)

theorem early_heap_init_unchecked_witness:
  "early_heap_init (heap_example\<lparr>frames := pmm_static\<rparr>) \<noteq> None"
proof -
  have "pmm_alloc_pages 256 pmm_static = (pmm_static, 0)"
    by (simp add: pmm_alloc_pages_def pmm_alloc_pages_zone_def pmm_static_def)
  then show ?thesis using early_heap_init_unchecked [of "heap_example\<lparr>frames := pmm_static\<rparr>"] by auto
qed

end
