(* ===== verification/Sched.thy ===== *)
theory Sched
  imports Bitmap
begin

text \<open>
  The process scheduler \<^verbatim>\<open>kernel/proc/scheduler.c\<close>: per-priority run queues with a bitmap of the
  non-empty ones, the round-robin policy, sleeping, waking and the timer tick. A process is named by
  a natural number (its address in the code) and its scheduling fields are kept in a store. The run
  and sleep list heads are the lists of the processes linked in them, and being linked is being in
  one of those lists. The policy pointer is assigned once, to the round-robin policy, so its
  operations are called directly and the panics about a missing policy do not occur. The switch of
  address space and registers is below this model: a call of \<^verbatim>\<open>schedule\<close> ends with the new current
  process.
\<close>

section \<open>State\<close>

datatype process_state =
    PROC_STATE_CREATED | PROC_STATE_READY | PROC_STATE_RUNNING | PROC_STATE_BLOCKED
  | PROC_STATE_SLEEPING | PROC_STATE_ZOMBIE | PROC_STATE_DEAD

record sched_proc =
  state :: process_state
  flags :: u32
  priority :: int
  nice :: int
  runtime :: u64
  last_run :: u64
  time_slice :: int
  policy :: int
  utime :: u64
  stime :: u64
  wakeup_tick :: u64

record run_queue =
  procs :: "nat \<Rightarrow> sched_proc"
  queues :: "nat list list"
  bitmap :: "u64 list"
  nr_running :: u64
  nr_switches :: u64
  curr :: "nat option"
  idle :: "nat option"
  clock :: u64
  sleep_queue :: "nat list"
  ti_flags :: u32
  total_switches :: u64
  num_policies :: nat

definition PROC_FLAG_KERNEL :: u32 where "PROC_FLAG_KERNEL = 1"
definition PROC_FLAG_EXITING :: u32 where "PROC_FLAG_EXITING = 8"
definition TIF_NEED_RESCHED :: u32 where "TIF_NEED_RESCHED = 1"

definition MAX_NICE :: int where "MAX_NICE = 19"
definition MIN_NICE :: int where "MIN_NICE = - 20"
definition MAX_PRIO :: nat where "MAX_PRIO = 140"
definition DEFAULT_PRIO :: int where "DEFAULT_PRIO = 120"
definition MIN_TIMESLICE :: int where "MIN_TIMESLICE = 1"
definition DEF_TIMESLICE :: int where "DEF_TIMESLICE = 10"
definition MAX_TIMESLICE :: int where "MAX_TIMESLICE = 100"
definition TICK_MS :: u64 where "TICK_MS = 4"
definition MAX_SCHED_POLICIES :: nat where "MAX_SCHED_POLICIES = 8"

definition upd_proc :: "nat \<Rightarrow> (sched_proc \<Rightarrow> sched_proc) \<Rightarrow> run_queue \<Rightarrow> run_queue" where
  "upd_proc p f rq = rq\<lparr>procs := (procs rq)(p := f (procs rq p))\<rparr>"

definition run_list_linked :: "run_queue \<Rightarrow> nat \<Rightarrow> bool" where
  "run_list_linked rq p = list_ex (\<lambda>q. p \<in> set q) (queues rq)"

definition sleep_list_linked :: "run_queue \<Rightarrow> nat \<Rightarrow> bool" where
  "sleep_list_linked rq p = (p \<in> set (sleep_queue rq))"

definition process_schedulable :: "run_queue \<Rightarrow> nat \<Rightarrow> bool" where
  "process_schedulable rq p =
     (if state (procs rq p) = PROC_STATE_ZOMBIE \<or> state (procs rq p) = PROC_STATE_DEAD then False
      else if flags (procs rq p) AND PROC_FLAG_EXITING \<noteq> 0 then False else True)"

section \<open>The round-robin policy\<close>

definition clamp_prio :: "int \<Rightarrow> nat" where
  "clamp_prio prio = (let prio = (if prio < 0 then 0 else prio)
     in nat (if int MAX_PRIO \<le> prio then int MAX_PRIO - 1 else prio))"

definition rr_enqueue :: "nat \<Rightarrow> run_queue \<Rightarrow> run_queue" where
  "rr_enqueue p rq =
     (let prio = clamp_prio (priority (procs rq p))
      in if run_list_linked rq p then rq
         else rq\<lparr>queues := (queues rq)[prio := queues rq ! prio @ [p]],
                 bitmap := (bitmap rq)[prio div 64 := bitmap rq ! (prio div 64) OR push_bit (prio mod 64) 1],
                 nr_running := nr_running rq + 1\<rparr>)"

definition run_list_del :: "nat \<Rightarrow> run_queue \<Rightarrow> run_queue" where
  "run_list_del p rq = rq\<lparr>queues := map (remove1 p) (queues rq)\<rparr>"

definition rr_dequeue :: "nat \<Rightarrow> run_queue \<Rightarrow> run_queue" where
  "rr_dequeue p rq =
     (let prio = nat (priority (procs rq p))
      in if \<not> run_list_linked rq p then rq
         else
           let rq = run_list_del p rq;
               rq = (if queues rq ! prio = []
                     then rq\<lparr>bitmap := (bitmap rq)[prio div 64 :=
                       bitmap rq ! (prio div 64) AND NOT (push_bit (prio mod 64) 1)]\<rparr>
                     else rq)
           in if nr_running rq > 0 then rq\<lparr>nr_running := nr_running rq - 1\<rparr> else rq)"

text \<open>The scan of one bitmap word: either a process is found, or the scan goes on with the next
  word; stale bits are cleared on the way. \<^verbatim>\<open>__builtin_ctzll\<close> is one less than the find-first-set of
  the bitmap library.\<close>

function rr_scan_word :: "nat \<Rightarrow> u64 \<Rightarrow> run_queue \<Rightarrow> run_queue \<times> nat option" where
  "rr_scan_word w bits rq =
     (if bits = 0 then (rq, None)
      else let b = builtin_ffsl bits - 1; prio = w * 64 + b
        in if MAX_PRIO \<le> prio then (rq, None)
           else case queues rq ! prio of
               p # _ \<Rightarrow> (rq, Some p)
             | [] \<Rightarrow> rr_scan_word w (bits AND NOT (push_bit b 1))
                  (rq\<lparr>bitmap := (bitmap rq)[w := bitmap rq ! w AND NOT (push_bit b 1)]\<rparr>))"
  by pat_completeness auto

lemma ffsl_bit:
  assumes "(x :: u64) \<noteq> 0"
  shows "bit x (builtin_ffsl x - 1)" and "builtin_ffsl x - 1 < 64"
    and "j < builtin_ffsl x - 1 \<Longrightarrow> \<not> bit x j"
proof -
  obtain i where i: "builtin_ffsl x = Suc i" "i < 64" "bit x i" "\<forall>j<i. \<not> bit x j"
    using builtin_ffsl_least [OF assms] by blast
  show "bit x (builtin_ffsl x - 1)" "builtin_ffsl x - 1 < 64" using i by simp_all
  show "\<not> bit x j" if "j < builtin_ffsl x - 1" using i that by simp
qed

lemma clear_bit_less:
  assumes "bit (x :: u64) b"
  shows "unat (x AND NOT (2 ^ b)) < unat x"
proof -
  have "b < 64" using bit_imp_le_length [OF assms] by simp
  then have "\<not> bit (x AND NOT (2 ^ b)) b" by (simp add: bit_simps)
  then have "x AND NOT (2 ^ b) \<noteq> x" using assms by metis
  moreover have "x AND NOT (2 ^ b) \<le> x" by (rule word_and_le2)
  ultimately have "x AND NOT (2 ^ b) < x" by simp
  then show ?thesis by (simp only: word_less_nat_alt)
qed

termination rr_scan_word
proof (relation "measure (\<lambda>(w, bits, rq). unat bits)")
  fix w bits rq b prio
  assume "bits \<noteq> (0 :: u64)" and "b = builtin_ffsl bits - 1"
  then show "((w, bits AND NOT (push_bit b 1), rq\<lparr>bitmap := (bitmap rq)[w := bitmap rq ! w AND NOT (push_bit b 1)]\<rparr>),
      w, bits, rq) \<in> measure (\<lambda>(w, bits, rq). unat bits)"
    using clear_bit_less [OF ffsl_bit(1)] by simp
qed simp

declare rr_scan_word.simps [simp del]

fun rr_scan :: "nat list \<Rightarrow> run_queue \<Rightarrow> run_queue \<times> nat option" where
  "rr_scan [] rq = (rq, idle rq)"
| "rr_scan (w # ws) rq =
     (case rr_scan_word w (bitmap rq ! w) rq of
        (rq, Some p) \<Rightarrow> (rq, Some p)
      | (rq, None) \<Rightarrow> rr_scan ws rq)"

definition rr_pick_next :: "run_queue \<Rightarrow> run_queue \<times> nat option" where
  "rr_pick_next rq = rr_scan [0..<MAX_PRIO div 64 + 1] rq"

definition rr_yield :: "nat \<Rightarrow> run_queue \<Rightarrow> run_queue" where
  "rr_yield p rq =
     (if Some p \<noteq> idle rq
      then rr_enqueue p (upd_proc p (\<lambda>q. q\<lparr>time_slice := DEF_TIMESLICE\<rparr>) (rr_dequeue p rq))
      else rq)"

text \<open>C division truncates towards zero; the divisor is positive and the dividend too.\<close>

definition rr_time_slice :: "sched_proc \<Rightarrow> int" where
  "rr_time_slice p =
     (let slice = (if nice p < 0 then DEF_TIMESLICE + (- nice p * 2)
                   else if nice p > 0 then DEF_TIMESLICE - (nice p div 2) else DEF_TIMESLICE);
          slice = (if slice < MIN_TIMESLICE then MIN_TIMESLICE else slice)
      in if slice > MAX_TIMESLICE then MAX_TIMESLICE else slice)"

definition rr_tick :: "nat \<Rightarrow> run_queue \<Rightarrow> run_queue" where
  "rr_tick p rq =
     (if Some p \<noteq> idle rq then
        let rq = upd_proc p (\<lambda>q. q\<lparr>time_slice := time_slice q - 1\<rparr>) rq
        in if time_slice (procs rq p) \<le> 0 then
             (if nr_running rq > 0 then rq\<lparr>ti_flags := ti_flags rq OR TIF_NEED_RESCHED\<rparr>
              else upd_proc p (\<lambda>q. q\<lparr>time_slice := rr_time_slice q\<rparr>) rq)
           else rq
      else rq)"

definition rr_set_priority :: "nat \<Rightarrow> int \<Rightarrow> run_queue \<Rightarrow> run_queue" where
  "rr_set_priority p prio rq =
     (let prio = int (clamp_prio prio)
      in if state (procs rq p) = PROC_STATE_READY \<or> state (procs rq p) = PROC_STATE_RUNNING
         then rr_enqueue p (upd_proc p (\<lambda>q. q\<lparr>priority := prio\<rparr>) (rr_dequeue p rq))
         else upd_proc p (\<lambda>q. q\<lparr>priority := prio\<rparr>) rq)"

section \<open>Core scheduler\<close>

definition sleep_list_del :: "nat \<Rightarrow> run_queue \<Rightarrow> run_queue" where
  "sleep_list_del p rq = rq\<lparr>sleep_queue := remove1 p (sleep_queue rq)\<rparr>"

definition scheduler_enqueue :: "nat \<Rightarrow> run_queue \<Rightarrow> run_queue" where
  "scheduler_enqueue p rq =
     (if Some p = idle rq then rq
      else if \<not> process_schedulable rq p then rq
      else
        let rq = (if sleep_list_linked rq p
                  then upd_proc p (\<lambda>q. q\<lparr>wakeup_tick := 0\<rparr>) (sleep_list_del p rq) else rq);
            rq = upd_proc p (\<lambda>q. q\<lparr>state := PROC_STATE_READY, time_slice := rr_time_slice q\<rparr>) rq
        in rr_enqueue p rq)"

definition scheduler_dequeue :: "nat \<Rightarrow> run_queue \<Rightarrow> run_queue" where
  "scheduler_dequeue p rq = (if Some p = idle rq then rq else rr_dequeue p rq)"

text \<open>The first half of \<^verbatim>\<open>schedule\<close>: a current process that is still runnable goes back to its
  queue.\<close>

definition park_current :: "run_queue \<Rightarrow> run_queue" where
  "park_current rq = (case curr rq of None \<Rightarrow> rq
     | Some prev \<Rightarrow>
         if Some prev \<noteq> idle rq \<and> state (procs rq prev) = PROC_STATE_RUNNING \<and> process_schedulable rq prev
         then rr_enqueue prev (upd_proc prev (\<lambda>q. q\<lparr>state := PROC_STATE_READY\<rparr>) rq)
         else rq)"

text \<open>The choice of the next process, and its removal from the run queue.\<close>

definition choose_next :: "run_queue \<Rightarrow> run_queue \<times> nat option" where
  "choose_next rq =
     (let (rq, next) = rr_pick_next rq;
          next = (case next of None \<Rightarrow> idle rq | Some n \<Rightarrow> Some n);
          next = (case next of None \<Rightarrow> None
                  | Some n \<Rightarrow> if Some n \<noteq> idle rq \<and> \<not> process_schedulable rq n then idle rq else Some n)
      in case next of None \<Rightarrow> (rq, idle rq)
         | Some n \<Rightarrow>
             (if Some n \<noteq> idle rq \<and> state (procs rq n) = PROC_STATE_READY then rr_dequeue n rq else rq, Some n))"

text \<open>\<^verbatim>\<open>ticks\<close> is the value of \<^verbatim>\<open>get_ticks()\<close>.\<close>

definition schedule :: "u64 \<Rightarrow> run_queue \<Rightarrow> run_queue" where
  "schedule ticks rq =
     (let prev = curr rq;
          (rq, next) = choose_next (park_current rq);
          rq = (case next of None \<Rightarrow> rq
                | Some n \<Rightarrow> upd_proc n (\<lambda>q. (if time_slice q \<le> 0 then q\<lparr>time_slice := rr_time_slice q\<rparr> else q)
                    \<lparr>state := PROC_STATE_RUNNING, last_run := ticks\<rparr>) rq);
          rq = rq\<lparr>curr := next, ti_flags := ti_flags rq AND NOT TIF_NEED_RESCHED\<rparr>
      in if next = prev then rq
         else rq\<lparr>nr_switches := nr_switches rq + 1, total_switches := total_switches rq + 1\<rparr>)"

definition scheduler_yield :: "u64 \<Rightarrow> run_queue \<Rightarrow> run_queue" where
  "scheduler_yield ticks rq = schedule ticks rq"

definition tick_current :: "run_queue \<Rightarrow> run_queue" where
  "tick_current rq = (case curr rq of None \<Rightarrow> rq
     | Some p \<Rightarrow>
         rr_tick p (upd_proc p (\<lambda>q. (if flags q AND PROC_FLAG_KERNEL \<noteq> 0 then q\<lparr>stime := stime q + 1\<rparr>
             else q\<lparr>utime := utime q + 1\<rparr>)\<lparr>runtime := runtime q + TICK_MS\<rparr>) rq))"

text \<open>The body of the loop over the sleepers, and the loop, which runs over the list as it was at its
  start.\<close>

definition wake_if_due :: "nat \<Rightarrow> run_queue \<Rightarrow> run_queue" where
  "wake_if_due p rq =
     (if state (procs rq p) = PROC_STATE_SLEEPING \<and> wakeup_tick (procs rq p) \<le> clock rq
      then scheduler_enqueue p (upd_proc p (\<lambda>q. q\<lparr>wakeup_tick := 0\<rparr>) (sleep_list_del p rq))
      else rq)"

definition scheduler_tick :: "run_queue \<Rightarrow> run_queue" where
  "scheduler_tick rq =
     (let rq = tick_current rq;
          rq = rq\<lparr>clock := clock rq + TICK_MS\<rparr>
      in fold wake_if_due (sleep_queue rq) rq)"

text \<open>\<^verbatim>\<open>scheduler_exit\<close> never returns to its caller: the result is the state in which the next
  process runs, and \<^const>\<open>None\<close> is the panic when there is no current process.\<close>

definition scheduler_exit :: "u64 \<Rightarrow> run_queue \<Rightarrow> run_queue option" where
  "scheduler_exit ticks rq = (case curr rq of None \<Rightarrow> None
     | Some p \<Rightarrow> Some (schedule ticks (upd_proc p (\<lambda>q. q\<lparr>flags := flags q OR PROC_FLAG_EXITING,
         state := PROC_STATE_ZOMBIE\<rparr>) rq)))"

section \<open>Sleeping and waking\<close>

definition leave_queues :: "process_state \<Rightarrow> nat \<Rightarrow> run_queue \<Rightarrow> run_queue" where
  "leave_queues st p rq =
     (let rq = upd_proc p (\<lambda>q. q\<lparr>state := st\<rparr>) rq;
          rq = (if run_list_linked rq p then scheduler_dequeue p rq else rq)
      in if sleep_list_linked rq p then sleep_list_del p rq else rq)"

definition scheduler_sleep :: "u64 \<Rightarrow> nat \<Rightarrow> run_queue \<Rightarrow> run_queue" where
  "scheduler_sleep ticks p rq =
     schedule ticks (upd_proc p (\<lambda>q. q\<lparr>wakeup_tick := 0\<rparr>) (leave_queues PROC_STATE_BLOCKED p rq))"

definition scheduler_wake :: "nat \<Rightarrow> run_queue \<Rightarrow> run_queue" where
  "scheduler_wake p rq =
     (if state (procs rq p) = PROC_STATE_BLOCKED \<or> state (procs rq p) = PROC_STATE_SLEEPING then
        let rq = (if sleep_list_linked rq p
                  then upd_proc p (\<lambda>q. q\<lparr>wakeup_tick := 0\<rparr>) (sleep_list_del p rq) else rq);
            rq = scheduler_enqueue p rq
        in if curr rq = idle rq \<or>
             (case curr rq of None \<Rightarrow> False | Some c \<Rightarrow> priority (procs rq p) < priority (procs rq c))
           then rq\<lparr>ti_flags := ti_flags rq OR TIF_NEED_RESCHED\<rparr> else rq
      else rq)"

definition scheduler_sleep_timeout :: "u64 \<Rightarrow> nat \<Rightarrow> u64 \<Rightarrow> run_queue \<Rightarrow> run_queue" where
  "scheduler_sleep_timeout ticks p timeout_ms rq =
     (let rq = leave_queues PROC_STATE_SLEEPING p rq;
          rq = upd_proc p (\<lambda>q. q\<lparr>wakeup_tick := clock rq + timeout_ms\<rparr>) rq
      in schedule ticks (rq\<lparr>sleep_queue := sleep_queue rq @ [p]\<rparr>))"

section \<open>Priorities and policies\<close>

definition scheduler_set_priority :: "nat \<Rightarrow> int \<Rightarrow> run_queue \<Rightarrow> run_queue" where
  "scheduler_set_priority p prio rq = rr_set_priority p prio rq"

definition scheduler_set_nice :: "nat \<Rightarrow> int \<Rightarrow> run_queue \<Rightarrow> run_queue" where
  "scheduler_set_nice p n rq =
     (let n = (if n < MIN_NICE then MIN_NICE else n);
          n = (if n > MAX_NICE then MAX_NICE else n)
      in scheduler_set_priority p (DEFAULT_PRIO + n) (upd_proc p (\<lambda>q. q\<lparr>nice := n\<rparr>) rq))"

definition scheduler_set_policy :: "nat \<Rightarrow> int \<Rightarrow> run_queue \<Rightarrow> run_queue res" where
  "scheduler_set_policy p pol rq =
     (if pol < 0 \<or> int (num_policies rq) \<le> pol then Inl EINVAL
      else Inr (upd_proc p (\<lambda>q. q\<lparr>policy := pol\<rparr>) rq))"

text \<open>Registering a policy; \<^verbatim>\<open>complete\<close> says that the required operations are present.\<close>

definition scheduler_register_policy :: "bool \<Rightarrow> run_queue \<Rightarrow> run_queue res" where
  "scheduler_register_policy complete rq =
     (if \<not> complete then Inl EINVAL
      else if MAX_SCHED_POLICIES \<le> num_policies rq then Inl ENOMEM
      else Inr (rq\<lparr>num_policies := num_policies rq + 1\<rparr>))"

section \<open>Timer and initialisation\<close>

definition timer_handler :: "u64 \<Rightarrow> run_queue \<Rightarrow> run_queue" where
  "timer_handler ticks rq =
     (let rq = scheduler_tick rq
      in if ti_flags rq AND TIF_NEED_RESCHED \<noteq> 0 then schedule ticks rq else rq)"

text \<open>\<^verbatim>\<open>scheduler_init\<close> clears the queue, registers the round-robin policy (a panic is \<^const>\<open>None\<close>) and
  installs the idle process; the sleep queue is statically empty.\<close>

definition scheduler_init :: "nat option \<Rightarrow> run_queue \<Rightarrow> run_queue option" where
  "scheduler_init idle_process rq =
     (case scheduler_register_policy True (rq\<lparr>queues := replicate MAX_PRIO [],
             bitmap := replicate (MAX_PRIO div 64 + 1) 0, nr_running := 0, nr_switches := 0,
             curr := None, clock := 0, ti_flags := 0\<rparr>) of
        Inl e \<Rightarrow> None
      | Inr rq \<Rightarrow> Some (rq\<lparr>idle := idle_process, curr := None\<rparr>))"

definition scheduler_start :: "u64 \<Rightarrow> nat option \<Rightarrow> run_queue \<Rightarrow> run_queue" where
  "scheduler_start ticks init_process rq =
     schedule ticks (case init_process of None \<Rightarrow> rq | Some p \<Rightarrow> scheduler_enqueue p rq)"

end
