(* ===== verification/Sched_Inv.thy ===== *)
theory Sched_Inv
  imports Sched
begin

text \<open>
  Correctness of the scheduler: the run queue invariant and that every operation keeps it, the choice
  of the highest-priority process, round-robin order, timed wake-up, and the fate of a process that
  exits while it is still linked in a run queue. Processes are named by their process ids, of which
  there are \<^verbatim>\<open>PID_MAX\<close>.
\<close>

section \<open>The invariant\<close>

definition PID_MAX :: nat where "PID_MAX = 32768"

definition queued :: "run_queue \<Rightarrow> nat set" where
  "queued rq = (\<Union>i<MAX_PRIO. set (queues rq ! i))"

definition queue_ok :: "run_queue \<Rightarrow> nat \<Rightarrow> bool" where
  "queue_ok rq i \<longleftrightarrow> distinct (queues rq ! i) \<and> (queues rq ! i \<noteq> [] \<longrightarrow> test_bit i (bitmap rq)) \<and>
     (\<forall>p \<in> set (queues rq ! i). p < PID_MAX \<and> priority (procs rq p) = int i \<and> Some p \<noteq> idle rq)"

definition sched_inv :: "run_queue \<Rightarrow> bool" where
  "sched_inv rq \<longleftrightarrow> length (queues rq) = MAX_PRIO \<and> length (bitmap rq) = 3 \<and>
     (\<forall>p<PID_MAX. 0 \<le> priority (procs rq p) \<and> priority (procs rq p) < int MAX_PRIO) \<and>
     (\<forall>i<MAX_PRIO. queue_ok rq i) \<and>
     unat (nr_running rq) = (\<Sum>i<MAX_PRIO. length (queues rq ! i))"

lemma MAX_PRIO_less: "i < MAX_PRIO \<Longrightarrow> i < 64 * 3" "i < MAX_PRIO \<Longrightarrow> i div 64 < 3"
  by (auto simp: MAX_PRIO_def)

lemma linked_queued: "length (queues rq) = MAX_PRIO \<Longrightarrow> run_list_linked rq p \<longleftrightarrow> p \<in> queued rq"
  by (auto simp: run_list_linked_def queued_def list_ex_iff in_set_conv_nth Bex_def)

lemma queued_priority:
  assumes "sched_inv rq" and "i < MAX_PRIO" and "p \<in> set (queues rq ! i)"
  shows "priority (procs rq p) = int i" and "p < PID_MAX" and "Some p \<noteq> idle rq"
  using assms by (auto simp: sched_inv_def queue_ok_def)

lemma queued_at:
  assumes "sched_inv rq"
  shows "p \<in> queued rq \<longleftrightarrow> nat (priority (procs rq p)) < MAX_PRIO \<and>
    p \<in> set (queues rq ! nat (priority (procs rq p)))"
  using queued_priority(1) [OF assms] by (auto simp: queued_def)

lemma card_queued:
  assumes "sched_inv rq"
  shows "(\<Sum>i<MAX_PRIO. length (queues rq ! i)) = card (queued rq)" and "card (queued rq) \<le> PID_MAX"
proof -
  have "card (queued rq) = (\<Sum>i<MAX_PRIO. card (set (queues rq ! i)))"
    unfolding queued_def
  proof (rule card_UN_disjoint)
    show "\<forall>i\<in>{..<MAX_PRIO}. \<forall>j\<in>{..<MAX_PRIO}. i \<noteq> j \<longrightarrow> set (queues rq ! i) \<inter> set (queues rq ! j) = {}"
    proof (intro ballI impI)
      fix i j assume ij: "i \<in> {..<MAX_PRIO}" "j \<in> {..<MAX_PRIO}" "i \<noteq> j"
      then show "set (queues rq ! i) \<inter> set (queues rq ! j) = {}"
        using queued_priority(1) [OF assms, of i] queued_priority(1) [OF assms, of j] by fastforce
    qed
  qed simp_all
  also have "\<dots> = (\<Sum>i<MAX_PRIO. length (queues rq ! i))"
    using assms by (intro sum.cong) (auto simp: sched_inv_def queue_ok_def distinct_card)
  finally show "(\<Sum>i<MAX_PRIO. length (queues rq ! i)) = card (queued rq)" by simp
  have "queued rq \<subseteq> {..<PID_MAX}" using queued_priority(2) [OF assms] by (auto simp: queued_def)
  from card_mono [OF _ this] show "card (queued rq) \<le> PID_MAX" by simp
qed

text \<open>Changing a process without touching its priority, or the counters, keeps the invariant.\<close>

lemma sched_inv_cong:
  assumes "queues rq' = queues rq" "bitmap rq' = bitmap rq" "nr_running rq' = nr_running rq" "idle rq' = idle rq"
    and "\<And>p. priority (procs rq' p) = priority (procs rq p)"
  shows "sched_inv rq' = sched_inv rq" and "queued rq' = queued rq"
  by (simp_all add: sched_inv_def queue_ok_def queued_def assms)

lemma sched_inv_upd_proc [simp]:
  assumes "\<And>q. priority (f q) = priority q"
  shows "sched_inv (upd_proc p f rq) = sched_inv rq" and "queued (upd_proc p f rq) = queued rq"
  using sched_inv_cong [of "upd_proc p f rq" rq] assms by (auto simp: upd_proc_def)

lemma upd_proc_simps [simp]:
  "queues (upd_proc p f rq) = queues rq" "bitmap (upd_proc p f rq) = bitmap rq"
  "idle (upd_proc p f rq) = idle rq" "curr (upd_proc p f rq) = curr rq"
  "procs (upd_proc p f rq) = (procs rq)(p := f (procs rq p))" "clock (upd_proc p f rq) = clock rq"
  "sleep_queue (upd_proc p f rq) = sleep_queue rq" "nr_running (upd_proc p f rq) = nr_running rq"
  "ti_flags (upd_proc p f rq) = ti_flags rq"
  by (simp_all add: upd_proc_def)

section \<open>Enqueue and dequeue\<close>

lemma clamp_prio_id: "0 \<le> x \<Longrightarrow> x < int MAX_PRIO \<Longrightarrow> clamp_prio x = nat x"
  by (simp add: clamp_prio_def)

lemma clamp_prio_less: "clamp_prio x < MAX_PRIO"
  by (auto simp: clamp_prio_def MAX_PRIO_def)

lemma set_bit_word:
  "bm[i div 64 := bm ! (i div 64) OR 2 ^ (i mod 64)] = set_bit i bm"
  "bm[i div 64 := bm ! (i div 64) AND NOT (2 ^ (i mod 64))] = clear_bit i bm"
  by (simp_all add: set_bit_def clear_bit_def BIT_WORD_def BIT_MASK_def)

lemma rr_enqueue_effect:
  assumes inv: "sched_inv rq" and p: "p < PID_MAX" "Some p \<noteq> idle rq"
  defines "i \<equiv> nat (priority (procs rq p))"
  shows "sched_inv (rr_enqueue p rq)" and "queued (rr_enqueue p rq) = insert p (queued rq)"
    and "p \<notin> queued rq \<Longrightarrow> queues (rr_enqueue p rq) = (queues rq)[i := queues rq ! i @ [p]]"
    and "p \<in> queued rq \<Longrightarrow> rr_enqueue p rq = rq"
proof -
  have pr: "0 \<le> priority (procs rq p)" "priority (procs rq p) < int MAX_PRIO" and len: "length (queues rq) = MAX_PRIO"
    "length (bitmap rq) = 3" using inv p by (auto simp: sched_inv_def)
  have i: "i < MAX_PRIO" "clamp_prio (priority (procs rq p)) = i" "priority (procs rq p) = int i"
    using pr clamp_prio_id by (auto simp: i_def)
  show same: "rr_enqueue p rq = rq" if "p \<in> queued rq"
    using that linked_queued [OF len(1)] by (simp add: rr_enqueue_def)
  have e: "rr_enqueue p rq = rq\<lparr>queues := (queues rq)[i := queues rq ! i @ [p]],
      bitmap := set_bit i (bitmap rq), nr_running := nr_running rq + 1\<rparr>" if "p \<notin> queued rq"
    using that linked_queued [OF len(1)] i MAX_PRIO_less(2) [OF i(1)] len(2)
    by (simp add: rr_enqueue_def Let_def set_bit_word)
  then show "queues (rr_enqueue p rq) = (queues rq)[i := queues rq ! i @ [p]]" if "p \<notin> queued rq"
    using that by simp
  show "queued (rr_enqueue p rq) = insert p (queued rq)"
  proof (cases "p \<in> queued rq")
    case False
    then show ?thesis
      using e i(1) len(1) by (auto simp: queued_def nth_list_update split: if_splits)
  qed (simp add: same insert_absorb)
  show "sched_inv (rr_enqueue p rq)"
  proof (cases "p \<in> queued rq")
    case False
    have "p \<notin> set (queues rq ! i)" using False i(1) by (auto simp: queued_def)
    moreover have "test_bit j (set_bit i (bitmap rq)) \<longleftrightarrow> j = i \<or> test_bit j (bitmap rq)" for j
      using ulong.test_setb [of i "bitmap rq" j] MAX_PRIO_less(1) [OF i(1)] len(2) by simp
    ultimately have q: "queue_ok (rr_enqueue p rq) j" if "j < MAX_PRIO" for j
      using inv that i p len(1) e [OF False] by (auto simp: sched_inv_def queue_ok_def nth_list_update)
    have "unat (nr_running rq) \<le> PID_MAX" using inv card_queued [OF inv] by (simp add: sched_inv_def)
    then have "unat (nr_running rq + 1) = Suc (unat (nr_running rq))" by (simp add: PID_MAX_def)
    moreover have "(\<Sum>j<MAX_PRIO. length ((queues rq)[i := queues rq ! i @ [p]] ! j)) =
        Suc (\<Sum>j<MAX_PRIO. length (queues rq ! j))"
      using i(1) len(1) by (simp add: sum.remove [of _ i])
    ultimately show ?thesis
      using inv q len e [OF False] by (simp add: sched_inv_def set_bit_def)
  qed (use same inv in simp)
qed

lemma rr_dequeue_effect:
  assumes inv: "sched_inv rq"
  shows "sched_inv (rr_dequeue p rq)" and "queued (rr_dequeue p rq) = queued rq - {p}"
    and "queues (rr_dequeue p rq) = map (remove1 p) (queues rq)" and "procs (rr_dequeue p rq) = procs rq"
proof -
  have len: "length (queues rq) = MAX_PRIO" "length (bitmap rq) = 3" using inv by (auto simp: sched_inv_def)
  define i where "i = nat (priority (procs rq p))"
  show "procs (rr_dequeue p rq) = procs rq" by (simp add: rr_dequeue_def run_list_del_def Let_def)
  have notin: "map (remove1 p) (queues rq) = queues rq" if "p \<notin> queued rq"
    using that len by (intro nth_equalityI) (auto simp: queued_def remove1_idem)
  show qs: "queues (rr_dequeue p rq) = map (remove1 p) (queues rq)"
    using notin linked_queued [OF len(1)] by (auto simp: rr_dequeue_def run_list_del_def Let_def)
  show "queued (rr_dequeue p rq) = queued rq - {p}"
    using inv len by (auto simp: queued_def qs sched_inv_def queue_ok_def)
  show "sched_inv (rr_dequeue p rq)"
  proof (cases "p \<in> queued rq")
    case False
    then show ?thesis using inv linked_queued [OF len(1)] by (simp add: rr_dequeue_def)
  next
    case True
    then have i: "i < MAX_PRIO" "p \<in> set (queues rq ! i)" using queued_at [OF inv] by (auto simp: i_def)
    have oth: "remove1 p (queues rq ! j) = queues rq ! j" if "j < MAX_PRIO" "j \<noteq> i" for j
      using that queued_priority(1) [OF inv that(1), of p] by (intro remove1_idem) (auto simp: i_def)
    let ?b = "if remove1 p (queues rq ! i) = [] then clear_bit i (bitmap rq) else bitmap rq"
    have b: "test_bit j ?b \<longleftrightarrow> test_bit j (bitmap rq) \<and> (j = i \<longrightarrow> remove1 p (queues rq ! i) \<noteq> [])" for j
      using ulong.test_clearb [of i "bitmap rq" j] MAX_PRIO_less(1) [OF i(1)] len(2) by auto
    have e: "rr_dequeue p rq = rq\<lparr>queues := map (remove1 p) (queues rq), bitmap := ?b,
        nr_running := (if nr_running rq > 0 then nr_running rq - 1 else nr_running rq)\<rparr>"
      using True i linked_queued [OF len(1)] len
      by (simp add: rr_dequeue_def run_list_del_def Let_def i_def [symmetric] set_bit_word)
    have q: "queue_ok (rr_dequeue p rq) j" if j: "j < MAX_PRIO" for j
    proof (cases "j = i")
      case True
      then show ?thesis
        using inv j len by (auto simp: e b sched_inv_def queue_ok_def dest: notin_set_remove1 set_remove1_subset [THEN subsetD])
    next
      case False
      then show ?thesis using inv j len oth [OF j False] by (simp add: e b sched_inv_def queue_ok_def)
    qed
    have "0 < length (queues rq ! i)" using i(2) by auto
    then have "length (remove1 p (queues rq ! i)) + 1 = length (queues rq ! i)"
      using i(2) by (simp add: length_remove1)
    moreover have "(\<Sum>j\<in>{..<MAX_PRIO} - {i}. length (remove1 p (queues rq ! j))) =
        (\<Sum>j\<in>{..<MAX_PRIO} - {i}. length (queues rq ! j))" using oth by (intro sum.cong) auto
    ultimately have s: "Suc (\<Sum>j<MAX_PRIO. length (map (remove1 p) (queues rq) ! j)) = unat (nr_running rq)"
      using inv i(1) len(1) by (simp add: sched_inv_def sum.remove [of _ i])
    then have "nr_running rq \<noteq> 0" by auto
    then have "unat (nr_running rq - 1) = unat (nr_running rq) - 1" "nr_running rq > 0"
      by (simp_all add: unat_dec word_greater_zero_iff)
    then show ?thesis
      using inv q len s by (simp add: sched_inv_def e clear_bit_def)
  qed
qed

section \<open>Picking the next process\<close>

text \<open>Clearing bits of empty queues only.\<close>

definition stale_cleared :: "run_queue \<Rightarrow> run_queue \<Rightarrow> bool" where
  "stale_cleared rq rq' \<longleftrightarrow> (\<exists>b. rq' = rq\<lparr>bitmap := b\<rparr> \<and> length b = length (bitmap rq) \<and>
     (\<forall>i<MAX_PRIO. queues rq ! i \<noteq> [] \<longrightarrow> test_bit i (bitmap rq) \<longrightarrow> test_bit i b))"

lemma stale_cleared_refl: "stale_cleared rq rq"
  unfolding stale_cleared_def by (intro exI [of _ "bitmap rq"]) simp

lemma stale_cleared_trans:
  assumes "stale_cleared rq rq1" and "stale_cleared rq1 rq2"
  shows "stale_cleared rq rq2"
proof -
  obtain b1 where 1: "rq1 = rq\<lparr>bitmap := b1\<rparr>" "length b1 = length (bitmap rq)"
    "\<forall>i<MAX_PRIO. queues rq ! i \<noteq> [] \<longrightarrow> test_bit i (bitmap rq) \<longrightarrow> test_bit i b1"
    using assms(1) unfolding stale_cleared_def by blast
  obtain b2 where 2: "rq2 = rq1\<lparr>bitmap := b2\<rparr>" "length b2 = length (bitmap rq1)"
    "\<forall>i<MAX_PRIO. queues rq1 ! i \<noteq> [] \<longrightarrow> test_bit i (bitmap rq1) \<longrightarrow> test_bit i b2"
    using assms(2) unfolding stale_cleared_def by blast
  show ?thesis
    unfolding stale_cleared_def using 1 2 by (intro exI [of _ b2]) simp
qed

lemma stale_cleared_inv:
  assumes "stale_cleared rq rq'"
  shows "sched_inv rq \<Longrightarrow> sched_inv rq'" and "queues rq' = queues rq" and "procs rq' = procs rq"
    and "idle rq' = idle rq" and "queued rq' = queued rq" and "sleep_queue rq' = sleep_queue rq"
    and "clock rq' = clock rq" and "curr rq' = curr rq" and "ti_flags rq' = ti_flags rq"
    and "length (bitmap rq') = length (bitmap rq)"
proof -
  obtain b where b: "rq' = rq\<lparr>bitmap := b\<rparr>" "length b = length (bitmap rq)"
    "\<forall>i<MAX_PRIO. queues rq ! i \<noteq> [] \<longrightarrow> test_bit i (bitmap rq) \<longrightarrow> test_bit i b"
    using assms unfolding stale_cleared_def by blast
  show "sched_inv rq'" if "sched_inv rq"
    using that b unfolding sched_inv_def queue_ok_def by simp
  show "queues rq' = queues rq" "procs rq' = procs rq" "idle rq' = idle rq" "queued rq' = queued rq"
    "sleep_queue rq' = sleep_queue rq" "clock rq' = clock rq" "curr rq' = curr rq" "ti_flags rq' = ti_flags rq"
    "length (bitmap rq') = length (bitmap rq)"
    using b by (simp_all add: queued_def)
qed

lemma stale_bit_cleared:
  assumes "w < length (bitmap rq)" and "b < 64" and "queues rq ! (w * 64 + b) = []"
  shows "stale_cleared rq (rq\<lparr>bitmap := (bitmap rq)[w := bitmap rq ! w AND NOT (push_bit b 1)]\<rparr>)"
proof -
  let ?i = "w * 64 + b"
  have "(bitmap rq)[w := bitmap rq ! w AND NOT (push_bit b 1)] = clear_bit ?i (bitmap rq)"
    using assms(2) by (simp add: clear_bit_def BIT_WORD_def BIT_MASK_def)
  moreover have "test_bit i (clear_bit ?i (bitmap rq))" if "test_bit i (bitmap rq)" "queues rq ! i \<noteq> []" for i
    using ulong.test_clearb [of ?i "bitmap rq" i] that assms by auto
  ultimately show ?thesis
    unfolding stale_cleared_def by (intro exI [of _ "clear_bit ?i (bitmap rq)"]) (simp add: clear_bit_def)
qed

text \<open>What the scan of a word returns: the head of its first non-empty queue, if there is one.\<close>

definition word_result :: "run_queue \<Rightarrow> nat \<Rightarrow> nat option \<Rightarrow> bool" where
  "word_result rq w r = (case r of
     None \<Rightarrow> \<forall>b<64. w * 64 + b < MAX_PRIO \<longrightarrow> queues rq ! (w * 64 + b) = []
   | Some p \<Rightarrow> \<exists>b<64. w * 64 + b < MAX_PRIO \<and> queues rq ! (w * 64 + b) \<noteq> [] \<and> p = hd (queues rq ! (w * 64 + b)) \<and>
       (\<forall>j<b. queues rq ! (w * 64 + j) = []))"

lemma word_result_bitmap [simp]: "word_result (rq\<lparr>bitmap := b\<rparr>) w r = word_result rq w r"
  by (cases r) (simp_all add: word_result_def)

lemma rr_scan_word_result:
  assumes "w < length (bitmap rq)"
    and "\<And>b. b < 64 \<Longrightarrow> w * 64 + b < MAX_PRIO \<Longrightarrow> queues rq ! (w * 64 + b) \<noteq> [] \<Longrightarrow> bit bits b"
    and "rr_scan_word w bits rq = (rq', r)"
  shows "stale_cleared rq rq' \<and> word_result rq w r"
  using assms
proof (induction w bits rq arbitrary: rq' r rule: rr_scan_word.induct)
  case (1 w bits rq)
  show ?case
  proof (cases "bits = 0")
    case True
    then have "rq' = rq" "r = None" using "1.prems"(3) by (simp_all add: rr_scan_word.simps [of w 0 rq])
    then show ?thesis using True "1.prems"(2) by (auto simp: stale_cleared_refl word_result_def)
  next
    case False
    define b where "b = builtin_ffsl bits - 1"
    have step: "rr_scan_word w bits rq = (if MAX_PRIO \<le> w * 64 + b then (rq, None)
        else case queues rq ! (w * 64 + b) of p # _ \<Rightarrow> (rq, Some p)
          | [] \<Rightarrow> rr_scan_word w (bits AND NOT (push_bit b 1))
               (rq\<lparr>bitmap := (bitmap rq)[w := bitmap rq ! w AND NOT (push_bit b 1)]\<rparr>))"
      unfolding b_def using False by (subst rr_scan_word.simps) (simp only: Let_def if_False)
    have b: "bit bits b" "b < 64" "\<And>j. j < b \<Longrightarrow> \<not> bit bits j"
      using ffsl_bit [OF False] by (auto simp: b_def)
    have low: "queues rq ! (w * 64 + j) = []" if "j < b" "w * 64 + j < MAX_PRIO" for j
      using "1.prems"(2) [of j] b(2) b(3) [OF that(1)] that by fastforce
    show ?thesis
    proof (cases "MAX_PRIO \<le> w * 64 + b")
      case True
      have "queues rq ! (w * 64 + j) = []" if "w * 64 + j < MAX_PRIO" for j
        using True that by (intro low) auto
      then show ?thesis
        using True False "1.prems"(3) by (auto simp: step stale_cleared_refl word_result_def)
    next
      case in_range: False
      show ?thesis
      proof (cases "queues rq ! (w * 64 + b)")
        case (Cons p ps)
        then have "rq' = rq" "r = Some p"
          using False in_range "1.prems"(3) by (auto simp: step)
        then show ?thesis
          using Cons b(2) low in_range by (auto simp: stale_cleared_refl word_result_def intro!: exI [of _ b])
      next
        case Nil
        let ?rq = "rq\<lparr>bitmap := (bitmap rq)[w := bitmap rq ! w AND NOT (push_bit b 1)]\<rparr>"
        let ?bits = "bits AND NOT (push_bit b 1)"
        have st: "stale_cleared rq ?rq" by (rule stale_bit_cleared [OF "1.prems"(1) b(2) Nil])
        have r: "rr_scan_word w ?bits ?rq = (rq', r)"
          using False in_range Nil "1.prems"(3) by (simp add: step)
        have "bit ?bits j" if "j < 64" "w * 64 + j < MAX_PRIO" "queues ?rq ! (w * 64 + j) \<noteq> []" for j
          using "1.prems"(2) [of j] that Nil by (cases "j = b") (auto simp: bit_simps)
        then have "stale_cleared ?rq rq' \<and> word_result ?rq w r"
          using "1.IH" [OF False b_def refl in_range Nil _ _ r] "1.prems"(1) by simp
        then show ?thesis using stale_cleared_trans [OF st] by simp
      qed
    qed
  qed
qed

text \<open>The first non-empty queue.\<close>

definition first_ready :: "run_queue \<Rightarrow> nat option" where
  "first_ready rq = (case find (\<lambda>i. queues rq ! i \<noteq> []) [0..<MAX_PRIO] of
     None \<Rightarrow> idle rq | Some i \<Rightarrow> Some (hd (queues rq ! i)))"

lemma first_ready_cong: "queues rq' = queues rq \<Longrightarrow> idle rq' = idle rq \<Longrightarrow> first_ready rq' = first_ready rq"
  by (simp add: first_ready_def split: option.split)

lemma first_ready_least:
  assumes "i < MAX_PRIO" and "queues rq ! i \<noteq> []" and "\<And>j. j < i \<Longrightarrow> queues rq ! j = []"
  shows "first_ready rq = Some (hd (queues rq ! i))"
proof -
  have "find (\<lambda>i. queues rq ! i \<noteq> []) [0..<MAX_PRIO] = Some i"
    using assms by (auto simp: find_Some_iff intro!: exI [of _ i])
  then show ?thesis by (simp add: first_ready_def)
qed

lemma rr_scan_result:
  assumes "sched_inv rq" and "n \<le> 3" and "\<And>j. j < 64 * n \<Longrightarrow> j < MAX_PRIO \<Longrightarrow> queues rq ! j = []"
    and "rr_scan [n..<3] rq = (rq', r)"
  shows "stale_cleared rq rq' \<and> r = first_ready rq"
  using assms
proof (induction "3 - n" arbitrary: n rq)
  case 0
  then have "n = 3" by simp
  then have "find (\<lambda>i. queues rq ! i \<noteq> []) [0..<MAX_PRIO] = None"
    using 0 MAX_PRIO_less(1) by (auto simp: find_None_iff)
  then show ?case using 0 \<open>n = 3\<close> by (auto simp: stale_cleared_refl first_ready_def)
next
  case (Suc d)
  then have n: "n < 3" "[n..<3] = n # [Suc n..<3]" by (auto simp: upt_conv_Cons)
  have len: "length (bitmap rq) = 3" using Suc.prems(1) by (simp add: sched_inv_def)
  obtain rq1 o1 where w: "rr_scan_word n (bitmap rq ! n) rq = (rq1, o1)" by fastforce
  have "bit (bitmap rq ! n) b" if "b < 64" "n * 64 + b < MAX_PRIO" "queues rq ! (n * 64 + b) \<noteq> []" for b
    using that Suc.prems(1) test_bit_word [OF that(1), of n "bitmap rq"]
    by (simp add: sched_inv_def queue_ok_def mult.commute)
  then have st: "stale_cleared rq rq1" and wr: "word_result rq n o1"
    using rr_scan_word_result [OF _ _ w] n(1) len by auto
  show ?case
  proof (cases o1)
    case None
    have r: "rr_scan [Suc n..<3] rq1 = (rq', r)" using Suc.prems(4) w None n(2) by simp
    have "queues rq1 ! j = []" if "j < 64 * Suc n" "j < MAX_PRIO" for j
    proof (cases "j < 64 * n")
      case False
      then have "j = n * 64 + (j - n * 64)" "j - n * 64 < 64" using that(1) by simp_all
      then obtain b where "j = n * 64 + b" "b < 64" by blast
      then show ?thesis using wr None that(2) by (simp add: word_result_def stale_cleared_inv(2) [OF st])
    qed (use Suc.prems(3) that in \<open>simp add: stale_cleared_inv(2) [OF st]\<close>)
    then have "stale_cleared rq1 rq' \<and> r = first_ready rq1"
      using Suc.hyps(2) n(1) stale_cleared_inv(1) [OF st Suc.prems(1)] r by (intro Suc.hyps(1) [of "Suc n"]) auto
    then show ?thesis
      using stale_cleared_trans [OF st] by (simp add: first_ready_cong [OF stale_cleared_inv(2,4) [OF st]])
  next
    case (Some p)
    obtain b where b: "b < 64" "n * 64 + b < MAX_PRIO" "queues rq ! (n * 64 + b) \<noteq> []"
      "p = hd (queues rq ! (n * 64 + b))" "\<forall>j<b. queues rq ! (n * 64 + j) = []"
      using wr Some by (auto simp: word_result_def)
    have "queues rq ! j = []" if "j < n * 64 + b" for j
    proof (cases "j < 64 * n")
      case False
      then obtain c where "j = n * 64 + c" using le_Suc_ex [of "64 * n" j] by (auto simp: mult.commute)
      then show ?thesis using b(5) that by simp
    qed (use Suc.prems(3) that b(2) in simp)
    then have "first_ready rq = Some p" using first_ready_least [OF b(2,3)] b(4) by simp
    then show ?thesis using Suc.prems(4) w Some n(2) st by simp
  qed
qed

lemma rr_pick_next_result:
  assumes "sched_inv rq" and "rr_pick_next rq = (rq', r)"
  shows "stale_cleared rq rq' \<and> r = first_ready rq"
proof -
  have "MAX_PRIO div 64 + 1 = 3" by (simp add: MAX_PRIO_def)
  then show ?thesis using rr_scan_result [OF assms(1), of 0 rq' r] assms(2) by (simp add: rr_pick_next_def)
qed

end
