(* ===== verification/Sched_Props.thy ===== *)
theory Sched_Props
  imports Sched_Inv
begin

text \<open>
  Properties of the scheduler's operations: every operation keeps the run queue invariant, so it
  holds in all reachable states; a running process and its equals rotate in round-robin order and
  each gets its turn; a due sleeper is woken by the tick; a queued process that has exited blocks the
  processes of lower priority.
\<close>

section \<open>The operations keep the invariant\<close>

text \<open>The queues, the processes in them and the identity of the current and idle process.\<close>

definition sched_wf :: "run_queue \<Rightarrow> bool" where
  "sched_wf rq \<longleftrightarrow> sched_inv rq \<and> (\<forall>p. curr rq = Some p \<longrightarrow> p < PID_MAX) \<and> (\<forall>p. idle rq = Some p \<longrightarrow> p < PID_MAX)"

lemma rr_frame [simp]:
  "procs (rr_enqueue p rq) = procs rq" "idle (rr_enqueue p rq) = idle rq" "curr (rr_enqueue p rq) = curr rq"
  "sleep_queue (rr_enqueue p rq) = sleep_queue rq" "clock (rr_enqueue p rq) = clock rq"
  "ti_flags (rr_enqueue p rq) = ti_flags rq"
  "procs (rr_dequeue p rq) = procs rq" "idle (rr_dequeue p rq) = idle rq" "curr (rr_dequeue p rq) = curr rq"
  "sleep_queue (rr_dequeue p rq) = sleep_queue rq" "clock (rr_dequeue p rq) = clock rq"
  by (simp_all add: rr_enqueue_def rr_dequeue_def run_list_del_def Let_def)

lemma sched_wf_upd_proc [simp]:
  assumes "\<And>q. priority (f q) = priority q"
  shows "sched_wf (upd_proc p f rq) = sched_wf rq"
  using assms by (simp add: sched_wf_def)

lemma sched_inv_fields [simp]:
  "sched_inv (rq\<lparr>sleep_queue := s\<rparr>) = sched_inv rq" "sched_inv (rq\<lparr>ti_flags := t\<rparr>) = sched_inv rq"
  "sched_inv (rq\<lparr>clock := c\<rparr>) = sched_inv rq" "sched_inv (rq\<lparr>curr := u\<rparr>) = sched_inv rq"
  "sched_inv (rq\<lparr>nr_switches := n\<rparr>) = sched_inv rq" "sched_inv (rq\<lparr>total_switches := n\<rparr>) = sched_inv rq"
  "sched_inv (rq\<lparr>num_policies := m\<rparr>) = sched_inv rq"
  by (rule sched_inv_cong; simp)+

lemma sched_wf_fields [simp]:
  "sched_wf (rq\<lparr>sleep_queue := s\<rparr>) = sched_wf rq" "sched_wf (rq\<lparr>ti_flags := t\<rparr>) = sched_wf rq"
  "sched_wf (rq\<lparr>clock := c\<rparr>) = sched_wf rq" "sched_wf (rq\<lparr>nr_switches := n\<rparr>) = sched_wf rq"
  "sched_wf (rq\<lparr>total_switches := n\<rparr>) = sched_wf rq" "sched_wf (rq\<lparr>num_policies := m\<rparr>) = sched_wf rq"
  by (simp_all add: sched_wf_def)

lemma rr_enqueue_wf: "sched_wf rq \<Longrightarrow> p < PID_MAX \<Longrightarrow> Some p \<noteq> idle rq \<Longrightarrow> sched_wf (rr_enqueue p rq)"
  using rr_enqueue_effect(1) [of rq p] by (simp add: sched_wf_def)

lemma rr_dequeue_wf: "sched_wf rq \<Longrightarrow> sched_wf (rr_dequeue p rq)"
  using rr_dequeue_effect(1) [of rq p] by (simp add: sched_wf_def)

lemma sleep_list_del_wf [simp]:
  "sched_wf (sleep_list_del p rq) = sched_wf rq" "idle (sleep_list_del p rq) = idle rq"
  "procs (sleep_list_del p rq) = procs rq" "queues (sleep_list_del p rq) = queues rq"
  "queued (sleep_list_del p rq) = queued rq" "curr (sleep_list_del p rq) = curr rq"
  "clock (sleep_list_del p rq) = clock rq" "sched_inv (sleep_list_del p rq) = sched_inv rq"
  by (simp_all add: sleep_list_del_def queued_def)

lemma scheduler_enqueue_wf: "sched_wf rq \<Longrightarrow> p < PID_MAX \<Longrightarrow> sched_wf (scheduler_enqueue p rq)"
  by (auto simp: scheduler_enqueue_def Let_def intro!: rr_enqueue_wf)

lemma scheduler_enqueue_frame [simp]:
  "idle (scheduler_enqueue p rq) = idle rq" "curr (scheduler_enqueue p rq) = curr rq"
  "clock (scheduler_enqueue p rq) = clock rq"
  by (simp_all add: scheduler_enqueue_def Let_def)

lemma scheduler_dequeue_wf: "sched_wf rq \<Longrightarrow> sched_wf (scheduler_dequeue p rq)"
  by (simp add: scheduler_dequeue_def rr_dequeue_wf)

lemma curr_bound: "sched_wf rq \<Longrightarrow> curr rq = Some p \<Longrightarrow> p < PID_MAX"
  by (simp add: sched_wf_def)

lemma park_current_wf: "sched_wf rq \<Longrightarrow> sched_wf (park_current rq)"
  by (auto simp: park_current_def curr_bound split: option.split intro!: rr_enqueue_wf)

lemma queued_bound: "sched_inv rq \<Longrightarrow> p \<in> queued rq \<Longrightarrow> p < PID_MAX"
  using queued_priority(2) by (auto simp: queued_def)

lemma first_ready_queued:
  assumes "first_ready rq = Some p"
  shows "p \<in> queued rq \<or> idle rq = Some p"
proof (cases "find (\<lambda>i. queues rq ! i \<noteq> []) [0..<MAX_PRIO]")
  case (Some i)
  then have "i < MAX_PRIO" "queues rq ! i \<noteq> []" by (auto simp: find_Some_iff)
  moreover have "p = hd (queues rq ! i)" using assms Some by (simp add: first_ready_def)
  ultimately show ?thesis by (auto simp: queued_def intro!: bexI [of _ i])
qed (use assms in \<open>simp add: first_ready_def\<close>)

text \<open>The choice of the next process written out over \<^const>\<open>first_ready\<close>.\<close>

lemma choose_next_result:
  assumes "sched_inv rq"
  obtains rq' where "stale_cleared rq rq'"
    and "choose_next rq = (case first_ready rq of None \<Rightarrow> (rq', idle rq)
      | Some n \<Rightarrow> if Some n = idle rq \<or> \<not> process_schedulable rq n then (rq', idle rq)
          else (if state (procs rq n) = PROC_STATE_READY then rr_dequeue n rq' else rq', Some n))"
proof -
  obtain rq' r where pn: "rr_pick_next rq = (rq', r)" by fastforce
  have st: "stale_cleared rq rq'" and r: "r = first_ready rq" using rr_pick_next_result [OF assms pn] by auto
  note f = stale_cleared_inv(2-4) [OF st]
  have s: "process_schedulable rq' p = process_schedulable rq p" for p by (simp add: process_schedulable_def f)
  show ?thesis
  proof (rule that [OF st], cases "first_ready rq")
    case None
    then have "idle rq = None" by (auto simp: first_ready_def split: option.splits)
    then show "choose_next rq = (case first_ready rq of None \<Rightarrow> (rq', idle rq)
      | Some n \<Rightarrow> if Some n = idle rq \<or> \<not> process_schedulable rq n then (rq', idle rq)
          else (if state (procs rq n) = PROC_STATE_READY then rr_dequeue n rq' else rq', Some n))"
      using None by (simp add: choose_next_def pn r f)
  next
    case (Some n)
    then show "choose_next rq = (case first_ready rq of None \<Rightarrow> (rq', idle rq)
      | Some n \<Rightarrow> if Some n = idle rq \<or> \<not> process_schedulable rq n then (rq', idle rq)
          else (if state (procs rq n) = PROC_STATE_READY then rr_dequeue n rq' else rq', Some n))"
      by (cases "idle rq") (auto simp: choose_next_def pn r f s)
  qed
qed

lemma stale_cleared_wf: "stale_cleared rq rq' \<Longrightarrow> sched_wf rq \<Longrightarrow> sched_wf rq'"
  using stale_cleared_inv(1,4,8) [of rq rq'] by (simp add: sched_wf_def)

lemma choose_next_wf:
  assumes "sched_wf rq" and "choose_next rq = (rq', r)"
  shows "sched_wf rq'" and "r = Some n \<Longrightarrow> n < PID_MAX" and "idle rq' = idle rq"
proof -
  have inv: "sched_inv rq" using assms(1) by (simp add: sched_wf_def)
  obtain rq1 where st: "stale_cleared rq rq1"
    and c: "choose_next rq = (case first_ready rq of None \<Rightarrow> (rq1, idle rq)
      | Some n \<Rightarrow> if Some n = idle rq \<or> \<not> process_schedulable rq n then (rq1, idle rq)
          else (if state (procs rq n) = PROC_STATE_READY then rr_dequeue n rq1 else rq1, Some n))"
    using choose_next_result [OF inv] by blast
  note w = stale_cleared_wf [OF st assms(1)]
  show "sched_wf rq'" "idle rq' = idle rq"
    using c assms(2) w rr_dequeue_wf [OF w] stale_cleared_inv(4) [OF st]
    by (auto split: option.splits if_splits)
  have "m < PID_MAX" if "first_ready rq = Some m" for m
    using first_ready_queued [OF that] queued_bound [OF inv] assms(1) by (auto simp: sched_wf_def)
  then show "n < PID_MAX" if "r = Some n"
    using that c assms by (auto simp: sched_wf_def split: option.splits if_splits)
qed

lemma schedule_wf:
  assumes "sched_wf rq"
  shows "sched_wf (schedule t rq)"
proof -
  obtain rq' r where c: "choose_next (park_current rq) = (rq', r)" by fastforce
  note w = choose_next_wf(1,2) [OF park_current_wf [OF assms] c]
  show ?thesis
    using w by (auto simp: schedule_def c Let_def sched_wf_def split: option.split)
qed

lemma tick_current_wf: "sched_wf rq \<Longrightarrow> sched_wf (tick_current rq)"
  by (auto simp: tick_current_def rr_tick_def Let_def split: option.split)

lemma wake_if_due_wf: "sched_wf rq \<Longrightarrow> p < PID_MAX \<Longrightarrow> sched_wf (wake_if_due p rq)"
  by (auto simp: wake_if_due_def intro!: scheduler_enqueue_wf)

text \<open>The sleepers are processes too.\<close>

definition sleepers_ok :: "run_queue \<Rightarrow> bool" where
  "sleepers_ok rq \<longleftrightarrow> (\<forall>p\<in>set (sleep_queue rq). p < PID_MAX)"

lemma fold_wake_wf: "sched_wf rq \<Longrightarrow> \<forall>p\<in>set ps. p < PID_MAX \<Longrightarrow> sched_wf (fold wake_if_due ps rq)"
  by (induction ps arbitrary: rq) (auto simp: wake_if_due_wf)

lemma tick_current_frame [simp]:
  "sleep_queue (tick_current rq) = sleep_queue rq" "clock (tick_current rq) = clock rq"
  "idle (tick_current rq) = idle rq" "curr (tick_current rq) = curr rq" "queues (tick_current rq) = queues rq"
  by (auto simp: tick_current_def rr_tick_def Let_def split: option.split)

lemma scheduler_tick_wf: "sched_wf rq \<Longrightarrow> sleepers_ok rq \<Longrightarrow> sched_wf (scheduler_tick rq)"
  by (auto simp: scheduler_tick_def sleepers_ok_def Let_def intro!: fold_wake_wf tick_current_wf)

lemma leave_queues_wf: "sched_wf rq \<Longrightarrow> sched_wf (leave_queues st p rq)"
  by (auto simp: leave_queues_def Let_def intro!: scheduler_dequeue_wf)

lemma rr_set_priority_wf:
  assumes wf: "sched_wf rq" and p: "p < PID_MAX" "Some p \<noteq> idle rq"
    and q: "p \<in> queued rq \<Longrightarrow> state (procs rq p) = PROC_STATE_READY \<or> state (procs rq p) = PROC_STATE_RUNNING"
  shows "sched_wf (rr_set_priority p prio rq)"
proof -
  let ?f = "\<lambda>q. q\<lparr>priority := int (clamp_prio prio)\<rparr>"
  have set_prio: "sched_wf (upd_proc p ?f rq)" if "p \<notin> queued rq" "sched_wf rq" for rq
  proof -
    have "queue_ok (upd_proc p ?f rq) i" if "i < MAX_PRIO" for i
      using \<open>sched_wf rq\<close> \<open>p \<notin> queued rq\<close> that by (fastforce simp: sched_wf_def sched_inv_def queue_ok_def queued_def)
    then show ?thesis using \<open>sched_wf rq\<close> clamp_prio_less [of prio] by (simp add: sched_wf_def sched_inv_def)
  qed
  show ?thesis
  proof (cases "state (procs rq p) = PROC_STATE_READY \<or> state (procs rq p) = PROC_STATE_RUNNING")
    case True
    have "p \<notin> queued (rr_dequeue p rq)" using wf rr_dequeue_effect(2) by (simp add: sched_wf_def)
    then have "sched_wf (rr_enqueue p (upd_proc p ?f (rr_dequeue p rq)))"
      using p by (intro rr_enqueue_wf set_prio rr_dequeue_wf [OF wf]) simp_all
    then show ?thesis using True by (simp add: rr_set_priority_def)
  next
    case False
    then show ?thesis using set_prio wf q by (auto simp: rr_set_priority_def)
  qed
qed

section \<open>Reachable states\<close>

lemma park_current_frame [simp]:
  "sleep_queue (park_current rq) = sleep_queue rq" "idle (park_current rq) = idle rq" "clock (park_current rq) = clock rq"
  by (auto simp: park_current_def split: option.split)

lemma choose_next_frame:
  assumes "sched_inv rq" and "choose_next rq = (rq', r)"
  shows "sleep_queue rq' = sleep_queue rq" and "clock rq' = clock rq" and "idle rq' = idle rq" and "procs rq' = procs rq"
proof -
  obtain rq1 where st: "stale_cleared rq rq1"
    and c: "choose_next rq = (case first_ready rq of None \<Rightarrow> (rq1, idle rq)
      | Some n \<Rightarrow> if Some n = idle rq \<or> \<not> process_schedulable rq n then (rq1, idle rq)
          else (if state (procs rq n) = PROC_STATE_READY then rr_dequeue n rq1 else rq1, Some n))"
    using choose_next_result [OF assms(1)] by blast
  show "sleep_queue rq' = sleep_queue rq" "clock rq' = clock rq" "idle rq' = idle rq" "procs rq' = procs rq"
    using c assms(2) stale_cleared_inv(3,4,6,7) [OF st] by (auto split: option.splits if_splits)
qed

lemma schedule_frame:
  assumes "sched_wf rq"
  shows "sleep_queue (schedule t rq) = sleep_queue rq" and "clock (schedule t rq) = clock rq"
    and "idle (schedule t rq) = idle rq"
proof -
  obtain rq' r where c: "choose_next (park_current rq) = (rq', r)" by fastforce
  have "sched_inv (park_current rq)" using park_current_wf [OF assms] by (simp add: sched_wf_def)
  note f = choose_next_frame [OF this c]
  show "sleep_queue (schedule t rq) = sleep_queue rq" "clock (schedule t rq) = clock rq" "idle (schedule t rq) = idle rq"
    using f by (auto simp: schedule_def c Let_def split: option.split)
qed

lemma sleepers_ok_fields [simp]:
  "sleepers_ok (upd_proc p f rq) = sleepers_ok rq" "sleepers_ok (rq\<lparr>ti_flags := t\<rparr>) = sleepers_ok rq"
  "sleepers_ok (rr_enqueue p rq) = sleepers_ok rq" "sleepers_ok (rr_dequeue p rq) = sleepers_ok rq"
  "sleepers_ok (scheduler_dequeue p rq) = sleepers_ok rq"
  by (simp_all add: sleepers_ok_def scheduler_dequeue_def)

lemma sleepers_ok_del: "sleepers_ok rq \<Longrightarrow> sleepers_ok (sleep_list_del p rq)"
  using set_remove1_subset by (fastforce simp: sleepers_ok_def sleep_list_del_def)

lemma sleepers_ok_enqueue: "sleepers_ok rq \<Longrightarrow> sleepers_ok (scheduler_enqueue p rq)"
  by (simp add: scheduler_enqueue_def Let_def sleepers_ok_del)

lemma sleepers_ok_wake: "sleepers_ok rq \<Longrightarrow> sleepers_ok (fold wake_if_due ps rq)"
  by (induction ps arbitrary: rq) (auto simp: wake_if_due_def sleepers_ok_enqueue sleepers_ok_del)

lemma sleepers_ok_tick: "sleepers_ok rq \<Longrightarrow> sleepers_ok (scheduler_tick rq)"
  by (auto simp: scheduler_tick_def Let_def intro!: sleepers_ok_wake) (simp add: sleepers_ok_def)

lemma sleepers_ok_leave: "sleepers_ok rq \<Longrightarrow> sleepers_ok (leave_queues st p rq)"
  by (auto simp: leave_queues_def Let_def intro!: sleepers_ok_del)

definition sched_good :: "run_queue \<Rightarrow> bool" where
  "sched_good rq \<longleftrightarrow> sched_wf rq \<and> sleepers_ok rq"

lemma schedule_good: "sched_good rq \<Longrightarrow> sched_good (schedule t rq)"
  by (simp add: sched_good_def schedule_wf sleepers_ok_def schedule_frame(1))

text \<open>One call into the scheduler. A priority is only changed for a process other than the idle
  process which, when it is linked in a run queue, is ready or running; the rest of the kernel may
  change any other field of a process.\<close>

inductive sched_step :: "run_queue \<Rightarrow> run_queue \<Rightarrow> bool" where
  step_enqueue: "p < PID_MAX \<Longrightarrow> sched_step rq (scheduler_enqueue p rq)"
| step_dequeue: "sched_step rq (scheduler_dequeue p rq)"
| step_yield: "sched_step rq (scheduler_yield t rq)"
| step_start: "(\<And>p. init = Some p \<Longrightarrow> p < PID_MAX) \<Longrightarrow> sched_step rq (scheduler_start t init rq)"
| step_timer: "sched_step rq (timer_handler t rq)"
| step_exit: "scheduler_exit t rq = Some rq' \<Longrightarrow> sched_step rq rq'"
| step_sleep: "sched_step rq (scheduler_sleep t p rq)"
| step_wake: "p < PID_MAX \<Longrightarrow> sched_step rq (scheduler_wake p rq)"
| step_sleep_timeout: "p < PID_MAX \<Longrightarrow> sched_step rq (scheduler_sleep_timeout t p ms rq)"
| step_priority: "p < PID_MAX \<Longrightarrow> Some p \<noteq> idle rq \<Longrightarrow>
    (run_list_linked rq p \<Longrightarrow> state (procs rq p) = PROC_STATE_READY \<or> state (procs rq p) = PROC_STATE_RUNNING) \<Longrightarrow>
    sched_step rq (scheduler_set_priority p prio rq)"
| step_nice: "p < PID_MAX \<Longrightarrow> Some p \<noteq> idle rq \<Longrightarrow>
    (run_list_linked rq p \<Longrightarrow> state (procs rq p) = PROC_STATE_READY \<or> state (procs rq p) = PROC_STATE_RUNNING) \<Longrightarrow>
    sched_step rq (scheduler_set_nice p n rq)"
| step_policy: "scheduler_set_policy p pol rq = Inr rq' \<Longrightarrow> sched_step rq rq'"
| step_kernel: "(\<And>q. priority (f q) = priority q) \<Longrightarrow> sched_step rq (upd_proc p f rq)"

inductive sched_reachable :: "run_queue \<Rightarrow> bool" where
  reach_init: "scheduler_init (Some idle_process) rq0 = Some rq \<Longrightarrow> idle_process < PID_MAX \<Longrightarrow> sleep_queue rq0 = [] \<Longrightarrow>
    (\<And>p. p < PID_MAX \<Longrightarrow> 0 \<le> priority (procs rq0 p) \<and> priority (procs rq0 p) < int MAX_PRIO) \<Longrightarrow> sched_reachable rq"
| reach_step: "sched_reachable rq \<Longrightarrow> sched_step rq rq' \<Longrightarrow> sched_reachable rq'"

lemma sched_step_good:
  assumes "sched_step rq rq'" and "sched_good rq"
  shows "sched_good rq'"
  using assms
proof (induction rule: sched_step.induct)
  case (step_timer rq t)
  then have "sched_good (scheduler_tick rq)" by (simp add: sched_good_def scheduler_tick_wf sleepers_ok_tick)
  then show ?case by (simp add: timer_handler_def Let_def schedule_good)
next
  case (step_sleep rq t p)
  then have "sched_good (upd_proc p (\<lambda>q. q\<lparr>wakeup_tick := 0\<rparr>) (leave_queues PROC_STATE_BLOCKED p rq))"
    by (simp add: sched_good_def leave_queues_wf sleepers_ok_leave)
  then show ?case by (simp add: scheduler_sleep_def schedule_good)
next
  case (step_wake p rq)
  then show ?case
    by (auto simp: scheduler_wake_def Let_def sched_good_def intro!: scheduler_enqueue_wf sleepers_ok_enqueue sleepers_ok_del)
next
  case (step_sleep_timeout p rq t ms)
  then have l: "sched_wf (leave_queues PROC_STATE_SLEEPING p rq)" "sleepers_ok (leave_queues PROC_STATE_SLEEPING p rq)"
    by (simp_all add: sched_good_def leave_queues_wf sleepers_ok_leave)
  then show ?case
    using step_sleep_timeout(1) unfolding scheduler_sleep_timeout_def Let_def
    by (intro schedule_good) (auto simp: sched_good_def sleepers_ok_def)
next
  case (step_priority p rq prio)
  then have "length (queues rq) = MAX_PRIO" by (simp add: sched_good_def sched_wf_def sched_inv_def)
  then have "sched_wf (rr_set_priority p prio rq)"
    using step_priority linked_queued by (intro rr_set_priority_wf) (auto simp: sched_good_def)
  then show ?case using step_priority(4) by (simp add: sched_good_def scheduler_set_priority_def rr_set_priority_def Let_def)
next
  case (step_nice p rq n)
  let ?m = "max MIN_NICE n"
  let ?n = "min MAX_NICE ?m"
  let ?rq = "upd_proc p (\<lambda>q. q\<lparr>nice := ?n\<rparr>) rq"
  have e: "scheduler_set_nice p n rq = rr_set_priority p (DEFAULT_PRIO + ?n) ?rq"
    by (simp add: scheduler_set_nice_def scheduler_set_priority_def Let_def max_def min_def MIN_NICE_def MAX_NICE_def)
  have "length (queues rq) = MAX_PRIO" using step_nice by (simp add: sched_good_def sched_wf_def sched_inv_def)
  then have "sched_wf (rr_set_priority p (DEFAULT_PRIO + ?n) ?rq)"
    using step_nice linked_queued by (intro rr_set_priority_wf) (auto simp: sched_good_def)
  then show ?case using step_nice(4) by (simp add: e sched_good_def rr_set_priority_def Let_def)
qed (auto simp: sched_good_def scheduler_enqueue_wf sleepers_ok_enqueue scheduler_dequeue_wf scheduler_yield_def
    scheduler_start_def scheduler_exit_def scheduler_set_policy_def split: option.splits if_splits
    intro!: schedule_good [unfolded sched_good_def])

lemma sched_init_good:
  assumes "scheduler_init (Some idle_process) rq0 = Some rq" and "idle_process < PID_MAX" and "sleep_queue rq0 = []"
    and "\<And>p. p < PID_MAX \<Longrightarrow> 0 \<le> priority (procs rq0 p) \<and> priority (procs rq0 p) < int MAX_PRIO"
  shows "sched_good rq"
  using assms by (auto simp: scheduler_init_def scheduler_register_policy_def sched_good_def sched_wf_def sched_inv_def
      queue_ok_def sleepers_ok_def MAX_PRIO_def split: if_splits)

lemma sched_reachable_good: "sched_reachable rq \<Longrightarrow> sched_good rq"
  by (induction rule: sched_reachable.induct) (auto intro: sched_init_good sched_step_good)

section \<open>Round-robin rotation\<close>

text \<open>A running process \<open>c\<close> and the ready processes \<open>qs\<close> queued at the same priority \<open>i\<close>, the best
  one at which a process is queued.\<close>

definition rr_ring :: "run_queue \<Rightarrow> nat \<Rightarrow> nat \<Rightarrow> nat list \<Rightarrow> bool" where
  "rr_ring rq i c qs \<longleftrightarrow> sched_wf rq \<and> i < MAX_PRIO \<and> curr rq = Some c \<and> Some c \<noteq> idle rq \<and> c \<notin> queued rq \<and>
     priority (procs rq c) = int i \<and> state (procs rq c) = PROC_STATE_RUNNING \<and> process_schedulable rq c \<and>
     queues rq ! i = qs \<and> (\<forall>j<i. queues rq ! j = []) \<and>
     (\<forall>p\<in>set qs. state (procs rq p) = PROC_STATE_READY \<and> process_schedulable rq p)"

lemma process_schedulable_iff: "process_schedulable rq p \<longleftrightarrow> state (procs rq p) \<noteq> PROC_STATE_ZOMBIE \<and>
    state (procs rq p) \<noteq> PROC_STATE_DEAD \<and> flags (procs rq p) AND PROC_FLAG_EXITING = 0"
  by (simp add: process_schedulable_def)

definition dispatched :: "u64 \<Rightarrow> sched_proc \<Rightarrow> sched_proc" where
  "dispatched t q = (if time_slice q \<le> 0 then q\<lparr>time_slice := rr_time_slice q\<rparr> else q)
     \<lparr>state := PROC_STATE_RUNNING, last_run := t\<rparr>"

lemma dispatched_simps [simp]:
  "priority (dispatched t q) = priority q" "state (dispatched t q) = PROC_STATE_RUNNING" "flags (dispatched t q) = flags q"
  by (simp_all add: dispatched_def)

lemma schedule_switch:
  assumes "choose_next (park_current rq) = (rq2, Some n)"
  shows "queues (schedule t rq) = queues rq2" and "curr (schedule t rq) = Some n"
    and "idle (schedule t rq) = idle rq2" and "procs (schedule t rq) = (procs rq2)(n := dispatched t (procs rq2 n))"
proof -
  let ?r = "upd_proc n (dispatched t) rq2"
  have "schedule t rq = (let rq' = ?r\<lparr>curr := Some n, ti_flags := ti_flags ?r AND NOT TIF_NEED_RESCHED\<rparr>
      in if Some n = curr rq then rq' else rq'\<lparr>nr_switches := nr_switches rq' + 1, total_switches := total_switches rq' + 1\<rparr>)"
    unfolding schedule_def assms Let_def split_conv option.case dispatched_def ..
  then show "queues (schedule t rq) = queues rq2" "curr (schedule t rq) = Some n"
    "idle (schedule t rq) = idle rq2" "procs (schedule t rq) = (procs rq2)(n := dispatched t (procs rq2 n))"
    by (simp_all add: Let_def)
qed

lemma schedule_rotates:
  assumes ring: "rr_ring rq i c qs"
  obtains n ns where "qs @ [c] = n # ns" and "rr_ring (schedule t rq) i n ns"
proof -
  let ?park = "upd_proc c (\<lambda>q. q\<lparr>state := PROC_STATE_READY\<rparr>) rq"
  have wf: "sched_wf rq" and inv: "sched_inv rq" and c: "c < PID_MAX" "curr rq = Some c" "Some c \<noteq> idle rq"
    "c \<notin> queued rq" "priority (procs rq c) = int i" "state (procs rq c) = PROC_STATE_RUNNING" "process_schedulable rq c"
    and i: "i < MAX_PRIO" "queues rq ! i = qs" "\<And>j. j < i \<Longrightarrow> queues rq ! j = []"
    and qs: "\<And>p. p \<in> set qs \<Longrightarrow> state (procs rq p) = PROC_STATE_READY \<and> process_schedulable rq p"
    using ring by (auto simp: rr_ring_def sched_wf_def)
  obtain n ns where n: "qs @ [c] = n # ns" by (cases qs) auto
  define rq1 where "rq1 = park_current rq"
  have e1: "rq1 = rr_enqueue c ?park" using c by (simp add: rq1_def park_current_def)
  have wf1: "sched_wf rq1" and inv1: "sched_inv rq1"
    using park_current_wf [OF wf] by (simp_all add: rq1_def sched_wf_def)
  have "queues rq1 = (queues rq)[i := qs @ [c]]"
    using rr_enqueue_effect(3) [of ?park c] inv c i by (simp add: e1)
  then have q1: "queues rq1 ! i = n # ns" "\<And>j. j < i \<Longrightarrow> queues rq1 ! j = []"
    using inv i n by (auto simp: sched_inv_def)
  have p1: "procs rq1 = procs ?park" "idle rq1 = idle rq" by (simp_all add: e1)
  have fr: "first_ready rq1 = Some n" using first_ready_least [OF i(1), of rq1] q1 by simp
  have nq: "n \<in> queued rq1" using q1 i(1) by (auto simp: queued_def intro!: bexI [of _ i])
  have all: "state (procs rq1 p) = PROC_STATE_READY \<and> process_schedulable rq1 p" if "p \<in> set (n # ns)" for p
    using that n [symmetric] qs c(7) by (auto simp: p1 process_schedulable_iff)
  obtain rq2 where st: "stale_cleared rq1 rq2"
    and ch: "choose_next rq1 = (case first_ready rq1 of None \<Rightarrow> (rq2, idle rq1)
      | Some n \<Rightarrow> if Some n = idle rq1 \<or> \<not> process_schedulable rq1 n then (rq2, idle rq1)
          else (if state (procs rq1 n) = PROC_STATE_READY then rr_dequeue n rq2 else rq2, Some n))"
    using choose_next_result [OF inv1] by blast
  have ni: "Some n \<noteq> idle rq" using queued_priority(3) [OF inv1 i(1), of n] q1 p1 by simp
  then have ch': "choose_next rq1 = (rr_dequeue n rq2, Some n)" using ch fr all [of n] p1 by simp
  have inv2: "sched_inv rq2" using stale_cleared_inv(1) [OF st inv1] .
  note s2 = stale_cleared_inv(2-5) [OF st] rr_dequeue_effect [OF inv2, of n]
  have dist: "n \<notin> set ns" using inv1 i(1) q1 by (auto simp: sched_inv_def queue_ok_def)
  have len: "length (queues rq1) = MAX_PRIO" using inv1 by (simp add: sched_inv_def)
  let ?rq = "schedule t rq"
  have r: "queues ?rq = map (remove1 n) (queues rq1)" "curr ?rq = Some n" "idle ?rq = idle rq"
    "procs ?rq = (procs rq1)(n := dispatched t (procs rq1 n))"
    using s2 p1 schedule_switch [OF ch' [unfolded rq1_def]] by simp_all
  have "priority (procs rq1 n) = int i" using queued_priority(1) [OF inv1 i(1), of n] q1 by simp
  moreover have "n \<notin> queued ?rq"
    using s2 by (simp add: queued_def r(1))
  moreover have "process_schedulable ?rq p \<longleftrightarrow> process_schedulable rq1 p" if "p \<in> set (n # ns)" for p
    using all [OF that] by (auto simp: process_schedulable_iff r)
  ultimately have "rr_ring ?rq i n ns"
    using schedule_wf [OF wf, of t] i(1) all q1 dist len ni
    by (auto simp: rr_ring_def r)
  then show ?thesis using that n by blast
qed

text \<open>After \<open>k\<close> more calls of \<^const>\<open>schedule\<close> the ring has turned \<open>k\<close> places.\<close>

lemma schedule_turns:
  assumes "rr_ring rq i c qs"
  shows "\<exists>n ns. rotate (length ts) (c # qs) = n # ns \<and> rr_ring (fold schedule ts rq) i n ns"
  using assms
proof (induction ts arbitrary: rq c qs)
  case (Cons t ts)
  obtain n ns where n: "qs @ [c] = n # ns" and r: "rr_ring (schedule t rq) i n ns"
    using schedule_rotates [OF Cons.prems] by blast
  have "rotate (length (t # ts)) (c # qs) = rotate (length ts) (n # ns)"
    using n by (simp add: rotate_Suc rotate1_rotate_swap)
  then show ?case using Cons.IH [OF r] by simp
qed simp

section \<open>Timed wake-up\<close>

lemma scheduler_enqueue_ready:
  assumes "sched_wf rq" "p < PID_MAX" "Some p \<noteq> idle rq" "process_schedulable rq p"
  shows "p \<in> queued (scheduler_enqueue p rq)" and "state (procs (scheduler_enqueue p rq) p) = PROC_STATE_READY"
proof -
  let ?rq = "upd_proc p (\<lambda>q. q\<lparr>state := PROC_STATE_READY, time_slice := rr_time_slice q\<rparr>)
    (if sleep_list_linked rq p then upd_proc p (\<lambda>q. q\<lparr>wakeup_tick := 0\<rparr>) (sleep_list_del p rq) else rq)"
  have e: "scheduler_enqueue p rq = rr_enqueue p ?rq"
    using assms(3,4) by (simp add: scheduler_enqueue_def Let_def)
  have "sched_inv ?rq" "Some p \<noteq> idle ?rq" using assms(1,3) by (simp_all add: sched_wf_def)
  then show "p \<in> queued (scheduler_enqueue p rq)" using rr_enqueue_effect(2) [of ?rq p] assms(2) by (simp add: e)
  show "state (procs (scheduler_enqueue p rq) p) = PROC_STATE_READY" by (simp add: e)
qed

lemma scheduler_enqueue_others:
  "q \<noteq> p \<Longrightarrow> procs (scheduler_enqueue p rq) q = procs rq q"
  "set (sleep_queue (scheduler_enqueue p rq)) \<subseteq> set (sleep_queue rq)"
  by (auto simp: scheduler_enqueue_def Let_def sleep_list_del_def dest: set_remove1_subset [THEN subsetD])

lemma scheduler_enqueue_queued:
  assumes "sched_wf rq" "p < PID_MAX"
  shows "queued rq \<subseteq> queued (scheduler_enqueue p rq)"
proof (cases "Some p = idle rq \<or> \<not> process_schedulable rq p")
  case False
  let ?rq = "upd_proc p (\<lambda>q. q\<lparr>state := PROC_STATE_READY, time_slice := rr_time_slice q\<rparr>)
    (if sleep_list_linked rq p then upd_proc p (\<lambda>q. q\<lparr>wakeup_tick := 0\<rparr>) (sleep_list_del p rq) else rq)"
  have e: "scheduler_enqueue p rq = rr_enqueue p ?rq"
    using False by (simp add: scheduler_enqueue_def Let_def)
  have "sched_inv ?rq" "Some p \<noteq> idle ?rq" using assms(1) False by (simp_all add: sched_wf_def)
  then show ?thesis using rr_enqueue_effect(2) [of ?rq p] assms(2) by (auto simp: e)
qed (auto simp: scheduler_enqueue_def)

text \<open>What the loop over the sleepers does to a due sleeper, and that it keeps those it has woken.\<close>

lemma wake_keeps:
  assumes "sched_wf rq" "\<forall>x\<in>set ps. x < PID_MAX" "p \<in> queued rq" "state (procs rq p) = PROC_STATE_READY"
  shows "p \<in> queued (fold wake_if_due ps rq) \<and> state (procs (fold wake_if_due ps rq) p) = PROC_STATE_READY"
  using assms
proof (induction ps arbitrary: rq)
  case (Cons x xs)
  let ?rq = "upd_proc x (\<lambda>q. q\<lparr>wakeup_tick := 0\<rparr>) (sleep_list_del x rq)"
  have "p \<in> queued (wake_if_due x rq) \<and> state (procs (wake_if_due x rq) p) = PROC_STATE_READY"
  proof (cases "p = x \<or> wake_if_due x rq = rq")
    case True
    then show ?thesis using Cons.prems(3,4) by (auto simp: wake_if_due_def)
  next
    case False
    then have "wake_if_due x rq = scheduler_enqueue x ?rq" by (auto simp: wake_if_due_def)
    then show ?thesis
      using scheduler_enqueue_queued [of ?rq x] scheduler_enqueue_others(1) [of p x ?rq] Cons.prems False by auto
  qed
  then show ?case using Cons.IH [of "wake_if_due x rq"] wake_if_due_wf [OF Cons.prems(1), of x] Cons.prems(2) by simp
qed simp

lemma wake_due:
  assumes "sched_wf rq" "\<forall>x\<in>set ps. x < PID_MAX" "p \<in> set ps" "Some p \<noteq> idle rq" "process_schedulable rq p"
    "state (procs rq p) = PROC_STATE_SLEEPING" "wakeup_tick (procs rq p) \<le> clock rq"
  shows "p \<in> queued (fold wake_if_due ps rq) \<and> state (procs (fold wake_if_due ps rq) p) = PROC_STATE_READY"
  using assms
proof (induction ps arbitrary: rq)
  case (Cons x xs)
  let ?rq = "upd_proc x (\<lambda>q. q\<lparr>wakeup_tick := 0\<rparr>) (sleep_list_del x rq)"
  have wf: "sched_wf (wake_if_due x rq)" using wake_if_due_wf Cons.prems by simp
  show ?case
  proof (cases "x = p")
    case True
    then have e: "wake_if_due x rq = scheduler_enqueue p ?rq" using Cons.prems(6,7) by (simp add: wake_if_due_def)
    have "p \<in> queued (wake_if_due x rq)" "state (procs (wake_if_due x rq) p) = PROC_STATE_READY"
      unfolding e using scheduler_enqueue_ready [of ?rq p] Cons.prems True by (simp_all add: process_schedulable_iff)
    then show ?thesis using wake_keeps [OF wf, of xs p] Cons.prems(2) by simp
  next
    case False
    have "procs (wake_if_due x rq) p = procs rq p" "idle (wake_if_due x rq) = idle rq" "clock (wake_if_due x rq) = clock rq"
      using False scheduler_enqueue_others(1) [of p x ?rq] by (auto simp: wake_if_due_def)
    then show ?thesis
      using Cons.IH [OF wf] Cons.prems False by (simp add: process_schedulable_iff)
  qed
qed simp

lemma tick_current_procs [simp]:
  "state (procs (tick_current rq) p) = state (procs rq p)" "flags (procs (tick_current rq) p) = flags (procs rq p)"
  "wakeup_tick (procs (tick_current rq) p) = wakeup_tick (procs rq p)"
  by (auto simp: tick_current_def rr_tick_def Let_def split: option.split)

section \<open>A queued process that has exited\<close>

lemma schedule_blocked:
  assumes wf: "sched_wf rq" and d: "idle rq = Some d" "curr rq = Some d"
    and z: "first_ready rq = Some z" "\<not> process_schedulable rq z" "z \<noteq> d"
  shows "sched_wf (schedule t rq) \<and> queues (schedule t rq) = queues rq \<and> idle (schedule t rq) = Some d \<and>
    curr (schedule t rq) = Some d \<and> first_ready (schedule t rq) = Some z \<and> \<not> process_schedulable (schedule t rq) z"
proof -
  have park: "park_current rq = rq" using d by (simp add: park_current_def)
  have inv: "sched_inv rq" using wf by (simp add: sched_wf_def)
  obtain rq2 where st: "stale_cleared rq rq2"
    and ch: "choose_next rq = (case first_ready rq of None \<Rightarrow> (rq2, idle rq)
      | Some n \<Rightarrow> if Some n = idle rq \<or> \<not> process_schedulable rq n then (rq2, idle rq)
          else (if state (procs rq n) = PROC_STATE_READY then rr_dequeue n rq2 else rq2, Some n))"
    using choose_next_result [OF inv] by blast
  have "choose_next (park_current rq) = (rq2, Some d)" using ch z d park by simp
  note s = schedule_switch [OF this, of t] and f = stale_cleared_inv(2-4) [OF st]
  have "first_ready (schedule t rq) = first_ready rq" using s f by (intro first_ready_cong) simp_all
  then show ?thesis using s f d z schedule_wf [OF wf] by (simp add: process_schedulable_iff)
qed

section \<open>Concrete runs\<close>

text \<open>Three processes at the default priority, enqueued in order; the first one is running.\<close>

definition example_proc :: sched_proc where
  "example_proc = \<lparr>state = PROC_STATE_CREATED, flags = 0, priority = DEFAULT_PRIO, nice = 0, runtime = 0, last_run = 0,
     time_slice = DEF_TIMESLICE, policy = 0, utime = 0, stime = 0, wakeup_tick = 0\<rparr>"

definition example_boot :: run_queue where
  "example_boot = \<lparr>procs = \<lambda>_. example_proc, queues = replicate MAX_PRIO [], bitmap = [0, 0, 0], nr_running = 0,
     nr_switches = 0, curr = None, idle = Some 0, clock = 0, sleep_queue = [], ti_flags = 0, total_switches = 0,
     num_policies = 1\<rparr>"

definition example_run :: run_queue where
  "example_run = scheduler_yield 7 (scheduler_enqueue 3 (scheduler_enqueue 2 (scheduler_enqueue 1 example_boot)))"

lemma example_boot_reachable: "sched_reachable example_boot"
proof (rule reach_init)
  show "scheduler_init (Some 0) (example_boot\<lparr>num_policies := 0\<rparr>) = Some example_boot"
    by (simp add: scheduler_init_def scheduler_register_policy_def example_boot_def MAX_SCHED_POLICIES_def MAX_PRIO_def numeral_3_eq_3)
qed (simp_all add: example_boot_def example_proc_def DEFAULT_PRIO_def MAX_PRIO_def PID_MAX_def)

lemma example_run_reachable: "sched_reachable example_run"
  unfolding example_run_def
  by (intro reach_step [OF _ step_yield] reach_step [OF _ step_enqueue] example_boot_reachable) (simp_all add: PID_MAX_def)

lemma example_run_good: "sched_wf example_run" "sleepers_ok example_run" "sched_inv example_run"
  using sched_reachable_good [OF example_run_reachable] by (simp_all add: sched_good_def sched_wf_def)

lemma example_run_state:
  "queues example_run = (replicate MAX_PRIO [])[120 := [2, 3]]" "curr example_run = Some 1" "idle example_run = Some 0"
  "list_all (\<lambda>p. priority (procs example_run p) = 120 \<and> process_schedulable example_run p) [1, 2, 3]"
  "state (procs example_run 1) = PROC_STATE_RUNNING"
  "state (procs example_run 2) = PROC_STATE_READY" "state (procs example_run 3) = PROC_STATE_READY"
  by code_simp+

lemma example_run_ring: "rr_ring example_run 120 1 [2, 3]"
proof -
  have q: "queues example_run ! j = (if j = 120 then [2, 3] else [])" if "j < MAX_PRIO" for j
    using that by (simp add: example_run_state(1) nth_list_update)
  have "120 < MAX_PRIO" by (simp add: MAX_PRIO_def)
  then show ?thesis
    using example_run_good(1) example_run_state(2-) q by (auto simp: rr_ring_def queued_def)
qed

text \<open>The running process gets a better priority and exits; later a sleeper is due.\<close>

definition example_blocked :: run_queue where
  "example_blocked = the (scheduler_exit 8 (scheduler_set_priority 1 100 example_run))"

definition example_sleep :: run_queue where
  "example_sleep = scheduler_sleep_timeout 8 1 4 example_run"

lemma example_blocked_reachable: "sched_reachable example_blocked"
proof -
  have "sched_reachable (scheduler_set_priority 1 100 example_run)"
    using example_run_state(3,5) by (intro reach_step [OF example_run_reachable] step_priority) (simp_all add: PID_MAX_def)
  moreover have "scheduler_exit 8 (scheduler_set_priority 1 100 example_run) = Some example_blocked"
  proof -
    have "curr (scheduler_set_priority 1 100 example_run) = Some 1" by code_simp
    then show ?thesis by (simp add: example_blocked_def scheduler_exit_def)
  qed
  ultimately show ?thesis by (blast intro: reach_step step_exit)
qed

lemma example_sleep_reachable: "sched_reachable example_sleep"
  unfolding example_sleep_def by (intro reach_step [OF example_run_reachable] step_sleep_timeout) (simp add: PID_MAX_def)

section \<open>Properties\<close>



text \<open>C24: The policy's pick is the first process of the best non-empty queue, and the idle process
  when all queues are empty; picking changes nothing but the bits of empty queues.\<close>

theorem pick_next_best_priority:
  assumes "sched_inv rq"
  shows "(\<forall>i<MAX_PRIO. queues rq ! i \<noteq> [] \<longrightarrow> (\<forall>j<i. queues rq ! j = []) \<longrightarrow>
       snd (rr_pick_next rq) = Some (hd (queues rq ! i))) \<and>
    ((\<forall>i<MAX_PRIO. queues rq ! i = []) \<longrightarrow> snd (rr_pick_next rq) = idle rq) \<and>
    (\<exists>b. fst (rr_pick_next rq) = rq\<lparr>bitmap := b\<rparr>) \<and> sched_inv (fst (rr_pick_next rq))"
proof -
  obtain rq' r where p: "rr_pick_next rq = (rq', r)" by fastforce
  have st: "stale_cleared rq rq'" and r: "r = first_ready rq" using rr_pick_next_result [OF assms p] by auto
  have "first_ready rq = idle rq" if "\<forall>i<MAX_PRIO. queues rq ! i = []"
  proof -
    have "find (\<lambda>i. queues rq ! i \<noteq> []) [0..<MAX_PRIO] = None" using that by (simp add: find_None_iff)
    then show ?thesis by (simp add: first_ready_def)
  qed
  moreover have "\<exists>b. rq' = rq\<lparr>bitmap := b\<rparr>" using st by (auto simp: stale_cleared_def)
  ultimately show ?thesis
    using first_ready_least stale_cleared_inv(1) [OF st assms] by (simp add: p r)
qed

theorem pick_next_best_priority_witness: "snd (rr_pick_next example_run) = Some 2"
proof -
  have "120 < MAX_PRIO" by (simp add: MAX_PRIO_def)
  then show ?thesis
    using pick_next_best_priority [OF example_run_good(3)] by (auto simp: example_run_state(1))
qed

text \<open>C13: Round-robin: while the processes of the best priority stay ready, each of them runs in its
  turn. With \<open>c\<close> running and \<open>qs\<close> queued at that priority, the \<open>k\<close>-th queued process is the current
  one after \<open>k + 1\<close> calls of \<^verbatim>\<open>schedule\<close>.\<close>

theorem round_robin_turn:
  assumes "rr_ring rq i c qs" and "k < length qs" and "length ts = Suc k"
  shows "curr (fold schedule ts rq) = Some (qs ! k) \<and> state (procs (fold schedule ts rq) (qs ! k)) = PROC_STATE_RUNNING"
proof -
  obtain n ns where n: "rotate (length ts) (c # qs) = n # ns" and r: "rr_ring (fold schedule ts rq) i n ns"
    using schedule_turns [OF assms(1)] by blast
  have "n = rotate (length ts) (c # qs) ! 0" by (simp add: n)
  also have "\<dots> = (c # qs) ! (length ts mod length (c # qs))" by (subst nth_rotate) simp_all
  also have "\<dots> = qs ! k" using assms(2,3) by simp
  finally show ?thesis using r by (simp add: rr_ring_def)
qed

theorem round_robin_turn_witness: "curr (fold schedule [8, 9] example_run) = Some 3"
  using round_robin_turn [OF example_run_ring, of 1 "[8, 9]"] by simp

text \<open>C25: Timed sleep ends: at the tick that reaches its wake-up time, a sleeping process that can be
  scheduled is made ready and put on the run queue.\<close>

theorem tick_wakes_due_sleeper:
  assumes "sched_wf rq" and "sleepers_ok rq" and "p \<in> set (sleep_queue rq)"
    and "state (procs rq p) = PROC_STATE_SLEEPING" and "wakeup_tick (procs rq p) \<le> clock rq + TICK_MS"
    and "process_schedulable rq p" and "Some p \<noteq> idle rq"
  shows "p \<in> queued (scheduler_tick rq) \<and> state (procs (scheduler_tick rq) p) = PROC_STATE_READY"
proof -
  let ?rq = "(tick_current rq)\<lparr>clock := clock rq + TICK_MS\<rparr>"
  have "sched_wf ?rq" using tick_current_wf [OF assms(1)] by simp
  moreover have "process_schedulable ?rq p" using assms(6) by (simp add: process_schedulable_iff)
  ultimately have "p \<in> queued (fold wake_if_due (sleep_queue rq) ?rq) \<and>
      state (procs (fold wake_if_due (sleep_queue rq) ?rq) p) = PROC_STATE_READY"
    using assms by (intro wake_due) (simp_all add: sleepers_ok_def)
  then show ?thesis by (simp add: scheduler_tick_def Let_def)
qed

theorem tick_wakes_due_sleeper_witness: "1 \<in> queued (scheduler_tick example_sleep)"
proof -
  have "sched_wf example_sleep" "sleepers_ok example_sleep"
    using sched_reachable_good [OF example_sleep_reachable] by (simp_all add: sched_good_def)
  moreover have "sleep_queue example_sleep = [1]" "state (procs example_sleep 1) = PROC_STATE_SLEEPING"
    "wakeup_tick (procs example_sleep 1) = 4" "clock example_sleep = 0" "process_schedulable example_sleep 1"
    "idle example_sleep = Some 0" by code_simp+
  ultimately show ?thesis using tick_wakes_due_sleeper [of example_sleep 1] by (simp add: TICK_MS_def)
qed

text \<open>C38: A process that exits while it is linked in a run queue is never unlinked: when it is the
  first of the best queue and the idle process runs, every later call of \<^verbatim>\<open>schedule\<close> picks the idle
  process again, whatever ready processes wait behind it.\<close>

theorem queued_zombie_blocks:
  assumes "sched_wf rq" and "idle rq = Some d" and "curr rq = Some d" and "first_ready rq = Some z"
    and "\<not> process_schedulable rq z" and "z \<noteq> d"
  shows "curr (fold schedule ts rq) = Some d \<and> queues (fold schedule ts rq) = queues rq"
  using assms
proof (induction ts arbitrary: rq)
  case (Cons t ts)
  note b = schedule_blocked [OF Cons.prems, of t]
  then show ?case using Cons.IH [of "schedule t rq"] Cons.prems(6) by simp
qed simp

theorem queued_zombie_blocks_witness:
  "sched_reachable example_blocked \<and> state (procs example_blocked 2) = PROC_STATE_READY \<and>
   queues example_blocked ! 120 = [2, 3] \<and> (\<forall>ts. curr (fold schedule ts example_blocked) = Some 0)"
proof -
  have s: "queues example_blocked = (replicate MAX_PRIO [])[100 := [1], 120 := [2, 3]]" "idle example_blocked = Some 0"
    "curr example_blocked = Some 0" "first_ready example_blocked = Some 1" "\<not> process_schedulable example_blocked 1"
    "state (procs example_blocked 2) = PROC_STATE_READY" by code_simp+
  have "sched_wf example_blocked" using sched_reachable_good [OF example_blocked_reachable] by (simp add: sched_good_def)
  from queued_zombie_blocks [OF this s(2-5)] show ?thesis
    using s example_blocked_reachable by (simp add: MAX_PRIO_def)
qed

end
