(* ===== verification/Paging.thy ===== *)
theory Paging
  imports Slab_Heap
begin

text \<open>
  The four-level page tables of \<^verbatim>\<open>arch/x86_64/mm/paging.c\<close> and \<^verbatim>\<open>arch/mmu.h\<close>. Page-table and user frames are
  page-aligned, so their contents are kept per frame: the frame at a physical address is a function
  from the index of a 64-bit word to the word, and a pointer to an entry is the frame and the index.
  The flushes of the translation cache have no state in this model.
\<close>

section \<open>Entries\<close>

definition PTE_PRESENT :: u64 where "PTE_PRESENT = 1"
definition PTE_WRITABLE :: u64 where "PTE_WRITABLE = 2"
definition PTE_USER :: u64 where "PTE_USER = 4"
definition PTE_HUGE :: u64 where "PTE_HUGE = 0x80"
definition PTE_COW :: u64 where "PTE_COW = 0x200"
definition PAGE_FRAME_MASK :: u64 where "PAGE_FRAME_MASK = 0x000FFFFFFFFFF000"
definition PAGE_OFFSET_MASK :: u64 where "PAGE_OFFSET_MASK = 0xFFF"
definition KERNEL_VIRT_BASE :: u64 where "KERNEL_VIRT_BASE = 0xFFFFFFFF80000000"

definition PML4_INDEX :: "u64 \<Rightarrow> nat" where "PML4_INDEX addr = unat (drop_bit 39 addr AND 0x1FF)"
definition PDPT_INDEX :: "u64 \<Rightarrow> nat" where "PDPT_INDEX addr = unat (drop_bit 30 addr AND 0x1FF)"
definition PD_INDEX :: "u64 \<Rightarrow> nat" where "PD_INDEX addr = unat (drop_bit 21 addr AND 0x1FF)"
definition PT_INDEX :: "u64 \<Rightarrow> nat" where "PT_INDEX addr = unat (drop_bit 12 addr AND 0x1FF)"

definition pte_get_frame :: "u64 \<Rightarrow> u64" where
  "pte_get_frame pte = pte AND PAGE_FRAME_MASK"

definition pte_make :: "u64 \<Rightarrow> u64 \<Rightarrow> u64" where
  "pte_make frame flgs = (frame AND PAGE_FRAME_MASK) OR flgs"

section \<open>State\<close>

text \<open>\<open>pt_addr\<close> is the address of a heap-allocated \<^verbatim>\<open>struct page_table\<close>; it is 0 for the static
  \<^verbatim>\<open>kernel_pt\<close>. The virtual pointer \<^verbatim>\<open>pml4\<close> is \<^verbatim>\<open>PHYS_TO_VIRT(pml4_phys)\<close>.\<close>

record page_table =
  pt_addr :: u64
  pml4_phys :: u64
  pt_refcount :: u32

record vmem =
  hp :: heap
  words :: "u64 \<Rightarrow> nat \<Rightarrow> u64"
  kernel_pt :: page_table

text \<open>\<^verbatim>\<open>sizeof(struct page_table)\<close>: two pointers, a lock and a counter.\<close>

definition sizeof_page_table :: u64 where "sizeof_page_table = 24"

definition get_frame :: "vmem \<Rightarrow> vmem \<times> u64" where
  "get_frame s = (let (f, phys) = pmm_alloc_page (frames (hp s)) in (s\<lparr>hp := (hp s)\<lparr>frames := f\<rparr>\<rparr>, phys))"

definition put_frame :: "u64 \<Rightarrow> vmem \<Rightarrow> vmem" where
  "put_frame phys s = s\<lparr>hp := (hp s)\<lparr>frames := pmm_free_page phys (frames (hp s))\<rparr>\<rparr>"

definition zero_frame :: "u64 \<Rightarrow> vmem \<Rightarrow> vmem" where
  "zero_frame phys s = s\<lparr>words := (words s)(phys := \<lambda>_. 0)\<rparr>"

definition set_entry :: "u64 \<times> nat \<Rightarrow> u64 \<Rightarrow> vmem \<Rightarrow> vmem" where
  "set_entry p v s = s\<lparr>words := (words s)(fst p := (words s (fst p))(snd p := v))\<rparr>"

definition entry_at :: "vmem \<Rightarrow> u64 \<times> nat \<Rightarrow> u64" where
  "entry_at s p = words s (fst p) (snd p)"

section \<open>The walk\<close>

definition paging_get_entry :: "u64 \<Rightarrow> u64 \<Rightarrow> nat \<Rightarrow> (u64 \<times> nat) option" where
  "paging_get_entry table virt level =
     (if level = 4 then Some (table, PML4_INDEX virt)
      else if level = 3 then Some (table, PDPT_INDEX virt)
      else if level = 2 then Some (table, PD_INDEX virt)
      else if level = 1 then Some (table, PT_INDEX virt)
      else None)"

definition paging_get_or_create :: "u64 \<times> nat \<Rightarrow> u64 \<Rightarrow> vmem \<Rightarrow> vmem \<times> u64 option" where
  "paging_get_or_create entry flgs s =
     (if entry_at s entry AND PTE_PRESENT \<noteq> 0 then (s, Some (pte_get_frame (entry_at s entry)))
      else let (s, new_table) = get_frame s
        in if new_table = 0 then (s, None)
           else (set_entry entry (pte_make new_table (flgs OR PTE_PRESENT)) (zero_frame new_table s), Some new_table))"

text \<open>One level of the walk: the table an entry points to, created on demand.\<close>

definition next_table :: "bool \<Rightarrow> u64 \<Rightarrow> u64 \<times> nat \<Rightarrow> vmem \<Rightarrow> vmem \<times> u64 option" where
  "next_table create flgs entry s =
     (if entry_at s entry AND PTE_PRESENT = 0
      then if \<not> create then (s, None) else paging_get_or_create entry flgs s
      else (s, Some (pte_get_frame (entry_at s entry))))"

definition walk_flags :: "u64 \<Rightarrow> u64" where
  "walk_flags virt = (PTE_PRESENT OR PTE_WRITABLE) OR (if virt < KERNEL_VIRT_BASE then PTE_USER else 0)"

definition paging_walk :: "page_table \<Rightarrow> u64 \<Rightarrow> bool \<Rightarrow> vmem \<Rightarrow> vmem \<times> (u64 \<times> nat) option" where
  "paging_walk pt virt create s =
     (let flgs = walk_flags virt; pml4e = the (paging_get_entry (pml4_phys pt) virt 4)
      in case next_table create flgs pml4e s of (s, None) \<Rightarrow> (s, None)
       | (s, Some pdpt) \<Rightarrow>
         (let pdpte = the (paging_get_entry pdpt virt 3)
          in if entry_at s pdpte AND PTE_HUGE \<noteq> 0 then (s, Some pdpte)
             else case next_table create flgs pdpte s of (s, None) \<Rightarrow> (s, None)
              | (s, Some pd) \<Rightarrow>
                (let pde = the (paging_get_entry pd virt 2)
                 in if entry_at s pde AND PTE_HUGE \<noteq> 0 then (s, Some pde)
                    else case next_table create flgs pde s of (s, None) \<Rightarrow> (s, None)
                     | (s, Some page_tbl) \<Rightarrow> (s, paging_get_entry page_tbl virt 1))))"

section \<open>Mapping\<close>

definition mmu_map :: "page_table \<Rightarrow> u64 \<Rightarrow> u64 \<Rightarrow> u64 \<Rightarrow> vmem \<Rightarrow> vmem \<times> unit res" where
  "mmu_map pt virt phys flgs s =
     (let virt = ALIGN_DOWN virt PAGE_SIZE; phys = ALIGN_DOWN phys PAGE_SIZE
      in case paging_walk pt virt True s of (s, None) \<Rightarrow> (s, Inl ENOMEM)
       | (s, Some pte) \<Rightarrow>
         if entry_at s pte AND PTE_PRESENT \<noteq> 0 then (s, Inl EEXIST)
         else (set_entry pte (pte_make phys (flgs OR PTE_PRESENT)) s, Inr ()))"

definition mmu_unmap :: "page_table \<Rightarrow> u64 \<Rightarrow> vmem \<Rightarrow> vmem \<times> unit res" where
  "mmu_unmap pt virt s =
     (let virt = ALIGN_DOWN virt PAGE_SIZE
      in case paging_walk pt virt False s of (s, None) \<Rightarrow> (s, Inl ENOENT)
       | (s, Some pte) \<Rightarrow>
         if entry_at s pte AND PTE_PRESENT = 0 then (s, Inl ENOENT) else (set_entry pte 0 s, Inr ()))"

text \<open>The page offsets \<open>0, 4096, \<dots>\<close> below a size that has been rounded up to whole pages.\<close>

definition page_offsets :: "u64 \<Rightarrow> u64 list" where
  "page_offsets sz = map (\<lambda>k. of_nat k * PAGE_SIZE) [0..<unat (ALIGN_UP sz PAGE_SIZE) div 4096]"

definition mmu_unmap_range :: "page_table \<Rightarrow> u64 \<Rightarrow> u64 \<Rightarrow> vmem \<Rightarrow> vmem" where
  "mmu_unmap_range pt virt sz s = fold (\<lambda>off s. fst (mmu_unmap pt (virt + off) s)) (page_offsets sz) s"

fun map_pages :: "page_table \<Rightarrow> u64 \<Rightarrow> u64 \<Rightarrow> u64 \<Rightarrow> u64 list \<Rightarrow> vmem \<Rightarrow> vmem \<times> unit res" where
  "map_pages pt virt phys flgs [] s = (s, Inr ())"
| "map_pages pt virt phys flgs (off # offs) s =
     (case mmu_map pt (virt + off) (phys + off) flgs s of
        (s, Inl e) \<Rightarrow> if e = EEXIST then map_pages pt virt phys flgs offs s
                      else (mmu_unmap_range pt virt off s, Inl e)
      | (s, Inr _) \<Rightarrow> map_pages pt virt phys flgs offs s)"

definition mmu_map_range :: "page_table \<Rightarrow> u64 \<Rightarrow> u64 \<Rightarrow> u64 \<Rightarrow> u64 \<Rightarrow> vmem \<Rightarrow> vmem \<times> unit res" where
  "mmu_map_range pt virt phys sz flgs s = map_pages pt virt phys flgs (page_offsets sz) s"

text \<open>The queries walk without creating, which changes nothing.\<close>

definition mmu_resolve :: "page_table \<Rightarrow> u64 \<Rightarrow> vmem \<Rightarrow> u64" where
  "mmu_resolve pt virt s = (case snd (paging_walk pt virt False s) of None \<Rightarrow> 0
     | Some pte \<Rightarrow> if entry_at s pte AND PTE_PRESENT = 0 then 0
         else pte_get_frame (entry_at s pte) OR (virt AND PAGE_OFFSET_MASK))"

definition mmu_get_flags :: "page_table \<Rightarrow> u64 \<Rightarrow> vmem \<Rightarrow> u64" where
  "mmu_get_flags pt virt s = (case snd (paging_walk pt virt False s) of None \<Rightarrow> 0
     | Some pte \<Rightarrow> entry_at s pte AND NOT PAGE_FRAME_MASK)"

definition mmu_set_flags :: "page_table \<Rightarrow> u64 \<Rightarrow> u64 \<Rightarrow> vmem \<Rightarrow> vmem \<times> unit res" where
  "mmu_set_flags pt virt flgs s = (case snd (paging_walk pt virt False s) of None \<Rightarrow> (s, Inl ENOENT)
     | Some pte \<Rightarrow> if entry_at s pte AND PTE_PRESENT = 0 then (s, Inl ENOENT)
         else (set_entry pte (pte_make (pte_get_frame (entry_at s pte)) (flgs OR PTE_PRESENT)) s, Inr ()))"

section \<open>Page tables\<close>

definition mmu_create_page_table :: "vmem \<Rightarrow> vmem \<times> page_table option" where
  "mmu_create_page_table s =
     (let (h, pt) = kmalloc sizeof_page_table (hp s); s = s\<lparr>hp := h\<rparr>
      in if pt = 0 then (s, None)
         else let (s, phys) = get_frame s
           in if phys = 0 then (s\<lparr>hp := kfree pt (hp s)\<rparr>, None)
              else let s = zero_frame phys s
                in (s\<lparr>words := (words s)(phys := \<lambda>i. if 256 \<le> i \<and> i < 512
                        then words s (pml4_phys (kernel_pt s)) i else words s phys i)\<rparr>,
                    Some \<lparr>pt_addr = pt, pml4_phys = phys, pt_refcount = 1\<rparr>))"

definition mmu_destroy_page_table :: "page_table option \<Rightarrow> vmem \<Rightarrow> vmem" where
  "mmu_destroy_page_table pt s = (case pt of None \<Rightarrow> s
     | Some pt \<Rightarrow> if pt_addr pt = 0 then s
         else let s = put_frame (pml4_phys pt) s in s\<lparr>hp := kfree (pt_addr pt) (hp s)\<rparr>)"

definition paging_init :: "u64 \<Rightarrow> vmem \<Rightarrow> vmem" where
  "paging_init cr3 s = s\<lparr>kernel_pt := \<lparr>pt_addr = 0, pml4_phys = cr3, pt_refcount = 1\<rparr>\<rparr>"

end
