(* ===== verification/Paging_Tree.thy ===== *)
theory Paging_Tree
  imports Paging
begin

text \<open>
  The page tables as a tree and as a partial map. The tables reachable from the root through present
  entries form a tree over the user half: a table frame has one level and one position, so a store to
  an entry is seen at one place only. Under this invariant the walk of \<^verbatim>\<open>paging.c\<close> finds the entry of an
  address, and mapping, unmapping and changing flags act on the map from page numbers to entries.
\<close>

section \<open>Indices\<close>

text \<open>The number of the page of an address, of the 48 bits that are translated.\<close>

definition page_no :: "u64 \<Rightarrow> nat" where
  "page_no v = unat v div 4096 mod 2 ^ 36"

definition user_page :: "nat \<Rightarrow> bool" where
  "user_page q \<longleftrightarrow> q < 2 ^ 35"

lemma mod_mult_div: "(x :: nat) mod (m * n) div m = x div m mod n" if "0 < m"
  using that by (simp add: mod_mult2_eq)

lemma unat_drop_and_511: "unat (drop_bit n (v :: u64) AND 0x1FF) = unat v div 2 ^ n mod 512"
proof -
  have "drop_bit n v AND 0x1FF = take_bit 9 (drop_bit n v)"
    by (simp add: take_bit_eq_mask mask_eq_exp_minus_1)
  moreover have "unat (take_bit 9 (drop_bit n v)) = take_bit 9 (drop_bit n (unat v))"
    using take_bit_nat_eq_self [OF unat_u64_bound [of v]]
    by (simp only: unsigned_take_bit_eq unsigned_drop_bit_eq) simp
  ultimately show ?thesis by (simp only: take_bit_eq_mod drop_bit_eq_div) simp
qed

lemma index_page_no:
  "PT_INDEX v = page_no v mod 512" "PD_INDEX v = page_no v div 512 mod 512"
  "PDPT_INDEX v = page_no v div 512 div 512 mod 512" "PML4_INDEX v = page_no v div 512 div 512 div 512"
proof -
  define x where "x = unat v div 4096"
  have d: "unat v div 2 ^ 12 = x" "unat v div 2 ^ 21 = x div 512"
    "unat v div 2 ^ 30 = x div 512 div 512" "unat v div 2 ^ 39 = x div 512 div 512 div 512"
    by (simp_all add: x_def div_mult2_eq [symmetric])
  have q: "page_no v = x mod (512 * (512 * (512 * 512)))" by (simp add: page_no_def x_def)
  have e: "page_no v div 512 = x div 512 mod (512 * (512 * 512))" unfolding q by (rule mod_mult_div) simp
  have f: "page_no v div 512 div 512 = x div 512 div 512 mod (512 * 512)" unfolding e by (rule mod_mult_div) simp
  have g: "page_no v div 512 div 512 div 512 = x div 512 div 512 div 512 mod 512" unfolding f by (rule mod_mult_div) simp
  note u = PT_INDEX_def PD_INDEX_def PDPT_INDEX_def PML4_INDEX_def unat_drop_and_511 d
  show "PT_INDEX v = page_no v mod 512" unfolding u q by (subst mod_mod_cancel) simp_all
  show "PD_INDEX v = page_no v div 512 mod 512" unfolding u e by (subst mod_mod_cancel) simp_all
  show "PDPT_INDEX v = page_no v div 512 div 512 mod 512" unfolding u f by (subst mod_mod_cancel) simp_all
  show "PML4_INDEX v = page_no v div 512 div 512 div 512" unfolding u g ..
qed

lemma index_bound: "PT_INDEX v < 512" "PD_INDEX v < 512" "PDPT_INDEX v < 512" "PML4_INDEX v < 512"
  by (simp_all add: PT_INDEX_def PD_INDEX_def PDPT_INDEX_def PML4_INDEX_def unat_drop_and_511)

lemma page_no_align: "page_no (ALIGN_DOWN v PAGE_SIZE) = page_no v"
proof -
  have "ALIGN_DOWN v PAGE_SIZE = v AND NOT (mask 12)"
    by (simp add: ALIGN_DOWN_def PAGE_SIZE_def mask_eq_exp_minus_1)
  then show ?thesis by (simp add: page_no_def unat_and_not_mask)
qed

section \<open>The tree of tables\<close>

inductive table_at :: "u64 \<Rightarrow> (u64 \<Rightarrow> nat \<Rightarrow> u64) \<Rightarrow> nat \<Rightarrow> nat \<Rightarrow> u64 \<Rightarrow> bool" for r w where
  at_root: "table_at r w 4 0 r"
| at_child: "table_at r w (Suc l) p t \<Longrightarrow> 1 \<le> l \<Longrightarrow> i < 512 \<Longrightarrow> (l = 3 \<Longrightarrow> i < 256) \<Longrightarrow>
    w t i AND PTE_PRESENT \<noteq> 0 \<Longrightarrow> table_at r w l (p * 512 + i) (pte_get_frame (w t i))"

inductive_cases table_at_4: "table_at r w 4 p t"

lemma table_at_level: "table_at r w l p t \<Longrightarrow> 1 \<le> l \<and> l \<le> 4"
  by (induction rule: table_at.induct) auto

lemma table_at_root: "table_at r w 4 p t \<Longrightarrow> p = 0 \<and> t = r"
  by (erule table_at_4) (auto dest: table_at_level)

lemma pos_split:
  assumes "p * 512 + i = p' * 512 + i'" and "i < 512" and "i' < (512 :: nat)"
  shows "p = p' \<and> i = i'"
proof -
  have "(p * 512 + i) div 512 = p" "(p' * 512 + i') div 512 = p'" using assms(2,3) by simp_all
  then have "p = p'" using assms(1) by (simp only:)
  then show ?thesis using assms(1) by simp
qed

lemma table_at_functional: "table_at r w l p t \<Longrightarrow> table_at r w l p t' \<Longrightarrow> t = t'"
proof (induction arbitrary: t' rule: table_at.induct)
  case at_root
  then show ?case using table_at_root by blast
next
  case (at_child l p t i)
  from at_child.prems at_child.hyps(2) at_child.hyps(1) show ?case
  proof (cases rule: table_at.cases)
    case at_root
    then show ?thesis using table_at_level [OF at_child.hyps(1)] by simp
  next
    case c: (at_child p1 t1 i1)
    have "p = p1 \<and> i = i1" using pos_split c(1,5) at_child.hyps(3) by blast
    then show ?thesis using at_child.IH c(2,3) by auto
  qed
qed

definition frame_free :: "vmem \<Rightarrow> u64 \<Rightarrow> bool" where
  "frame_free s t \<longleftrightarrow> unat (phys_to_pfn t) \<in> free_frames (frames (hp s))"

definition tree_ok :: "u64 \<Rightarrow> (u64 \<Rightarrow> nat \<Rightarrow> u64) \<Rightarrow> bool" where
  "tree_ok r w \<longleftrightarrow>
     (\<forall>l p l' p' t. table_at r w l p t \<longrightarrow> table_at r w l' p' t \<longrightarrow> l = l' \<and> p = p') \<and>
     (\<forall>l p t i. table_at r w l p t \<longrightarrow> (l = 2 \<or> l = 3) \<longrightarrow> i < 512 \<longrightarrow> w t i AND PTE_HUGE = 0)"

definition pt_ok :: "u64 \<Rightarrow> vmem \<Rightarrow> bool" where
  "pt_ok r s \<longleftrightarrow> pmm_ok (frames (hp s)) \<and> tree_ok r (words s) \<and> (\<forall>l p t. table_at r (words s) l p t \<longrightarrow> \<not> frame_free s t)"

text \<open>The entry of a page, when it is present.\<close>

definition pte_of :: "u64 \<Rightarrow> (u64 \<Rightarrow> nat \<Rightarrow> u64) \<Rightarrow> nat \<Rightarrow> u64 \<Rightarrow> bool" where
  "pte_of r w q e \<longleftrightarrow> (\<exists>t. table_at r w 1 (q div 512) t \<and> e = w t (q mod 512) \<and> e AND PTE_PRESENT \<noteq> 0)"

lemma pte_of_functional: "pte_of r w q e \<Longrightarrow> pte_of r w q e' \<Longrightarrow> e = e'"
  unfolding pte_of_def using table_at_functional by blast

lemma pte_of_at:
  assumes "table_at r w 1 (q div 512) t"
  shows "pte_of r w q e \<longleftrightarrow> e = w t (q mod 512) \<and> e AND PTE_PRESENT \<noteq> 0"
proof
  assume "pte_of r w q e"
  then obtain u where "table_at r w 1 (q div 512) u" "e = w u (q mod 512)" "e AND PTE_PRESENT \<noteq> 0"
    unfolding pte_of_def by blast
  moreover from this(1) have "u = t" using table_at_functional assms by blast
  ultimately show "e = w t (q mod 512) \<and> e AND PTE_PRESENT \<noteq> 0" by simp
next
  assume "e = w t (q mod 512) \<and> e AND PTE_PRESENT \<noteq> 0"
  then show "pte_of r w q e" unfolding pte_of_def using assms by blast
qed

text \<open>A store to a last-level entry changes no table.\<close>

lemma table_at_leaf_store:
  assumes "tree_ok r w" and "table_at r w 1 p t"
  shows "table_at r (w(t := (w t)(i := e))) l q u \<longleftrightarrow> table_at r w l q u"
proof -
  define w' where "w' = w(t := (w t)(i := e))"
  have other: "w' u = w u" if "table_at r w (Suc k) q u" "1 \<le> k" for k q u
  proof -
    have "u \<noteq> t" using assms that unfolding tree_ok_def by fastforce
    then show ?thesis by (simp add: w'_def)
  qed
  have "table_at r w l q u" if "table_at r w' l q u"
    using that
  proof (induction rule: table_at.induct)
    case (at_child k p1 t1 j)
    have eq: "w' t1 = w t1" by (rule other [OF at_child.IH at_child.hyps(2)])
    show ?case
      unfolding eq by (rule table_at.at_child [OF at_child.IH at_child.hyps(2-4) at_child.hyps(5) [unfolded eq]])
  qed (rule table_at.at_root)
  moreover have "table_at r w' l q u" if "table_at r w l q u"
    using that
  proof (induction rule: table_at.induct)
    case (at_child k p1 t1 j)
    have eq: "w t1 = w' t1" by (rule other [OF at_child.hyps(1,2), symmetric])
    show ?case
      unfolding eq by (rule table_at.at_child [OF at_child.IH at_child.hyps(2-4) at_child.hyps(5) [unfolded eq]])
  qed (rule table_at.at_root)
  ultimately show ?thesis unfolding w'_def by blast
qed

text \<open>A fresh table hung into an absent entry adds itself and nothing else.\<close>

lemma table_at_add:
  assumes t: "table_at r w (Suc l) p t" "1 \<le> l" "i < 512" "l = 3 \<Longrightarrow> i < 256"
    and inj: "\<And>l p l' p' u. table_at r w l p u \<Longrightarrow> table_at r w l' p' u \<Longrightarrow> l = l' \<and> p = p'"
    and absent: "w t i AND PTE_PRESENT = 0" and fresh: "\<And>l p. \<not> table_at r w l p n"
    and e: "e AND PTE_PRESENT \<noteq> 0" "pte_get_frame e = n"
  defines "w' \<equiv> (w(n := \<lambda>_. 0))(t := (w t)(i := e))"
  shows "table_at r w' k q u \<longleftrightarrow> table_at r w k q u \<or> (k = l \<and> q = p * 512 + i \<and> u = n)"
proof -
  have tn: "t \<noteq> n" using fresh t(1) by blast
  have old: "w' u j = w u j" if "table_at r w k q u" "(u, j) \<noteq> (t, i)" for k q u j
    using that fresh tn by (auto simp: w'_def)
  have keep: "table_at r w' k q u" if "table_at r w k q u" for k q u
    using that
  proof (induction rule: table_at.induct)
    case (at_child k q u j)
    have "(u, j) \<noteq> (t, i)" using at_child.hyps(5) absent by auto
    then have "w' u j = w u j" using old at_child.hyps(1) by blast
    then have eq: "w u j = w' u j" ..
    show ?case
      unfolding eq by (rule table_at.at_child [OF at_child.IH at_child.hyps(2-4) at_child.hyps(5) [unfolded eq]])
  qed (rule table_at.at_root)
  have new: "w' t i = e" by (simp add: w'_def)
  have add: "table_at r w' l (p * 512 + i) n"
    using table_at.at_child [OF keep [OF t(1)] t(2-4)] new e by simp
  have "table_at r w k q u \<or> (k = l \<and> q = p * 512 + i \<and> u = n)" if "table_at r w' k q u"
    using that
  proof (induction rule: table_at.induct)
    case at_root
    then show ?case using table_at.at_root by blast
  next
    case (at_child k q u j)
    from at_child.IH show ?case
    proof
      assume u: "table_at r w (Suc k) q u"
      show ?thesis
      proof (cases "(u, j) = (t, i)")
        case True
        then have "k = l" "q = p" using inj [OF u] t(1) by blast+
        then show ?thesis using True new e by simp
      next
        case False
        then have eq: "w' u j = w u j" using old [OF u] by blast
        have "table_at r w k (q * 512 + j) (pte_get_frame (w' u j))"
          unfolding eq by (rule table_at.at_child [OF u at_child.hyps(2-4) at_child.hyps(5) [unfolded eq]])
        then show ?thesis ..
      qed
    next
      assume "Suc k = l \<and> q = p * 512 + i \<and> u = n"
      then have "w' u j = 0" using tn by (simp add: w'_def)
      then show ?thesis using at_child.hyps(5) by simp
    qed
  qed
  then show ?thesis using keep add by blast
qed

section \<open>Frames\<close>

lemma managed_bound:
  assumes "pmm_inv f" and "j \<in> managed f"
  shows "j < 0x100000"
proof -
  obtain i where "i < 3" "j \<in> zone_frames (zones f ! i)" using assms(2) by (auto simp: managed_def)
  moreover have "\<forall>i<3. zone_frames (zones f ! i) \<subseteq> {..<32 * bitmap_words}" using assms(1) unfolding pmm_inv_def by blast
  ultimately show ?thesis unfolding bitmap_words_32 by blast
qed

text \<open>A page-aligned address below 4 GiB is its own frame.\<close>

lemma get_frame_masks: "pte_get_frame x = take_bit 52 x AND NOT (mask 12)"
proof -
  have "PAGE_FRAME_MASK = mask 52 AND NOT (mask 12)" by (simp add: PAGE_FRAME_MASK_def mask_eq_exp_minus_1)
  then show ?thesis by (simp add: pte_get_frame_def take_bit_eq_mask ac_simps)
qed

lemma frame_of_aligned:
  assumes "unat n mod 4096 = 0" and "unat (phys_to_pfn n) < 0x100000"
  shows "pte_get_frame n = n"
proof -
  have "unat (phys_to_pfn n) = unat n div 4096"
    using take_bit_nat_eq_self [OF unat_u64_bound [of n]]
    by (simp only: phys_to_pfn_def PAGE_SHIFT_def unsigned_drop_bit_eq) (simp add: drop_bit_eq_div)
  then have "unat n < 2 ^ 52" using assms(2) by (simp add: div_less_iff_less_mult)
  then have "take_bit 52 n = n"
    by (simp only: word_unat_eq_iff unsigned_take_bit_eq) (simp add: take_bit_nat_eq_self)
  moreover have "n AND NOT (mask 12) = n"
    using assms(1) mult_div_mod_eq [of 4096 "unat n"] by (simp add: word_unat_eq_iff unat_and_not_mask)
  ultimately show ?thesis by (simp only: get_frame_masks)
qed

lemma get_frame_idem: "pte_get_frame (pte_get_frame x) = pte_get_frame x"
  by (simp add: pte_get_frame_def ac_simps)

lemma and_not_disjoint:
  assumes "(x :: u64) AND m = 0"
  shows "x AND NOT m = x"
proof (rule bit_word_eqI)
  fix i assume "i < LENGTH(64)"
  moreover have "\<not> bit (x AND m) i" using assms by simp
  ultimately show "bit (x AND NOT m) i = bit x i" by (auto simp: bit_simps)
qed

text \<open>Flags that do not reach into the frame bits.\<close>

lemma pte_make_fields:
  assumes "flgs AND PAGE_FRAME_MASK = 0"
  shows "pte_get_frame (pte_make f (flgs OR PTE_PRESENT)) = pte_get_frame f"
    and "pte_make f (flgs OR PTE_PRESENT) AND PTE_PRESENT \<noteq> 0"
    and "pte_make f (flgs OR PTE_PRESENT) AND NOT PAGE_FRAME_MASK = flgs OR PTE_PRESENT"
proof -
  have pm: "PTE_PRESENT AND PAGE_FRAME_MASK = 0" by (simp add: PTE_PRESENT_def PAGE_FRAME_MASK_def)
  show "pte_get_frame (pte_make f (flgs OR PTE_PRESENT)) = pte_get_frame f"
    using assms pm by (simp add: pte_get_frame_def pte_make_def bit.conj_disj_distrib2 and.assoc)
  have "bit (pte_make f (flgs OR PTE_PRESENT) AND PTE_PRESENT) 0"
    by (simp add: pte_make_def PTE_PRESENT_def bit_simps)
  then show "pte_make f (flgs OR PTE_PRESENT) AND PTE_PRESENT \<noteq> 0" by auto
  have "(flgs OR PTE_PRESENT) AND PAGE_FRAME_MASK = 0" using assms pm by (simp add: bit.conj_disj_distrib2)
  then have n: "(flgs OR PTE_PRESENT) AND NOT PAGE_FRAME_MASK = flgs OR PTE_PRESENT" by (rule and_not_disjoint)
  show "pte_make f (flgs OR PTE_PRESENT) AND NOT PAGE_FRAME_MASK = flgs OR PTE_PRESENT"
    unfolding pte_make_def by (subst bit.conj_disj_distrib2) (simp only: n, simp add: and.assoc)
qed

lemma get_frame_effect:
  assumes "pmm_ok (frames (hp s))" and "get_frame s = (s', n)"
  shows "words s' = words s" and "kernel_pt s' = kernel_pt s" and "pmm_ok (frames (hp s'))" and "n = 0 \<Longrightarrow> s' = s"
    and "n \<noteq> 0 \<Longrightarrow> frame_free s n \<and> \<not> frame_free s' n \<and> pte_get_frame n = n"
    and "frame_free s' t \<Longrightarrow> frame_free s t"
proof -
  obtain f where a: "pmm_alloc_pages 1 (frames (hp s)) = (f, n)" and s': "s' = s\<lparr>hp := (hp s)\<lparr>frames := f\<rparr>\<rparr>"
    using assms(2) by (auto simp: get_frame_def pmm_alloc_page_one split: prod.splits)
  show "words s' = words s" "kernel_pt s' = kernel_pt s" "pmm_ok (frames (hp s'))"
    using pages.alloc_ok [OF assms(1) a] by (simp_all add: s')
  show z: "s' = s" if "n = 0" using pages.alloc_fail [OF assms(1)] a that by (simp add: s')
  have pf: "page_frames n 1 = {unat (phys_to_pfn n)}" by (auto simp: page_frames_def)
  have t: "unat (phys_to_pfn n) \<in> free_frames (frames (hp s))" "free_frames f = free_frames (frames (hp s)) - {unat (phys_to_pfn n)}"
    "unat n mod 4096 = 0" if "n \<noteq> 0"
    using pages.alloc_takes [OF assms(1) a that] by (auto simp: pf)
  have "unat (phys_to_pfn n) < 0x100000" if "n \<noteq> 0"
    using t(1) [OF that] assms(1) managed_bound free_frames_managed by (auto simp: pmm_ok_def)
  then show "frame_free s n \<and> \<not> frame_free s' n \<and> pte_get_frame n = n" if "n \<noteq> 0"
    using t that frame_of_aligned by (simp add: frame_free_def s')
  show "frame_free s t" if "frame_free s' t"
  proof (cases "n = 0")
    case False
    then show ?thesis using that t(2) by (simp add: frame_free_def s')
  qed (use that z in simp)
qed

section \<open>The walk\<close>

lemma walk_flags_fields: "walk_flags v AND PAGE_FRAME_MASK = 0" "walk_flags v AND PTE_HUGE = 0"
  by (simp_all add: walk_flags_def PTE_PRESENT_def PTE_WRITABLE_def PTE_USER_def PAGE_FRAME_MASK_def PTE_HUGE_def)

lemma table_entry_not_huge:
  assumes "flgs AND PTE_HUGE = 0"
  shows "pte_make n (flgs OR PTE_PRESENT) AND PTE_HUGE = 0"
proof -
  have "PTE_PRESENT AND PTE_HUGE = 0" "PAGE_FRAME_MASK AND PTE_HUGE = 0"
    by (simp_all add: PTE_PRESENT_def PTE_HUGE_def PAGE_FRAME_MASK_def)
  then show ?thesis
    using assms by (simp add: pte_make_def bit.conj_disj_distrib2 and.assoc)
qed

text \<open>What a step of the walk keeps: the invariant, the entries of all pages, and the tables; it only
  writes to its own tables and to frames that were free.\<close>

definition within :: "u64 \<Rightarrow> vmem \<Rightarrow> u64 \<Rightarrow> bool" where
  "within r s t \<longleftrightarrow> (\<exists>l p. table_at r (words s) l p t) \<or> frame_free s t"

definition stays_within :: "u64 \<Rightarrow> vmem \<Rightarrow> vmem \<Rightarrow> bool" where
  "stays_within r s s' \<longleftrightarrow> (\<forall>t. within r s' t \<longrightarrow> within r s t) \<and> (\<forall>t. \<not> within r s t \<longrightarrow> words s' t = words s t) \<and>
     (\<forall>t. frame_free s' t \<longrightarrow> frame_free s t) \<and> pmm_ok (frames (hp s'))"

lemma stays_within_trans: "stays_within r s s' \<Longrightarrow> stays_within r s' s'' \<Longrightarrow> stays_within r s s''"
  unfolding stays_within_def by metis

definition walk_keeps :: "u64 \<Rightarrow> vmem \<Rightarrow> vmem \<Rightarrow> bool" where
  "walk_keeps r s s' \<longleftrightarrow> pt_ok r s' \<and> kernel_pt s' = kernel_pt s \<and> stays_within r s s' \<and>
     (\<forall>q e. pte_of r (words s') q e = pte_of r (words s) q e) \<and>
     (\<forall>l p t. table_at r (words s) l p t \<longrightarrow> table_at r (words s') l p t)"

lemma walk_keeps_refl: "pt_ok r s \<Longrightarrow> walk_keeps r s s"
  by (simp add: walk_keeps_def stays_within_def pt_ok_def)

lemma walk_keeps_trans: "walk_keeps r s s' \<Longrightarrow> walk_keeps r s' s'' \<Longrightarrow> walk_keeps r s s''"
  by (auto simp: walk_keeps_def intro: stays_within_trans)

lemma add_table:
  assumes ok: "pt_ok r s" and t: "table_at r (words s) (Suc l) p t" "1 \<le> l" "i < 512" "l = 3 \<Longrightarrow> i < 256"
    and absent: "words s t i AND PTE_PRESENT = 0" and g: "get_frame s = (s1, n)" "n \<noteq> 0"
    and f: "flgs AND PAGE_FRAME_MASK = 0" "flgs AND PTE_HUGE = 0"
  defines "s' \<equiv> set_entry (t, i) (pte_make n (flgs OR PTE_PRESENT)) (zero_frame n s1)"
  shows "walk_keeps r s s'" and "table_at r (words s') l (p * 512 + i) n"
proof -
  let ?e = "pte_make n (flgs OR PTE_PRESENT)"
  have pm: "pmm_ok (frames (hp s))" and tree: "tree_ok r (words s)" and nf: "\<And>l p t. table_at r (words s) l p t \<Longrightarrow> \<not> frame_free s t"
    using ok by (auto simp: pt_ok_def)
  have inj: "l = l' \<and> p = p'" if "table_at r (words s) l p u" "table_at r (words s) l' p' u" for l p l' p' u
    using tree that unfolding tree_ok_def by blast
  have huge: "words s u j AND PTE_HUGE = 0" if "table_at r (words s) k q u" "k = 2 \<or> k = 3" "j < 512" for k q u j
    using tree that unfolding tree_ok_def by blast
  note gf = get_frame_effect [OF pm g(1)]
  have n: "frame_free s n" "\<not> frame_free s1 n" "pte_get_frame n = n" using gf(5) [OF g(2)] by auto
  have fresh: "\<not> table_at r (words s) l p n" for l p using nf n(1) by blast
  have e: "?e AND PTE_PRESENT \<noteq> 0" "pte_get_frame ?e = n" "?e AND PTE_HUGE = 0"
    using pte_make_fields(1,2) [OF f(1)] n(3) table_entry_not_huge [OF f(2)] by auto
  have tn: "t \<noteq> n" using fresh t(1) by blast
  have w': "words s' = ((words s)(n := \<lambda>_. 0))(t := (words s t)(i := ?e))"
    using tn by (simp add: s'_def set_entry_def zero_frame_def gf(1) fun_upd_twist)
  have ta: "table_at r (words s') k q u \<longleftrightarrow> table_at r (words s) k q u \<or> (k = l \<and> q = p * 512 + i \<and> u = n)" for k q u
    unfolding w' by (rule table_at_add [OF t(1-3)]; fact t(4) inj absent fresh e(1,2))
  show new: "table_at r (words s') l (p * 512 + i) n" by (simp add: ta)
  have fr: "frame_free s' u = frame_free s1 u" for u by (simp add: s'_def frame_free_def set_entry_def zero_frame_def)
  have old: "words s' u j = words s u j" if "table_at r (words s) k q u" "(u, j) \<noteq> (t, i)" for k q u j
    using that fresh by (auto simp: w')
  have zero: "words s' n j = 0" for j using tn by (simp add: w')
  have "tree_ok r (words s')"
    unfolding tree_ok_def
  proof (intro conjI allI impI)
    fix k q k' q' u
    assume "table_at r (words s') k q u" "table_at r (words s') k' q' u"
    then have u: "table_at r (words s) k q u \<or> (k = l \<and> q = p * 512 + i \<and> u = n)"
      "table_at r (words s) k' q' u \<or> (k' = l \<and> q' = p * 512 + i \<and> u = n)" by (simp_all only: ta)
    show "k = k'" "q = q'" using u fresh inj [of k q u k' q'] by (cases "u = n"; simp)+
  next
    fix k q u and j :: nat
    assume u: "table_at r (words s') k q u" and k: "k = 2 \<or> k = 3" and j: "j < 512"
    show "words s' u j AND PTE_HUGE = 0"
    proof (cases "(u, j) = (t, i)")
      case True
      then show ?thesis using e(3) by (simp add: w')
    next
      case False
      have "table_at r (words s) k q u \<or> u = n" using u unfolding ta by blast
      then show ?thesis
      proof
        assume "table_at r (words s) k q u"
        then show ?thesis using old [of k q u j] huge [of k q u j] k j False by simp
      qed (simp add: zero)
    qed
  qed
  moreover have "\<not> frame_free s' u" if "table_at r (words s') k q u" for k q u
  proof -
    have "table_at r (words s) k q u \<or> u = n" using that unfolding ta by blast
    then show ?thesis using nf n(2) gf(6) [of u] by (auto simp: fr)
  qed
  moreover have "pmm_ok (frames (hp s'))" using gf(3) by (simp add: s'_def set_entry_def zero_frame_def)
  ultimately have "pt_ok r s'" by (simp add: pt_ok_def)
  moreover have "pte_of r (words s') q e' = pte_of r (words s) q e'" for q e'
  proof -
    have "words s' u j = words s u j" if "table_at r (words s) 1 a u" for a u j
    proof -
      have "u \<noteq> t" using inj [OF that, of "Suc l" p] t(1,2) by auto
      then show ?thesis using old [OF that] by simp
    qed
    then show ?thesis using zero unfolding pte_of_def ta by auto
  qed
  moreover have "kernel_pt s' = kernel_pt s" using gf(2) by (simp add: s'_def set_entry_def zero_frame_def)
  moreover have "stays_within r s s'"
    unfolding stays_within_def
  proof (intro conjI allI impI)
    show "within r s u" if "within r s' u" for u
      using that n(1) gf(6) [of u] unfolding within_def ta fr by blast
    show "words s' u = words s u" if "\<not> within r s u" for u
    proof -
      have "u \<noteq> t" "u \<noteq> n" using that t(1) n(1) by (auto simp: within_def)
      then show ?thesis by (simp add: w')
    qed
    show "frame_free s u" if "frame_free s' u" for u using that gf(6) by (simp add: fr)
  qed fact
  ultimately show "walk_keeps r s s'" by (simp add: walk_keeps_def ta)
qed

lemma next_table_effect:
  assumes ok: "pt_ok r s" and t: "table_at r (words s) (Suc l) p t" "1 \<le> l" "i < 512" "l = 3 \<Longrightarrow> i < 256"
    and f: "flgs AND PAGE_FRAME_MASK = 0" "flgs AND PTE_HUGE = 0" and nt: "next_table create flgs (t, i) s = (s', res)"
  shows "walk_keeps r s s'" and "res = Some u \<Longrightarrow> table_at r (words s') l (p * 512 + i) u"
    and "\<not> create \<Longrightarrow> s' = s" and "res = None \<Longrightarrow> s' = s \<and> (\<forall>u. \<not> table_at r (words s) l (p * 512 + i) u)"
proof -
  have none: "\<not> table_at r (words s) l (p * 512 + i) u" if "words s t i AND PTE_PRESENT = 0" for u
  proof
    assume "table_at r (words s) l (p * 512 + i) u"
    then show False
    proof (cases rule: table_at.cases)
      case at_root
      then show False using table_at_level [OF t(1)] by simp
    next
      case (at_child p1 t1 j)
      then have "p1 = p" "j = i" using pos_split t(3) by blast+
      then show False using at_child table_at_functional [OF t(1)] that by auto
    qed
  qed
  obtain s1 n where g: "get_frame s = (s1, n)" by fastforce
  have z: "n = 0 \<Longrightarrow> s1 = s" using get_frame_effect(4) [OF _ g] ok by (simp add: pt_ok_def)
  have "walk_keeps r s s' \<and> (\<forall>u. res = Some u \<longrightarrow> table_at r (words s') l (p * 512 + i) u) \<and> (\<not> create \<longrightarrow> s' = s) \<and>
      (res = None \<longrightarrow> s' = s \<and> words s t i AND PTE_PRESENT = 0)"
  proof (cases "words s t i AND PTE_PRESENT = 0")
    case False
    then have "s' = s" "res = Some (pte_get_frame (words s t i))" using nt by (auto simp: next_table_def entry_at_def)
    then show ?thesis using walk_keeps_refl [OF ok] table_at.at_child [OF t False] by simp
  next
    case True
    show ?thesis
    proof (cases "create \<and> n \<noteq> 0")
      case c: True
      then have "s' = set_entry (t, i) (pte_make n (flgs OR PTE_PRESENT)) (zero_frame n s1)" "res = Some n"
        using nt True g by (auto simp: next_table_def entry_at_def paging_get_or_create_def)
      then show ?thesis using add_table [OF ok t True g _ f] c by simp
    next
      case False
      then have "s' = s" "res = None"
        using nt True g z by (auto simp: next_table_def entry_at_def paging_get_or_create_def split: if_splits)
      then show ?thesis using walk_keeps_refl [OF ok] True by simp
    qed
  qed
  then show "walk_keeps r s s'" "res = Some u \<Longrightarrow> table_at r (words s') l (p * 512 + i) u" "\<not> create \<Longrightarrow> s' = s"
    "res = None \<Longrightarrow> s' = s \<and> (\<forall>u. \<not> table_at r (words s) l (p * 512 + i) u)" using none by blast+
qed

lemma child_absent:
  assumes "\<And>u. \<not> table_at r w (Suc l) p u" and "l < 4" and "i < 512"
  shows "\<not> table_at r w l (p * 512 + i) t"
proof
  assume "table_at r w l (p * 512 + i) t"
  then show False
  proof (cases rule: table_at.cases)
    case at_root
    then show False using assms by auto
  next
    case (at_child p1 t1 j)
    then show False using assms pos_split by blast
  qed
qed

lemma no_table_below:
  "(\<And>u. \<not> table_at r w 3 (page_no v div 512 div 512 div 512) u) \<Longrightarrow> \<not> table_at r w 1 (page_no v div 512) t"
  "(\<And>u. \<not> table_at r w 2 (page_no v div 512 div 512) u) \<Longrightarrow> \<not> table_at r w 1 (page_no v div 512) t"
proof -
  let ?q = "page_no v"
  show two: "\<not> table_at r w 1 (?q div 512) t" if "\<And>u. \<not> table_at r w 2 (?q div 512 div 512) u" for t
    using child_absent [of r w 1 "?q div 512 div 512" "?q div 512 mod 512" t] that
    by (simp add: numeral_2_eq_2)
  show "\<not> table_at r w 1 (?q div 512) t" if "\<And>u. \<not> table_at r w 3 (?q div 512 div 512 div 512) u" for t
  proof (rule two)
    show "\<not> table_at r w 2 (?q div 512 div 512) u" for u
      using child_absent [of r w 2 "?q div 512 div 512 div 512" "?q div 512 div 512 mod 512" u] that
      by (simp add: numeral_3_eq_3)
  qed
qed

text \<open>The walk of a user address finds the entry of its page, or finds that there is no last-level
  table for it.\<close>

lemma paging_walk_effect:
  assumes ok: "pt_ok r s" and r: "pml4_phys pt = r" and u: "user_page (page_no v)"
    and w: "paging_walk pt v create s = (s', res)"
  shows "walk_keeps r s s'" and "\<not> create \<Longrightarrow> s' = s"
    and "res = Some (t, i) \<Longrightarrow> table_at r (words s') 1 (page_no v div 512) t \<and> i = page_no v mod 512"
    and "res = None \<Longrightarrow> \<not> table_at r (words s) 1 (page_no v div 512) t"
proof -
  define q where "q = page_no v"
  note f = walk_flags_fields [of v]
  have i4: "PML4_INDEX v < 512" "PML4_INDEX v < 256" using u by (auto simp: index_page_no user_page_def)
  have pos: "0 * 512 + PML4_INDEX v = q div 512 div 512 div 512"
    "q div 512 div 512 div 512 * 512 + PDPT_INDEX v = q div 512 div 512"
    "q div 512 div 512 * 512 + PD_INDEX v = q div 512" by (simp_all add: index_page_no q_def)
  have l: "4 = Suc 3" "(3 :: nat) = Suc 2" "(2 :: nat) = Suc 1" by simp_all
  obtain s1 o1 where n4: "next_table create (walk_flags v) (r, PML4_INDEX v) s = (s1, o1)" by fastforce
  note N4 = next_table_effect [OF ok table_at.at_root [unfolded l(1)] _ i4(1) i4(2) f n4, unfolded pos(1)]
  note gone = no_table_below(1,2) [of r _ v, folded q_def]
  have main: "walk_keeps r s s' \<and> (\<not> create \<longrightarrow> s' = s) \<and>
    (\<forall>t i. res = Some (t, i) \<longrightarrow> table_at r (words s') 1 (q div 512) t \<and> i = q mod 512) \<and>
    (res = None \<longrightarrow> (\<forall>t. \<not> table_at r (words s) 1 (q div 512) t))"
  proof (cases o1)
    case None
    then show ?thesis using w n4 N4 gone(1) r by (auto simp: paging_walk_def paging_get_entry_def)
  next
    case o1: (Some pdpt)
    have k1: "walk_keeps r s s1" and t3: "table_at r (words s1) 3 (q div 512 div 512 div 512) pdpt"
      using N4(1,2) o1 by auto
    have ok1: "pt_ok r s1" using k1 by (simp add: walk_keeps_def)
    have h3: "words s1 pdpt (PDPT_INDEX v) AND PTE_HUGE = 0"
      using ok1 t3 index_bound(3) unfolding pt_ok_def tree_ok_def by blast
    obtain s2 o2 where n3: "next_table create (walk_flags v) (pdpt, PDPT_INDEX v) s1 = (s2, o2)" by fastforce
    note N3 = next_table_effect [OF ok1 t3 [unfolded l(2)] _ index_bound(3) _ f n3, unfolded pos(2)]
    have prior: "\<not> table_at r (words s) k p u" if "\<not> table_at r (words s1) k p u" for k p u
      using k1 that unfolding walk_keeps_def by blast
    show ?thesis
    proof (cases o2)
      case None
      have "s' = s2" "res = None"
        using w n4 n3 o1 None h3 r by (auto simp: paging_walk_def paging_get_entry_def entry_at_def)
      then show ?thesis
        using None N3 N4(3) k1 gone(2) prior by auto
    next
      case o2: (Some pd)
      have k2: "walk_keeps r s1 s2" and t2: "table_at r (words s2) 2 (q div 512 div 512) pd"
        using N3(1,2) o2 by auto
      have ok2: "pt_ok r s2" using k2 by (simp add: walk_keeps_def)
      have h2: "words s2 pd (PD_INDEX v) AND PTE_HUGE = 0"
        using ok2 t2 index_bound(2) unfolding pt_ok_def tree_ok_def by blast
      obtain s3 o3 where n2: "next_table create (walk_flags v) (pd, PD_INDEX v) s2 = (s3, o3)" by fastforce
      note N2 = next_table_effect [OF ok2 t2 [unfolded l(3)] _ index_bound(2) _ f n2, unfolded pos(3)]
      have e: "s' = s3" "res = (case o3 of None \<Rightarrow> None | Some t \<Rightarrow> Some (t, PT_INDEX v))"
        using w n4 n3 n2 o1 o2 h3 h2 r by (auto simp: paging_walk_def paging_get_entry_def entry_at_def split: option.splits)
      have prior2: "\<not> table_at r (words s1) k p u" if "\<not> table_at r (words s2) k p u" for k p u
        using k2 that unfolding walk_keeps_def by blast
      have "walk_keeps r s s3" using walk_keeps_trans [OF walk_keeps_trans [OF k1 k2] N2(1)] by simp
      moreover have "\<not> create \<longrightarrow> s3 = s" using N2(3) N3(3) N4(3) by auto
      moreover have "table_at r (words s3) 1 (q div 512) t" if "o3 = Some t" for t using N2(2) that by simp
      moreover have "\<not> table_at r (words s) 1 (q div 512) t" if "o3 = None" for t
        using N2(4) that prior prior2 by simp
      ultimately show ?thesis
        unfolding e by (cases o3) (auto simp: index_page_no q_def)
    qed
  qed
  show "walk_keeps r s s'" "\<not> create \<Longrightarrow> s' = s"
    "res = Some (t, i) \<Longrightarrow> table_at r (words s') 1 (page_no v div 512) t \<and> i = page_no v mod 512"
    "res = None \<Longrightarrow> \<not> table_at r (words s) 1 (page_no v div 512) t"
    using main by (simp_all add: q_def)
qed

section \<open>Mapping, unmapping and flags\<close>

lemma leaf_store:
  fixes e :: u64
  assumes ok: "pt_ok r s" and t: "table_at r (words s) 1 (q div 512) t"
  defines "s' \<equiv> set_entry (t, q mod 512) e s"
  shows "pt_ok r s'" and "pte_of r (words s') q' e' \<longleftrightarrow>
    (if q' = q then e' = e \<and> e AND PTE_PRESENT \<noteq> 0 else pte_of r (words s) q' e')"
    and "kernel_pt s' = kernel_pt s" and "hp s' = hp s" and "stays_within r s s'"
proof -
  have tree: "tree_ok r (words s)" using ok by (simp add: pt_ok_def)
  have w': "words s' = (words s)(t := (words s t)(q mod 512 := e))" by (simp add: s'_def set_entry_def)
  note ta = table_at_leaf_store [OF tree t, of "q mod 512" e, folded w']
  have lvl: "u \<noteq> t" if "table_at r (words s) l p u" "l = 2 \<or> l = 3" for l p u
    using tree t that unfolding tree_ok_def by fastforce
  show "kernel_pt s' = kernel_pt s" "hp s' = hp s" by (simp_all add: s'_def set_entry_def)
  then have fr: "frame_free s' u = frame_free s u" for u by (simp add: frame_free_def)
  have "words s' u i AND PTE_HUGE = 0" if "table_at r (words s) l p u" "l = 2 \<or> l = 3" "i < 512" for l p u i
    using tree that lvl [OF that(1,2)] unfolding tree_ok_def by (auto simp: w')
  then have "tree_ok r (words s')" using tree unfolding tree_ok_def ta by blast
  then show "pt_ok r s'" using ok \<open>hp s' = hp s\<close> unfolding pt_ok_def ta fr by simp
  have "words s' u = words s u" if "\<not> within r s u" for u
  proof -
    have "u \<noteq> t" using that t by (auto simp: within_def)
    then show ?thesis by (simp add: w')
  qed
  moreover have "within r s' u = within r s u" for u unfolding within_def ta fr ..
  ultimately show "stays_within r s s'" using ok \<open>hp s' = hp s\<close> by (simp add: stays_within_def fr pt_ok_def)
  show "pte_of r (words s') q' e' \<longleftrightarrow> (if q' = q then e' = e \<and> e AND PTE_PRESENT \<noteq> 0 else pte_of r (words s) q' e')"
  proof (cases "q' = q")
    case True
    have "table_at r (words s') 1 (q div 512) t" using t by (simp only: ta)
    then show ?thesis using True by (auto simp: pte_of_at w')
  next
    case False
    have "words s' u (q' mod 512) = words s u (q' mod 512)" if "table_at r (words s) 1 (q' div 512) u" for u
    proof -
      have "(u, q' mod 512) \<noteq> (t, q mod 512)"
      proof
        assume "(u, q' mod 512) = (t, q mod 512)"
        then have "q' div 512 = q div 512" "q' mod 512 = q mod 512" using tree t that unfolding tree_ok_def by blast+
        then show False using False by (metis div_mult_mod_eq)
      qed
      then show ?thesis by (auto simp: w')
    qed
    then show ?thesis using False unfolding pte_of_def ta by (simp cong: conj_cong)
  qed
qed

text \<open>The result of a walk without creation.\<close>

lemma lookup_cases:
  assumes ok: "pt_ok r s" and r: "pml4_phys pt = r" and u: "user_page (page_no v)"
  obtains (absent) "paging_walk pt v False s = (s, None)" "\<And>e. \<not> pte_of r (words s) (page_no v) e"
  | (slot) t where "paging_walk pt v False s = (s, Some (t, page_no v mod 512))" "table_at r (words s) 1 (page_no v div 512) t"
      "\<And>e. pte_of r (words s) (page_no v) e \<longleftrightarrow> e = words s t (page_no v mod 512) \<and> e AND PTE_PRESENT \<noteq> 0"
proof -
  obtain s' res where w: "paging_walk pt v False s = (s', res)" by fastforce
  note W = paging_walk_effect [OF ok r u w]
  have s: "s' = s" using W(2) by simp
  show ?thesis
  proof (cases res)
    case None
    then have "\<not> pte_of r (words s) (page_no v) e" for e using W(4) by (simp add: pte_of_def)
    then show ?thesis using w s None absent by simp
  next
    case (Some ti)
    obtain t i where ti: "ti = (t, i)" by fastforce
    then have t: "table_at r (words s) 1 (page_no v div 512) t" "i = page_no v mod 512" using W(3) Some s by auto
    show ?thesis by (rule slot [OF _ t(1)]) (use w s Some ti t in \<open>simp_all add: pte_of_at\<close>)
  qed
qed

lemma mmu_resolve_pte:
  assumes "pt_ok r s" "pml4_phys pt = r" "user_page (page_no v)"
  shows "pte_of r (words s) (page_no v) e \<Longrightarrow> mmu_resolve pt v s = pte_get_frame e OR (v AND PAGE_OFFSET_MASK)"
    and "(\<And>e. \<not> pte_of r (words s) (page_no v) e) \<Longrightarrow> mmu_resolve pt v s = 0"
    and "pte_of r (words s) (page_no v) e \<Longrightarrow> mmu_get_flags pt v s = e AND NOT PAGE_FRAME_MASK"
  using assms by (cases rule: lookup_cases; auto simp: mmu_resolve_def mmu_get_flags_def entry_at_def)+

definition map_update :: "u64 \<Rightarrow> vmem \<Rightarrow> nat \<Rightarrow> u64 option \<Rightarrow> vmem \<Rightarrow> bool" where
  "map_update r s q e s' \<longleftrightarrow> pt_ok r s' \<and> kernel_pt s' = kernel_pt s \<and> stays_within r s s' \<and>
     (\<forall>q' e'. pte_of r (words s') q' e' \<longleftrightarrow> (if q' = q then Some e' = e else pte_of r (words s) q' e'))"

lemma mmu_map_effect:
  assumes ok: "pt_ok r s" and r: "pml4_phys pt = r" and u: "user_page (page_no v)"
    and f: "flgs AND PAGE_FRAME_MASK = 0" and m: "mmu_map pt v phys flgs s = (s', res)"
  shows "res = Inr () \<Longrightarrow> map_update r s (page_no v) (Some (pte_make (ALIGN_DOWN phys PAGE_SIZE) (flgs OR PTE_PRESENT))) s' \<and>
      (\<forall>e. \<not> pte_of r (words s) (page_no v) e)"
    and "res = Inl x \<Longrightarrow> walk_keeps r s s' \<and> (x = EEXIST \<and> (\<exists>e. pte_of r (words s) (page_no v) e) \<or>
      x = ENOMEM \<and> (\<forall>e. \<not> pte_of r (words s) (page_no v) e))"
proof -
  let ?v = "ALIGN_DOWN v PAGE_SIZE"
  let ?e = "pte_make (ALIGN_DOWN phys PAGE_SIZE) (flgs OR PTE_PRESENT)"
  obtain s1 o1 where w: "paging_walk pt ?v True s = (s1, o1)" by fastforce
  note W = paging_walk_effect [OF ok r _ w, unfolded page_no_align, OF u]
  have k: "walk_keeps r s s1" by (rule W(1))
  have same: "pte_of r (words s1) q e = pte_of r (words s) q e" for q e using k by (simp add: walk_keeps_def)
  have "(res = Inr () \<longrightarrow> map_update r s (page_no v) (Some ?e) s' \<and> (\<forall>e. \<not> pte_of r (words s) (page_no v) e)) \<and>
    (\<forall>x. res = Inl x \<longrightarrow> walk_keeps r s s' \<and> (x = EEXIST \<and> (\<exists>e. pte_of r (words s) (page_no v) e) \<or>
      x = ENOMEM \<and> (\<forall>e. \<not> pte_of r (words s) (page_no v) e)))"
  proof (cases o1)
    case None
    then show ?thesis using m w k W(4) by (auto simp: mmu_map_def pte_of_def)
  next
    case (Some ti)
    obtain t i where ti: "ti = (t, i)" by fastforce
    have t: "table_at r (words s1) 1 (page_no v div 512) t" "i = page_no v mod 512" using W(3) Some ti by auto
    have here: "pte_of r (words s1) (page_no v) e \<longleftrightarrow> e = words s1 t i \<and> e AND PTE_PRESENT \<noteq> 0" for e
      using t by (simp add: pte_of_at)
    have ok1: "pt_ok r s1" and kp: "kernel_pt s1 = kernel_pt s" using k by (simp_all add: walk_keeps_def)
    show ?thesis
    proof (cases "words s1 t i AND PTE_PRESENT = 0")
      case True
      then have "s' = set_entry (t, i) ?e s1" "res = Inr ()" using m w Some ti by (auto simp: mmu_map_def entry_at_def)
      then show ?thesis
        using leaf_store [OF ok1 t(1), of ?e] pte_make_fields(2) [OF f] True here same kp t(2)
          stays_within_trans [of r s s1 s'] k
        by (auto simp: map_update_def walk_keeps_def)
    next
      case False
      then have "s' = s1" "res = Inl EEXIST" using m w Some ti by (auto simp: mmu_map_def entry_at_def)
      then show ?thesis using k here same False by blast
    qed
  qed
  then show "res = Inr () \<Longrightarrow> map_update r s (page_no v) (Some ?e) s' \<and> (\<forall>e. \<not> pte_of r (words s) (page_no v) e)"
    "res = Inl x \<Longrightarrow> walk_keeps r s s' \<and> (x = EEXIST \<and> (\<exists>e. pte_of r (words s) (page_no v) e) \<or>
      x = ENOMEM \<and> (\<forall>e. \<not> pte_of r (words s) (page_no v) e))" by blast+
qed

lemma mmu_unmap_effect:
  assumes ok: "pt_ok r s" and r: "pml4_phys pt = r" and u: "user_page (page_no v)" and m: "mmu_unmap pt v s = (s', res)"
  shows "res = Inr () \<Longrightarrow> map_update r s (page_no v) None s' \<and> (\<exists>e. pte_of r (words s) (page_no v) e) \<and> hp s' = hp s"
    and "res = Inl x \<Longrightarrow> s' = s \<and> x = ENOENT \<and> (\<forall>e. \<not> pte_of r (words s) (page_no v) e)"
proof -
  have u': "user_page (page_no (ALIGN_DOWN v PAGE_SIZE))" using u by (simp add: page_no_align)
  have "(res = Inr () \<longrightarrow> map_update r s (page_no v) None s' \<and> (\<exists>e. pte_of r (words s) (page_no v) e) \<and> hp s' = hp s) \<and>
    (\<forall>x. res = Inl x \<longrightarrow> s' = s \<and> x = ENOENT \<and> (\<forall>e. \<not> pte_of r (words s) (page_no v) e))"
    using ok r u'
  proof (cases rule: lookup_cases)
    case absent
    then show ?thesis using m by (auto simp: mmu_unmap_def page_no_align)
  next
    case (slot t)
    note sl = slot [unfolded page_no_align]
    show ?thesis
    proof (cases "words s t (page_no v mod 512) AND PTE_PRESENT = 0")
      case True
      then show ?thesis using m sl by (auto simp: mmu_unmap_def entry_at_def)
    next
      case False
      then have "s' = set_entry (t, page_no v mod 512) 0 s" "res = Inr ()"
        using m sl by (auto simp: mmu_unmap_def entry_at_def)
      then show ?thesis using leaf_store [OF ok sl(2), of 0] False sl(3) by (auto simp: map_update_def)
    qed
  qed
  then show "res = Inr () \<Longrightarrow> map_update r s (page_no v) None s' \<and> (\<exists>e. pte_of r (words s) (page_no v) e) \<and> hp s' = hp s"
    "res = Inl x \<Longrightarrow> s' = s \<and> x = ENOENT \<and> (\<forall>e. \<not> pte_of r (words s) (page_no v) e)" by blast+
qed

lemma mmu_set_flags_effect:
  assumes ok: "pt_ok r s" and r: "pml4_phys pt = r" and u: "user_page (page_no v)"
    and f: "flgs AND PAGE_FRAME_MASK = 0" and m: "mmu_set_flags pt v flgs s = (s', res)"
  shows "pte_of r (words s) (page_no v) e \<Longrightarrow>
      map_update r s (page_no v) (Some (pte_make (pte_get_frame e) (flgs OR PTE_PRESENT))) s' \<and> hp s' = hp s \<and> res = Inr ()"
    and "(\<And>e. \<not> pte_of r (words s) (page_no v) e) \<Longrightarrow> s' = s \<and> res = Inl ENOENT"
proof -
  have "(pte_of r (words s) (page_no v) e \<longrightarrow>
      map_update r s (page_no v) (Some (pte_make (pte_get_frame e) (flgs OR PTE_PRESENT))) s' \<and> hp s' = hp s \<and> res = Inr ()) \<and>
    ((\<forall>e. \<not> pte_of r (words s) (page_no v) e) \<longrightarrow> s' = s \<and> res = Inl ENOENT)"
    using ok r u
  proof (cases rule: lookup_cases)
    case absent
    then show ?thesis using m by (auto simp: mmu_set_flags_def)
  next
    case (slot t)
    let ?e = "pte_make (pte_get_frame (words s t (page_no v mod 512))) (flgs OR PTE_PRESENT)"
    show ?thesis
    proof (cases "words s t (page_no v mod 512) AND PTE_PRESENT = 0")
      case True
      then show ?thesis using m slot by (auto simp: mmu_set_flags_def entry_at_def)
    next
      case False
      then have "s' = set_entry (t, page_no v mod 512) ?e s" "res = Inr ()"
        using m slot(1) by (auto simp: mmu_set_flags_def entry_at_def)
      then show ?thesis
        using leaf_store [OF ok slot(2), of ?e] pte_make_fields(2) [OF f] False slot(3) by (auto simp: map_update_def)
    qed
  qed
  then show "pte_of r (words s) (page_no v) e \<Longrightarrow>
      map_update r s (page_no v) (Some (pte_make (pte_get_frame e) (flgs OR PTE_PRESENT))) s' \<and> hp s' = hp s \<and> res = Inr ()"
    "(\<And>e. \<not> pte_of r (words s) (page_no v) e) \<Longrightarrow> s' = s \<and> res = Inl ENOENT" by blast+
qed

section \<open>Separate address spaces\<close>

text \<open>Two roots whose trees share no table of the user half.\<close>

definition apart :: "u64 \<Rightarrow> u64 \<Rightarrow> (u64 \<Rightarrow> nat \<Rightarrow> u64) \<Rightarrow> bool" where
  "apart r r' w \<longleftrightarrow> (\<forall>l p l' p' t. table_at r w l p t \<longrightarrow> \<not> table_at r' w l' p' t)"

lemma table_at_agree:
  assumes "\<And>l p t. table_at r w l p t \<Longrightarrow> w' t = w t"
  shows "table_at r w' l p t \<longleftrightarrow> table_at r w l p t"
proof
  assume "table_at r w' l p t"
  then show "table_at r w l p t"
  proof (induction rule: table_at.induct)
    case (at_child k q u j)
    have eq: "w' u = w u" by (rule assms [OF at_child.IH])
    show ?case unfolding eq by (rule table_at.at_child [OF at_child.IH at_child.hyps(2-4) at_child.hyps(5) [unfolded eq]])
  qed (rule table_at.at_root)
next
  assume "table_at r w l p t"
  then show "table_at r w' l p t"
  proof (induction rule: table_at.induct)
    case (at_child k q u j)
    have eq: "w u = w' u" by (rule assms [OF at_child.hyps(1), symmetric])
    show ?case unfolding eq by (rule table_at.at_child [OF at_child.IH at_child.hyps(2-4) at_child.hyps(5) [unfolded eq]])
  qed (rule table_at.at_root)
qed

lemma stays_within_other:
  assumes st: "stays_within r s s'" and ok: "pt_ok r' s" and ap: "apart r r' (words s)"
  shows "pt_ok r' s'" and "apart r r' (words s')" and "pte_of r' (words s') q e = pte_of r' (words s) q e"
proof -
  have same: "words s' t = words s t" if "table_at r' (words s) l p t" for l p t
  proof -
    have "\<not> frame_free s t" using ok that by (simp add: pt_ok_def)
    moreover have "\<not> table_at r (words s) k q t" for k q using ap that unfolding apart_def by blast
    ultimately have "\<not> within r s t" by (simp add: within_def)
    then show ?thesis using st by (simp add: stays_within_def)
  qed
  have ta: "table_at r' (words s') l p t \<longleftrightarrow> table_at r' (words s) l p t" for l p t
    by (rule table_at_agree) (rule same)
  have "tree_ok r' (words s)" using ok by (simp add: pt_ok_def)
  then have "tree_ok r' (words s')" unfolding tree_ok_def ta using same by metis
  moreover have "pmm_ok (frames (hp s'))" "\<And>t. frame_free s' t \<Longrightarrow> frame_free s t" using st by (simp_all add: stays_within_def)
  ultimately show "pt_ok r' s'" using ok unfolding pt_ok_def ta by blast
  show "pte_of r' (words s') q e = pte_of r' (words s) q e" unfolding pte_of_def ta using same by metis
  show "apart r r' (words s')"
    unfolding apart_def ta
  proof (intro allI impI notI)
    fix l p l' p' t assume t: "table_at r (words s') l p t" "table_at r' (words s) l' p' t"
    have "within r s t" using st t(1) unfolding stays_within_def within_def by blast
    then show False using t(2) ap ok unfolding within_def apart_def pt_ok_def by blast
  qed
qed

end
