(* ===== verification/Paging_Props.thy ===== *)
theory Paging_Props
  imports Paging_Tree
begin

text \<open>
  Properties of the page-table operations, stated over what the hardware and the kernel observe: the
  translation \<^const>\<open>mmu_resolve\<close> and the flags of an address. Then a concrete page table.
\<close>

section \<open>A concrete page table\<close>

text \<open>A root with one table on each level, prepared for the addresses from \<open>0x400000\<close> to \<open>0x600000\<close>,
  and a second root without tables.\<close>

definition ex_words :: "u64 \<Rightarrow> nat \<Rightarrow> u64" where
  "ex_words = (\<lambda>_ _. 0)(0x300000 := (\<lambda>_. 0)(0 := 0x301007), 0x301000 := (\<lambda>_. 0)(0 := 0x302007),
     0x302000 := (\<lambda>_. 0)(2 := 0x303007))"

definition ex_vm :: "heap \<Rightarrow> vmem" where
  "ex_vm h = \<lparr>hp = h\<lparr>frames := pmm_example\<rparr>, words = ex_words, kernel_pt = \<lparr>pt_addr = 0, pml4_phys = 0, pt_refcount = 1\<rparr>\<rparr>"

definition ex_pt :: page_table where
  "ex_pt = \<lparr>pt_addr = 0x8000, pml4_phys = 0x300000, pt_refcount = 1\<rparr>"

lemma ex_tables:
  assumes "table_at 0x300000 ex_words l p t"
  shows "(l, p, t) \<in> {(4, 0, 0x300000), (3, 0, 0x301000), (2, 0, 0x302000), (1, 2, 0x303000)}"
  using assms
proof (induction rule: table_at.induct)
  case (at_child l p t i)
  then show ?case
    by (auto simp: ex_words_def pte_get_frame_def PAGE_FRAME_MASK_def split: if_splits)
qed simp

lemma ex_pt_ok: "pt_ok 0x300000 (ex_vm h)"
proof -
  have "tree_ok 0x300000 ex_words"
    unfolding tree_ok_def
  proof (intro conjI allI impI)
    fix l p l' p' t assume "table_at 0x300000 ex_words l p t" "table_at 0x300000 ex_words l' p' t"
    then show "l = l'" "p = p'" by (auto dest!: ex_tables)
  next
    fix l p t and i :: nat assume "table_at 0x300000 ex_words l p t" "l = 2 \<or> l = 3"
    then show "ex_words t i AND PTE_HUGE = 0" by (auto dest!: ex_tables simp: ex_words_def PTE_HUGE_def)
  qed
  moreover have "unat (phys_to_pfn t) \<notin> {0x200..<0x204}" if "table_at 0x300000 ex_words l p t" for l p t
    using ex_tables [OF that] by (auto simp: phys_to_pfn_def PAGE_SHIFT_def)
  ultimately show ?thesis using pmm_example_facts(2) by (auto simp: pt_ok_def ex_vm_def frame_free_def pmm_example_facts(3))
qed

lemma ex_root_empty:
  assumes "w r = (\<lambda>_. 0)" shows "table_at r w l p t \<longleftrightarrow> l = 4 \<and> p = 0 \<and> t = r"
proof
  assume "table_at r w l p t"
  then show "l = 4 \<and> p = 0 \<and> t = r" by (induction rule: table_at.induct) (auto simp: assms)
qed (auto intro: table_at.at_root)

lemma ex_other_root: "pt_ok 0x310000 (ex_vm h)" "apart 0x300000 0x310000 ex_words"
proof -
  have z: "ex_words 0x310000 = (\<lambda>_. 0)" by (simp add: ex_words_def)
  show "pt_ok 0x310000 (ex_vm h)"
    using pmm_example_facts(2)
    by (auto simp: pt_ok_def tree_ok_def ex_vm_def frame_free_def ex_root_empty [of ex_words, OF z] pmm_example_facts(3) phys_to_pfn_def PAGE_SHIFT_def)
  show "apart 0x300000 0x310000 ex_words"
    unfolding apart_def ex_root_empty [of ex_words, OF z] by (auto dest: ex_tables)
qed

lemma ex_walk:
  "snd (mmu_map ex_pt 0x400000 0x500000 7 (ex_vm h)) = Inr ()"
  "mmu_resolve ex_pt 0x400123 (ex_vm h) = 0"
  by (simp_all add: mmu_map_def mmu_resolve_def paging_walk_def paging_get_entry_def next_table_def entry_at_def
      ALIGN_DOWN_def PAGE_SIZE_def PML4_INDEX_def PDPT_INDEX_def PD_INDEX_def PT_INDEX_def ex_vm_def ex_words_def ex_pt_def
      PTE_PRESENT_def PTE_HUGE_def pte_get_frame_def PAGE_FRAME_MASK_def)

lemma ex_pages:
  "page_no 0x400000 = 0x400" "page_no 0x400123 = 0x400" "page_no 0x7FFF12345678 = 0x7FFF12345" "user_page 0x400" "user_page 0x7FFF12345"
  by (simp_all add: page_no_def user_page_def)

section \<open>Properties\<close>

text \<open>The observation of one page: its translation and flags, in terms of its entry.\<close>

lemma observe_same:
  assumes "pt_ok r s" "pt_ok r s'" "pml4_phys pt = r" "user_page (page_no v)"
    and "\<And>e. pte_of r (words s') (page_no v) e = pte_of r (words s) (page_no v) e"
  shows "mmu_resolve pt v s' = mmu_resolve pt v s"
proof (cases "\<exists>e. pte_of r (words s) (page_no v) e")
  case True
  then obtain e where "pte_of r (words s) (page_no v) e" by blast
  then show ?thesis using mmu_resolve_pte(1) [OF assms(1,3,4)] mmu_resolve_pte(1) [OF assms(2-4)] assms(5) by simp
next
  case False
  then show ?thesis using mmu_resolve_pte(2) [OF assms(1,3,4)] mmu_resolve_pte(2) [OF assms(2-4)] assms(5) by simp
qed

text \<open>C11: Mapping a page: on success exactly the pages of the address change, from unmapped to the given
  frame with the given flags; otherwise no translation changes, and the failure is \<^verbatim>\<open>EEXIST\<close> exactly
  when the page was mapped.\<close>

theorem mmu_map_exact:
  assumes "pt_ok r s" and "pml4_phys pt = r" and "user_page (page_no v)" and "user_page (page_no a)"
    and "flgs AND PAGE_FRAME_MASK = 0" and "mmu_map pt v phys flgs s = (s', res)"
  shows "pt_ok r s' \<and>
    (case res of
       Inr _ \<Rightarrow> mmu_resolve pt v s = 0 \<and>
         mmu_resolve pt a s' = (if page_no a = page_no v
           then pte_get_frame (ALIGN_DOWN phys PAGE_SIZE) OR (a AND PAGE_OFFSET_MASK) else mmu_resolve pt a s) \<and>
         mmu_get_flags pt v s' = flgs OR PTE_PRESENT
     | Inl e \<Rightarrow> mmu_resolve pt a s' = mmu_resolve pt a s \<and>
         (if \<exists>x. pte_of r (words s) (page_no v) x then e = EEXIST else e = ENOMEM))"
proof (cases res)
  case (Inl e)
  then have k: "walk_keeps r s s'" and e: "e = EEXIST \<and> (\<exists>x. pte_of r (words s) (page_no v) x) \<or>
      e = ENOMEM \<and> (\<forall>x. \<not> pte_of r (words s) (page_no v) x)"
    using mmu_map_effect(2) [OF assms(1,2,3,5,6)] by auto
  have "pt_ok r s'" and "\<And>q x. pte_of r (words s') q x = pte_of r (words s) q x" using k by (simp_all add: walk_keeps_def)
  then show ?thesis using observe_same [OF assms(1) _ assms(2,4)] e Inl by auto
next
  case (Inr x)
  let ?e = "pte_make (ALIGN_DOWN phys PAGE_SIZE) (flgs OR PTE_PRESENT)"
  have m: "map_update r s (page_no v) (Some ?e) s'" "\<And>e. \<not> pte_of r (words s) (page_no v) e"
    using mmu_map_effect(1) [OF assms(1,2,3,5,6)] Inr by simp_all
  have ok: "pt_ok r s'" and upd: "\<And>q e. pte_of r (words s') q e \<longleftrightarrow> (if q = page_no v then e = ?e else pte_of r (words s) q e)"
    using m(1) by (simp_all add: map_update_def)
  have z: "mmu_resolve pt v s = 0" using mmu_resolve_pte(2) [OF assms(1,2,3)] m(2) by blast
  have here: "mmu_get_flags pt v s' = flgs OR PTE_PRESENT"
    using mmu_resolve_pte(3) [OF ok assms(2,3), of ?e] upd pte_make_fields(3) [OF assms(5)] by simp
  show ?thesis
  proof (cases "page_no a = page_no v")
    case True
    then have "mmu_resolve pt a s' = pte_get_frame ?e OR (a AND PAGE_OFFSET_MASK)"
      using mmu_resolve_pte(1) [OF ok assms(2,4), of ?e] upd by simp
    then show ?thesis using True z here ok Inr pte_make_fields(1) [OF assms(5)] by simp
  next
    case False
    then show ?thesis using observe_same [OF assms(1) ok assms(2,4)] upd z here ok Inr by simp
  qed
qed

theorem mmu_map_exact_witness:
  "mmu_resolve ex_pt 0x400123 (fst (mmu_map ex_pt 0x400000 0x500000 7 (ex_vm heap_example))) = 0x500123"
proof -
  let ?m = "mmu_map ex_pt 0x400000 0x500000 7 (ex_vm heap_example)"
  have f: "(7 :: u64) AND PAGE_FRAME_MASK = 0" by (simp add: PAGE_FRAME_MASK_def)
  have "?m = (fst ?m, Inr ())" using ex_walk(1) [of heap_example] by (metis prod.collapse)
  from mmu_map_exact [OF ex_pt_ok _ _ _ f this, of "0x400123"] show ?thesis
    by (simp add: ex_pt_def ex_pages pte_get_frame_def PAGE_FRAME_MASK_def ALIGN_DOWN_def PAGE_SIZE_def PAGE_OFFSET_MASK_def)
qed

text \<open>C29: Unmapping undoes mapping: after a successful map the page can be unmapped, and then every
  address translates as before the map.\<close>

theorem mmu_map_unmap_roundtrip:
  assumes "pt_ok r s" and "pml4_phys pt = r" and "user_page (page_no v)" and "user_page (page_no a)"
    and "flgs AND PAGE_FRAME_MASK = 0" and "mmu_map pt v phys flgs s = (s', Inr ())"
  shows "snd (mmu_unmap pt v s') = Inr () \<and> mmu_resolve pt a (fst (mmu_unmap pt v s')) = mmu_resolve pt a s \<and>
    snd (mmu_unmap pt v (fst (mmu_unmap pt v s'))) = Inl ENOENT"
proof -
  let ?e = "pte_make (ALIGN_DOWN phys PAGE_SIZE) (flgs OR PTE_PRESENT)"
  have m: "map_update r s (page_no v) (Some ?e) s'" "\<And>e. \<not> pte_of r (words s) (page_no v) e"
    using mmu_map_effect(1) [OF assms(1,2,3,5,6)] by simp_all
  have ok: "pt_ok r s'" and upd: "\<And>q e. pte_of r (words s') q e \<longleftrightarrow> (if q = page_no v then e = ?e else pte_of r (words s) q e)"
    using m(1) by (simp_all add: map_update_def)
  obtain s2 res where u: "mmu_unmap pt v s' = (s2, res)" by fastforce
  have here: "pte_of r (words s') (page_no v) ?e" by (simp add: upd)
  have res: "res = Inr ()" using mmu_unmap_effect(2) [OF ok assms(2,3) u] here by (cases res) auto
  have m2: "map_update r s' (page_no v) None s2" using mmu_unmap_effect(1) [OF ok assms(2,3) u res] by blast
  have ok2: "pt_ok r s2" and upd2: "\<And>q e. pte_of r (words s2) q e \<longleftrightarrow> q \<noteq> page_no v \<and> pte_of r (words s') q e"
    using m2 by (auto simp: map_update_def)
  have "\<And>q e. pte_of r (words s2) q e = pte_of r (words s) q e" using upd upd2 m(2) by auto
  then have "mmu_resolve pt a s2 = mmu_resolve pt a s" by (intro observe_same [OF assms(1) ok2 assms(2,4)])
  moreover obtain s3 res3 where u3: "mmu_unmap pt v s2 = (s3, res3)" by fastforce
  moreover have "res3 = Inl ENOENT"
    using mmu_unmap_effect [OF ok2 assms(2,3) u3] upd2 by (cases res3) auto
  ultimately show ?thesis using u res by simp
qed

theorem mmu_map_unmap_roundtrip_witness:
  "mmu_resolve ex_pt 0x400123 (fst (mmu_unmap ex_pt 0x400000 (fst (mmu_map ex_pt 0x400000 0x500000 7 (ex_vm heap_example))))) = 0"
proof -
  let ?m = "mmu_map ex_pt 0x400000 0x500000 7 (ex_vm heap_example)"
  have f: "(7 :: u64) AND PAGE_FRAME_MASK = 0" by (simp add: PAGE_FRAME_MASK_def)
  have "?m = (fst ?m, Inr ())" using ex_walk(1) [of heap_example] by (metis prod.collapse)
  from mmu_map_unmap_roundtrip [OF ex_pt_ok _ _ _ f this, of "0x400123"] show ?thesis
    by (simp add: ex_pt_def [THEN arg_cong, of pml4_phys] ex_pages ex_walk(2))
qed

text \<open>C3: Address spaces are isolated: with page tables that share no table of the user half, no
  operation on one of them changes a translation of the other, and they stay separate.\<close>

theorem address_spaces_isolated:
  assumes "pt_ok r s" and "pt_ok r' s" and "apart r r' (words s)" and "pml4_phys pt = r" and "pml4_phys pt' = r'"
    and "user_page (page_no v)" and "user_page (page_no a)" and "flgs AND PAGE_FRAME_MASK = 0"
    and "s' \<in> {fst (mmu_map pt v phys flgs s), fst (mmu_unmap pt v s), fst (mmu_set_flags pt v flgs s)}"
  shows "mmu_resolve pt' a s' = mmu_resolve pt' a s \<and> pt_ok r s' \<and> pt_ok r' s' \<and> apart r r' (words s')"
proof -
  have st: "stays_within r s s' \<and> pt_ok r s'"
  proof -
    have w: "stays_within r s s" using assms(1) by (simp add: stays_within_def pt_ok_def)
    obtain s1 r1 s2 r2 s3 r3 where m: "mmu_map pt v phys flgs s = (s1, r1)" and u: "mmu_unmap pt v s = (s2, r2)"
      and f: "mmu_set_flags pt v flgs s = (s3, r3)" by (metis prod.exhaust)
    have "stays_within r s s1 \<and> pt_ok r s1"
      using mmu_map_effect [OF assms(1,4,6,8) m] by (cases r1) (auto simp: walk_keeps_def map_update_def)
    moreover have "stays_within r s s2 \<and> pt_ok r s2"
      using mmu_unmap_effect [OF assms(1,4,6) u] w assms(1) by (cases r2) (auto simp: map_update_def)
    moreover have "stays_within r s s3 \<and> pt_ok r s3"
      using mmu_set_flags_effect [OF assms(1,4,6,8) f] w assms(1) by (auto simp: map_update_def)
    ultimately show ?thesis using assms(9) m u f by auto
  qed
  note o = stays_within_other [OF conjunct1 [OF st] assms(2,3)]
  show ?thesis using o st observe_same [OF assms(2) o(1) assms(5,7)] by blast
qed

theorem address_spaces_isolated_witness:
  "mmu_resolve \<lparr>pt_addr = 0x9000, pml4_phys = 0x310000, pt_refcount = 1\<rparr> 0x400123
     (fst (mmu_map ex_pt 0x400000 0x500000 7 (ex_vm heap_example))) = 0"
proof -
  let ?pt = "\<lparr>pt_addr = 0x9000, pml4_phys = 0x310000, pt_refcount = 1\<rparr> :: page_table"
  have "mmu_resolve ?pt 0x400123 (ex_vm heap_example) = 0"
    by (simp add: mmu_resolve_def paging_walk_def paging_get_entry_def next_table_def entry_at_def PML4_INDEX_def ex_vm_def
        ex_words_def)
  then show ?thesis
    using address_spaces_isolated [OF ex_pt_ok ex_other_root(1), of heap_example ex_pt ?pt "0x400000" "0x400123" 7 _ "0x500000"]
    by (simp add: ex_pt_def ex_vm_def ex_other_root(2) ex_pages PAGE_FRAME_MASK_def)
qed

end
