(* ===== verification/Vmm.thy ===== *)
theory Vmm
  imports Paging_Tree
begin

text \<open>
  The virtual memory manager \<^verbatim>\<open>mm/vmm.c\<close>: address spaces, their lists of virtual memory areas, mapping and
  unmapping, protection, the program break, page faults and the checks of user pointers. The list of
  areas is the list the \<^verbatim>\<open>next\<close> and \<^verbatim>\<open>prev\<close> fields link; an area and an address space carry the
  address they are allocated at, which is 0 for the static \<^verbatim>\<open>kernel_as\<close>. The area cache is never created,
  so areas come from \<^verbatim>\<open>kzalloc\<close>. Reading a page of a backing file is a parameter: the page's words, the
  rest zero, or an error.
\<close>

section \<open>State\<close>

definition PROT_READ :: u32 where "PROT_READ = 1"
definition PROT_WRITE :: u32 where "PROT_WRITE = 2"
definition PROT_EXEC :: u32 where "PROT_EXEC = 4"
definition MAP_SHARED :: u32 where "MAP_SHARED = 1"
definition MAP_PRIVATE :: u32 where "MAP_PRIVATE = 2"
definition MAP_FIXED :: u32 where "MAP_FIXED = 0x10"
definition MAP_ANONYMOUS :: u32 where "MAP_ANONYMOUS = 0x20"
definition VMA_READ :: u32 where "VMA_READ = 1"
definition VMA_WRITE :: u32 where "VMA_WRITE = 2"
definition VMA_EXEC :: u32 where "VMA_EXEC = 4"
definition VMA_SHARED :: u32 where "VMA_SHARED = 8"
definition VMA_PRIVATE :: u32 where "VMA_PRIVATE = 16"
definition VMA_ANONYMOUS :: u32 where "VMA_ANONYMOUS = 0x80"
definition USER_HEAP_BASE :: u64 where "USER_HEAP_BASE = 0x10000000"
definition USER_SPACE_END :: u64 where "USER_SPACE_END = 0x800000000000"

record vm_area =
  vma_addr :: u64
  vma_start :: u64
  vma_end :: u64
  vma_flags :: u32
  prot :: u32
  vfile :: "nat option"
  offset :: u64

record address_space =
  as_addr :: u64
  pt :: "page_table option"
  vma_list :: "vm_area list"
  vma_count :: u64
  total_vm :: u64
  brk_start :: u64
  brk_end :: u64
  start_code :: u64
  end_code :: u64
  start_data :: u64
  end_data :: u64
  start_stack :: u64
  as_refcount :: u32

text \<open>\<^verbatim>\<open>sizeof(struct vm_area)\<close> and \<^verbatim>\<open>sizeof(struct address_space)\<close>.\<close>

definition sizeof_vm_area :: u64 where "sizeof_vm_area = 80"
definition sizeof_address_space :: u64 where "sizeof_address_space = 136"

text \<open>The page addresses \<open>a, a + 4096, \<dots>\<close> below \<open>b\<close>.\<close>

definition pages_between :: "u64 \<Rightarrow> u64 \<Rightarrow> u64 list" where
  "pages_between a b = map (\<lambda>k. a + of_nat k * PAGE_SIZE) [0..<(unat b - unat a + 4095) div 4096]"

section \<open>Areas\<close>

definition vmm_create_vma :: "u64 \<Rightarrow> u64 \<Rightarrow> u32 \<Rightarrow> vmem \<Rightarrow> vmem \<times> vm_area option" where
  "vmm_create_vma start fin flgs s =
     (let (h, vma) = kzalloc sizeof_vm_area (hp s); s = s\<lparr>hp := h\<rparr>
      in if vma = 0 then (s, None)
         else (s, Some \<lparr>vma_addr = vma, vma_start = start, vma_end = fin, vma_flags = flgs, prot = 0, vfile = None, offset = 0\<rparr>))"

definition vmm_free_vma :: "vm_area \<Rightarrow> vmem \<Rightarrow> vmem" where
  "vmm_free_vma vma s = s\<lparr>hp := kfree (vma_addr vma) (hp s)\<rparr>"

fun find_vma_in :: "vm_area list \<Rightarrow> u64 \<Rightarrow> vm_area option" where
  "find_vma_in [] addr = None"
| "find_vma_in (vma # rest) addr =
     (if vma_start vma \<le> addr \<and> addr < vma_end vma then Some vma
      else if addr < vma_start vma then None
      else find_vma_in rest addr)"

definition vmm_find_vma :: "address_space \<Rightarrow> u64 \<Rightarrow> vm_area option" where
  "vmm_find_vma as addr = find_vma_in (vma_list as) addr"

fun find_intersection_in :: "vm_area list \<Rightarrow> u64 \<Rightarrow> u64 \<Rightarrow> vm_area option" where
  "find_intersection_in [] start fin = None"
| "find_intersection_in (vma # rest) start fin =
     (if vma_start vma < fin \<and> start < vma_end vma then Some vma
      else if fin \<le> vma_start vma then None
      else find_intersection_in rest start fin)"

definition vmm_find_vma_intersection :: "address_space \<Rightarrow> u64 \<Rightarrow> u64 \<Rightarrow> vm_area option" where
  "vmm_find_vma_intersection as start fin = find_intersection_in (vma_list as) start fin"

definition vmm_insert_vma :: "vm_area \<Rightarrow> address_space \<Rightarrow> address_space res" where
  "vmm_insert_vma vma as =
     (let before = takeWhile (\<lambda>c. vma_start c < vma_start vma) (vma_list as);
          after = dropWhile (\<lambda>c. vma_start c < vma_start vma) (vma_list as)
      in if after \<noteq> [] \<and> vma_start (hd after) < vma_end vma then Inl EEXIST
         else if before \<noteq> [] \<and> vma_start vma < vma_end (last before) then Inl EEXIST
         else Inr (as\<lparr>vma_list := before @ vma # after, vma_count := vma_count as + 1,
                      total_vm := total_vm as + (vma_end vma - vma_start vma)\<rparr>))"

definition vmm_remove_vma :: "vm_area \<Rightarrow> address_space \<Rightarrow> address_space" where
  "vmm_remove_vma vma as =
     as\<lparr>vma_list := filter (\<lambda>v. vma_addr v \<noteq> vma_addr vma) (vma_list as), vma_count := vma_count as - 1,
        total_vm := total_vm as - (vma_end vma - vma_start vma)\<rparr>"

definition upd_vma :: "u64 \<Rightarrow> (vm_area \<Rightarrow> vm_area) \<Rightarrow> address_space \<Rightarrow> address_space" where
  "upd_vma addr f as = as\<lparr>vma_list := map (\<lambda>v. if vma_addr v = addr then f v else v) (vma_list as)\<rparr>"

section \<open>Address spaces\<close>

definition vmm_create_address_space :: "vmem \<Rightarrow> vmem \<times> address_space option" where
  "vmm_create_address_space s =
     (let (h, as) = kzalloc sizeof_address_space (hp s); s = s\<lparr>hp := h\<rparr>
      in if as = 0 then (s, None)
         else case mmu_create_page_table s of
             (s, None) \<Rightarrow> (s\<lparr>hp := kfree as (hp s)\<rparr>, None)
           | (s, Some table) \<Rightarrow>
               (s, Some \<lparr>as_addr = as, pt = Some table, vma_list = [], vma_count = 0, total_vm = 0,
                  brk_start = USER_HEAP_BASE, brk_end = USER_HEAP_BASE, start_code = 0, end_code = 0,
                  start_data = 0, end_data = 0, start_stack = 0, as_refcount = 1\<rparr>))"

definition vmm_destroy_address_space :: "address_space \<Rightarrow> vmem \<Rightarrow> vmem" where
  "vmm_destroy_address_space as s =
     (if as_addr as = 0 then s
      else let s = fold vmm_free_vma (vma_list as) s;
               s = mmu_destroy_page_table (pt as) s
           in s\<lparr>hp := kfree (as_addr as) (hp s)\<rparr>)"

definition copy_frame :: "u64 \<Rightarrow> u64 \<Rightarrow> vmem \<Rightarrow> vmem" where
  "copy_frame dst src s = s\<lparr>words := (words s)(dst := words s src)\<rparr>"

text \<open>The eager copy of the pages of one area; \<^const>\<open>False\<close> is running out of frames.\<close>

fun clone_pages :: "page_table \<Rightarrow> page_table \<Rightarrow> u64 list \<Rightarrow> vmem \<Rightarrow> vmem \<times> bool" where
  "clone_pages old new [] s = (s, True)"
| "clone_pages old new (addr # addrs) s =
     (let phys = mmu_resolve old addr s
      in if phys = 0 then clone_pages old new addrs s
         else
           let flgs = mmu_get_flags old addr s;
               (s, new_phys) = get_frame s
           in if new_phys = 0 then (s, False)
              else
                let s = copy_frame new_phys phys s;
                    flgs = flgs AND NOT PTE_COW;
                    (s, _) = mmu_map new addr new_phys flgs s
                in clone_pages old new addrs s)"

fun clone_vmas :: "page_table \<Rightarrow> vm_area list \<Rightarrow> address_space \<Rightarrow> vmem \<Rightarrow> vmem \<times> address_space option" where
  "clone_vmas old [] new_as s = (s, Some new_as)"
| "clone_vmas old (vma # vmas) new_as s =
     (case vmm_create_vma (vma_start vma) (vma_end vma) (vma_flags vma) s of
        (s, None) \<Rightarrow> (vmm_destroy_address_space new_as s, None)
      | (s, Some new_vma) \<Rightarrow>
          (let new_vma = new_vma\<lparr>prot := prot vma, vfile := vfile vma, offset := offset vma\<rparr>;
               new_as = (case vmm_insert_vma new_vma new_as of Inl _ \<Rightarrow> new_as | Inr as \<Rightarrow> as);
               (s, ok) = clone_pages old (the (pt new_as)) (pages_between (vma_start vma) (vma_end vma)) s
           in if ok then clone_vmas old vmas new_as s
              else (vmm_destroy_address_space new_as s, None)))"

definition vmm_clone_address_space :: "address_space \<Rightarrow> vmem \<Rightarrow> vmem \<times> address_space option" where
  "vmm_clone_address_space as s =
     (case vmm_create_address_space s of
        (s, None) \<Rightarrow> (s, None)
      | (s, Some new_as) \<Rightarrow>
          (case clone_vmas (the (pt as)) (vma_list as) new_as s of
             (s, None) \<Rightarrow> (s, None)
           | (s, Some new_as) \<Rightarrow>
               (s, Some (new_as\<lparr>brk_start := brk_start as, brk_end := brk_end as, start_code := start_code as,
                  end_code := end_code as, start_data := start_data as, end_data := end_data as,
                  start_stack := start_stack as\<rparr>))))"

section \<open>Unmapping and mapping\<close>

definition vmm_prot_to_pte_flags :: "u32 \<Rightarrow> u64" where
  "vmm_prot_to_pte_flags prt =
     (PTE_PRESENT OR PTE_USER) OR (if prt AND PROT_WRITE \<noteq> 0 then PTE_WRITABLE else 0)"

text \<open>One page of the loop that unmaps pages and frees their frames.\<close>

definition release_page :: "page_table \<Rightarrow> u64 \<Rightarrow> vmem \<Rightarrow> vmem" where
  "release_page table addr s =
     (let phys = mmu_resolve table addr s
      in if phys = 0 then s else put_frame phys (fst (mmu_unmap table addr s)))"

text \<open>One area of the loop of \<^verbatim>\<open>vmm_munmap\<close>.\<close>

definition unmap_area :: "u64 \<Rightarrow> u64 \<Rightarrow> vm_area \<Rightarrow> address_space \<times> vmem \<Rightarrow> address_space \<times> vmem" where
  "unmap_area start fin vma = (\<lambda>(as, s).
     let unmap_start = max (vma_start vma) start;
         unmap_end = min (vma_end vma) fin;
         s = fold (release_page (the (pt as))) (pages_between unmap_start unmap_end) s
     in if start \<le> vma_start vma \<and> vma_end vma \<le> fin
        then (vmm_remove_vma vma as, vmm_free_vma vma s)
        else if vma_start vma < start \<and> fin < vma_end vma
        then (case vmm_create_vma fin (vma_end vma) (vma_flags vma) s of
                (s, None) \<Rightarrow> (as, s)
              | (s, Some new_vma) \<Rightarrow>
                  let new_vma = new_vma\<lparr>prot := prot vma, vfile := vfile vma,
                        offset := offset vma + (fin - vma_start vma)\<rparr>;
                      as = upd_vma (vma_addr vma) (\<lambda>v. v\<lparr>vma_end := start\<rparr>) as
                  in (case vmm_insert_vma new_vma as of Inl _ \<Rightarrow> as | Inr as \<Rightarrow> as, s))
        else if vma_start vma < start then (upd_vma (vma_addr vma) (\<lambda>v. v\<lparr>vma_end := start\<rparr>) as, s)
        else (upd_vma (vma_addr vma) (\<lambda>v. v\<lparr>offset := offset v + (fin - vma_start v), vma_start := fin\<rparr>) as, s))"

fun unmap_areas :: "u64 \<Rightarrow> u64 \<Rightarrow> vm_area list \<Rightarrow> address_space \<times> vmem \<Rightarrow> address_space \<times> vmem" where
  "unmap_areas start fin [] st = st"
| "unmap_areas start fin (vma # vmas) st =
     (if fin \<le> vma_start vma then st
      else unmap_areas start fin vmas (if start < vma_end vma then unmap_area start fin vma st else st))"

definition vmm_munmap :: "u64 \<Rightarrow> u64 \<Rightarrow> address_space \<Rightarrow> vmem \<Rightarrow> (address_space \<times> vmem) \<times> unit res" where
  "vmm_munmap addr len as s =
     (let start = ALIGN_DOWN addr PAGE_SIZE
      in case zig_range_end_le_cap_ok addr len (- 1) of
           None \<Rightarrow> ((as, s), Inl EINVAL)
         | Some span_end \<Rightarrow>
             (unmap_areas start (ALIGN_UP span_end PAGE_SIZE) (vma_list as) (as, s), Inr ()))"

text \<open>The search for a gap; \<^const>\<open>None\<close> is a search that does not end, \<open>Some None\<close> that there is no room.\<close>

partial_function (option) find_gap :: "address_space \<Rightarrow> u64 \<Rightarrow> u64 \<Rightarrow> u64 option option" where
  "find_gap as start len =
     (case zig_range_end_le_cap_ok start len USER_SPACE_END of
        None \<Rightarrow> Some None
      | Some fin \<Rightarrow>
          (case vmm_find_vma_intersection as start fin of
             None \<Rightarrow> Some (Some start)
           | Some vma \<Rightarrow> find_gap as (ALIGN_UP (vma_end vma) PAGE_SIZE) len))"

definition vma_flags_of :: "u32 \<Rightarrow> u32 \<Rightarrow> u32" where
  "vma_flags_of prt flgs =
     (if prt AND PROT_READ \<noteq> 0 then VMA_READ else 0) OR (if prt AND PROT_WRITE \<noteq> 0 then VMA_WRITE else 0) OR
     (if prt AND PROT_EXEC \<noteq> 0 then VMA_EXEC else 0) OR (if flgs AND MAP_SHARED \<noteq> 0 then VMA_SHARED else 0) OR
     (if flgs AND MAP_PRIVATE \<noteq> 0 then VMA_PRIVATE else 0) OR (if flgs AND MAP_ANONYMOUS \<noteq> 0 then VMA_ANONYMOUS else 0)"

text \<open>Populating a file mapping; \<^const>\<open>False\<close> is a failure, after which the caller unmaps the region.\<close>

fun populate :: "(nat \<Rightarrow> u64 \<Rightarrow> (nat \<Rightarrow> u64) res) \<Rightarrow> page_table \<Rightarrow> u64 \<Rightarrow> nat \<Rightarrow> u64 \<Rightarrow> u64 \<Rightarrow> u64 list \<Rightarrow> vmem \<Rightarrow> vmem \<times> bool" where
  "populate read_page table pte_flags file off start [] s = (s, True)"
| "populate read_page table pte_flags file off start (vaddr # vaddrs) s =
     (let (s, phys) = get_frame s
      in if phys = 0 then (s, False)
         else case mmu_map table vaddr phys pte_flags (zero_frame phys s) of
             (s, Inl _) \<Rightarrow> (put_frame phys s, False)
           | (s, Inr _) \<Rightarrow>
               (case read_page file (off + (vaddr - start)) of
                  Inl _ \<Rightarrow> (s, False)
                | Inr ws \<Rightarrow> populate read_page table pte_flags file off start vaddrs (s\<lparr>words := (words s)(phys := ws)\<rparr>)))"

text \<open>The start of the mapping: the requested address, or the first gap. \<^const>\<open>None\<close> is a search that
  does not end, \<open>Some None\<close> is \<^verbatim>\<open>MAP_FAILED\<close>.\<close>

definition mmap_start :: "address_space \<Rightarrow> u64 \<Rightarrow> u64 \<Rightarrow> u32 \<Rightarrow> u64 option option" where
  "mmap_start as addr len flgs =
     (if flgs AND MAP_FIXED \<noteq> 0
      then Some (if addr AND (PAGE_SIZE - 1) \<noteq> 0 then None else Some (ALIGN_DOWN addr PAGE_SIZE))
      else find_gap as USER_HEAP_BASE len)"

definition vmm_mmap :: "(nat \<Rightarrow> u64 \<Rightarrow> (nat \<Rightarrow> u64) res) \<Rightarrow> u64 \<Rightarrow> u64 \<Rightarrow> u32 \<Rightarrow> u32 \<Rightarrow> nat option \<Rightarrow> 64 word \<Rightarrow>
    address_space \<Rightarrow> vmem \<Rightarrow> ((address_space \<times> vmem) \<times> u64 option) option" where
  "vmm_mmap read_page addr len prt flgs file off as s =
     (if pt as = None \<or> len = 0 then Some ((as, s), None)
      else if flgs AND MAP_ANONYMOUS = 0 \<and> (file = None \<or> off <s 0 \<or> off AND (PAGE_SIZE - 1) \<noteq> 0) then Some ((as, s), None)
      else
        let len = ALIGN_UP len PAGE_SIZE
        in case mmap_start as addr len flgs of
            None \<Rightarrow> None
          | Some None \<Rightarrow> Some ((as, s), None)
          | Some (Some start) \<Rightarrow>
              (case zig_range_end_le_cap_ok start len USER_SPACE_END of
                 None \<Rightarrow> Some ((as, s), None)
               | Some fin \<Rightarrow>
                   let ((as, s), refused) =
                     (if flgs AND MAP_FIXED \<noteq> 0
                      then let ((as, s), r) = vmm_munmap start len as s in ((as, s), r \<noteq> Inr ())
                      else ((as, s), vmm_find_vma_intersection as start fin \<noteq> None))
                   in if refused then Some ((as, s), None)
                      else (case vmm_create_vma start fin (vma_flags_of prt flgs) s of
                          (s, None) \<Rightarrow> Some ((as, s), None)
                        | (s, Some vma) \<Rightarrow>
                            let vma = vma\<lparr>prot := prt, vfile := file, offset := off\<rparr>
                            in (case vmm_insert_vma vma as of
                                 Inl _ \<Rightarrow> Some ((as, vmm_free_vma vma s), None)
                               | Inr as \<Rightarrow>
                                   (case file of
                                      Some f \<Rightarrow>
                                        if flgs AND MAP_ANONYMOUS = 0
                                        then (case populate read_page (the (pt as)) (vmm_prot_to_pte_flags prt) f off start
                                                (pages_between start fin) s of
                                               (s, True) \<Rightarrow> Some ((as, s), Some start)
                                             | (s, False) \<Rightarrow> Some (fst (vmm_munmap start len as s), None))
                                        else Some ((as, s), Some start)
                                    | None \<Rightarrow> Some ((as, s), Some start))))))"

definition vmm_mprotect :: "u64 \<Rightarrow> u64 \<Rightarrow> u32 \<Rightarrow> address_space \<Rightarrow> vmem \<Rightarrow> vmem" where
  "vmm_mprotect addr len prt as s =
     (let start = ALIGN_DOWN addr PAGE_SIZE; fin = ALIGN_UP (addr + len) PAGE_SIZE; flgs = vmm_prot_to_pte_flags prt
      in fold (\<lambda>a s. if mmu_resolve (the (pt as)) a s \<noteq> 0 then fst (mmu_set_flags (the (pt as)) a flgs s) else s)
           (pages_between start fin) s)"

section \<open>The program break\<close>

text \<open>\<^const>\<open>False\<close> is the early return of \<^verbatim>\<open>(void *)-1\<close>, which keeps the pages mapped so far.\<close>

fun brk_grow :: "page_table \<Rightarrow> u64 list \<Rightarrow> vmem \<Rightarrow> vmem \<times> bool" where
  "brk_grow table [] s = (s, True)"
| "brk_grow table (addr # addrs) s =
     (if mmu_resolve table addr s \<noteq> 0 then (s, False)
      else let (s, phys) = get_frame s
        in if phys = 0 then (s, False)
           else case mmu_map table addr phys (PTE_PRESENT OR PTE_WRITABLE OR PTE_USER) s of
               (s, Inl _) \<Rightarrow> (put_frame phys s, False)
             | (s, Inr _) \<Rightarrow> brk_grow table addrs (zero_frame phys s))"

definition vmm_brk :: "u64 \<Rightarrow> address_space \<Rightarrow> vmem \<Rightarrow> (address_space \<times> vmem) \<times> u64" where
  "vmm_brk addr as s =
     (if addr = 0 then ((as, s), brk_end as)
      else
        let new_brk = ALIGN_UP addr PAGE_SIZE
        in if new_brk < brk_start as then ((as, s), - 1)
           else if brk_end as < new_brk
           then (case brk_grow (the (pt as)) (pages_between (brk_end as) new_brk) s of
                   (s, False) \<Rightarrow> ((as, s), - 1)
                 | (s, True) \<Rightarrow> ((as\<lparr>brk_end := new_brk\<rparr>, s), new_brk))
           else
             let s = fold (release_page (the (pt as))) (pages_between new_brk (brk_end as)) s
             in ((as\<lparr>brk_end := new_brk\<rparr>, s), new_brk))"

section \<open>Page faults\<close>

definition vmm_handle_page_fault :: "u64 \<Rightarrow> u32 \<Rightarrow> address_space \<Rightarrow> vmem \<Rightarrow> vmem \<times> unit res" where
  "vmm_handle_page_fault addr error_code as s =
     (case vmm_find_vma as addr of
        None \<Rightarrow> (s, Inl EFAULT)
      | Some vma \<Rightarrow>
          if error_code AND 2 \<noteq> 0 \<and> vma_flags vma AND VMA_WRITE = 0 then (s, Inl EACCES)
          else
            let table = the (pt as);
                page_addr = ALIGN_DOWN addr PAGE_SIZE;
                old_phys = mmu_resolve table page_addr s;
                flgs = vmm_prot_to_pte_flags (prot vma)
            in if old_phys \<noteq> 0 \<and> mmu_get_flags table page_addr s AND PTE_COW \<noteq> 0
               then (let (s, new_phys) = get_frame s
                     in if new_phys = 0 then (s, Inl ENOMEM)
                        else
                          let s = copy_frame new_phys old_phys s;
                              (s, _) = mmu_unmap table page_addr s;
                              (s, _) = mmu_map table page_addr new_phys flgs s
                          in (s, Inr ()))
               else (let (s, phys) = get_frame s
                     in if phys = 0 then (s, Inl ENOMEM)
                        else case mmu_map table page_addr phys flgs (zero_frame phys s) of
                            (s, Inl e) \<Rightarrow> (put_frame phys s, Inl e)
                          | (s, Inr _) \<Rightarrow> (s, Inr ())))"

section \<open>Kernel pages\<close>

definition vmm_alloc_kernel_pages :: "u64 \<Rightarrow> vmem \<Rightarrow> vmem \<times> u64 option" where
  "vmm_alloc_kernel_pages count s =
     (let (f, phys) = pmm_alloc_pages count (frames (hp s)); s = s\<lparr>hp := (hp s)\<lparr>frames := f\<rparr>\<rparr>
      in if phys = 0 then (s, None) else (s, Some (PHYS_TO_VIRT phys)))"

definition vmm_free_kernel_pages :: "u64 \<Rightarrow> u64 \<Rightarrow> vmem \<Rightarrow> vmem" where
  "vmm_free_kernel_pages addr count s =
     s\<lparr>hp := (hp s)\<lparr>frames := pmm_free_pages (VIRT_TO_PHYS addr) count (frames (hp s))\<rparr>\<rparr>"

definition vmm_map_physical :: "u64 \<Rightarrow> u64" where
  "vmm_map_physical phys = PHYS_TO_VIRT phys"

section \<open>User pointers\<close>

text \<open>The loop over the pages of the range, for the address space of the current process.\<close>

fun verify_pages :: "page_table \<Rightarrow> bool \<Rightarrow> u64 list \<Rightarrow> vmem \<Rightarrow> unit res" where
  "verify_pages table write [] s = Inr ()"
| "verify_pages table write (page # pages) s =
     (if mmu_resolve table page s = 0 then Inl EFAULT
      else
        let flgs = mmu_get_flags table page s
        in if flgs AND PTE_PRESENT = 0 \<or> flgs AND PTE_USER = 0 then Inl EFAULT
           else if write \<and> flgs AND PTE_WRITABLE = 0 then Inl EFAULT
           else verify_pages table write pages s)"

definition vmm_verify_user_range :: "u64 \<Rightarrow> u64 \<Rightarrow> bool \<Rightarrow> address_space option \<Rightarrow> vmem \<Rightarrow> unit res" where
  "vmm_verify_user_range addr sz write mm s =
     (if addr = 0 then Inl EFAULT
      else if sz = 0 then Inr ()
      else if zig_user_copy_len_ok sz then Inl EINVAL
      else if USER_SPACE_END \<le> addr then Inl EFAULT
      else case mm of None \<Rightarrow> Inl EFAULT
        | Some as \<Rightarrow>
            (case pt as of None \<Rightarrow> Inl EFAULT
             | Some table \<Rightarrow>
                 (case zig_u64_add_ok addr sz of (fin, ov) \<Rightarrow>
                    if ov \<or> USER_SPACE_END < fin then Inl EFAULT
                    else verify_pages table write (pages_between (ALIGN_DOWN addr PAGE_SIZE) fin) s)))"

definition vmm_verify_user_read :: "u64 \<Rightarrow> u64 \<Rightarrow> address_space option \<Rightarrow> vmem \<Rightarrow> unit res" where
  "vmm_verify_user_read addr sz mm s = vmm_verify_user_range addr sz False mm s"

definition vmm_verify_user_write :: "u64 \<Rightarrow> u64 \<Rightarrow> address_space option \<Rightarrow> vmem \<Rightarrow> unit res" where
  "vmm_verify_user_write addr sz mm s = vmm_verify_user_range addr sz True mm s"

section \<open>Initialisation\<close>

definition vmm_init :: "u64 \<Rightarrow> vmem \<Rightarrow> vmem \<times> address_space" where
  "vmm_init cr3 s =
     (let s = paging_init cr3 s
      in (s, \<lparr>as_addr = 0, pt = Some (kernel_pt s), vma_list = [], vma_count = 0, total_vm = 0, brk_start = 0, brk_end = 0,
              start_code = 0, end_code = 0, start_data = 0, end_data = 0, start_stack = 0, as_refcount = 1\<rparr>))"

end
