(* ===== verification/Vmm_Pages.thy ===== *)
theory Vmm_Pages
  imports Vmm
begin

text \<open>
  The pages of one address space: a mapped page has a frame of its own that is neither free nor a
  page table. Mapping a newly allocated frame and releasing a page keep this, which is what makes the
  frames given back by unmapping safe to reuse.
\<close>

section \<open>Frames of mapped pages\<close>

definition mem_ok :: "u64 \<Rightarrow> vmem \<Rightarrow> bool" where
  "mem_ok r s \<longleftrightarrow> pt_ok r s \<and> pte_get_frame r = r \<and>
     (\<forall>q e. pte_of r (words s) q e \<longrightarrow> pte_get_frame e \<noteq> 0 \<and> \<not> frame_free s (pte_get_frame e) \<and>
        (\<forall>l p. \<not> table_at r (words s) l p (pte_get_frame e))) \<and>
     (\<forall>q q' e e'. pte_of r (words s) q e \<longrightarrow> pte_of r (words s) q' e' \<longrightarrow> pte_get_frame e = pte_get_frame e' \<longrightarrow> q = q')"

lemma mem_ok_pt: "mem_ok r s \<Longrightarrow> pt_ok r s"
  by (simp add: mem_ok_def)

lemma mem_ok_frame:
  assumes "mem_ok r s" and "pte_of r (words s) q e"
  shows "pte_get_frame e \<noteq> 0" and "\<not> frame_free s (pte_get_frame e)" and "\<not> table_at r (words s) l p (pte_get_frame e)"
  using assms unfolding mem_ok_def by blast+

lemma mem_ok_inj:
  "mem_ok r s \<Longrightarrow> pte_of r (words s) q e \<Longrightarrow> pte_of r (words s) q' e' \<Longrightarrow> pte_get_frame e = pte_get_frame e' \<Longrightarrow> q = q'"
  unfolding mem_ok_def by blast

text \<open>The contents of a frame that is no table do not matter for the translation.\<close>

lemma fill_frame:
  assumes "\<And>l p. \<not> table_at r w l p n"
  shows "table_at r (w(n := f)) l p t = table_at r w l p t" and "pte_of r (w(n := f)) q e = pte_of r w q e"
proof -
  have same: "(w(n := f)) t = w t" if "table_at r w l p t" for l p t using that assms by auto
  show ta: "table_at r (w(n := f)) l p t = table_at r w l p t" for l p t by (rule table_at_agree) (rule same)
  show "pte_of r (w(n := f)) q e = pte_of r w q e" unfolding pte_of_def ta using same by metis
qed

lemma fill_frame_pt_ok:
  assumes "pt_ok r s" and "\<And>l p. \<not> table_at r (words s) l p n"
  shows "pt_ok r (s\<lparr>words := (words s)(n := f)\<rparr>)"
proof -
  let ?w = "(words s)(n := f)"
  have ta: "table_at r ?w l p t = table_at r (words s) l p t" for l p t by (rule fill_frame(1) [OF assms(2)])
  have same: "?w t = words s t" if "table_at r (words s) l p t" for l p t using that assms(2) by auto
  have "tree_ok r (words s)" using assms(1) by (simp add: pt_ok_def)
  then have "tree_ok r ?w" unfolding tree_ok_def ta using same by metis
  then show ?thesis using assms(1) by (simp add: pt_ok_def ta frame_free_def)
qed

text \<open>A frame just taken from the allocator.\<close>

definition fresh_frame :: "u64 \<Rightarrow> vmem \<Rightarrow> u64 \<Rightarrow> bool" where
  "fresh_frame r s n \<longleftrightarrow> n \<noteq> 0 \<and> pte_get_frame n = n \<and> \<not> frame_free s n \<and> (\<forall>l p. \<not> table_at r (words s) l p n) \<and>
     (\<forall>q e. pte_of r (words s) q e \<longrightarrow> pte_get_frame e \<noteq> n)"

lemma get_frame_mem:
  assumes ok: "mem_ok r s" and g: "get_frame s = (s', n)"
  shows "mem_ok r s'" and "words s' = words s" and "n \<noteq> 0 \<Longrightarrow> fresh_frame r s' n" and "n = 0 \<Longrightarrow> s' = s"
proof -
  have pm: "pmm_ok (frames (hp s))" using ok by (simp add: mem_ok_def pt_ok_def)
  note gf = get_frame_effect [OF pm g]
  show "words s' = words s" "n = 0 \<Longrightarrow> s' = s" by (rule gf(1), rule gf(4))
  have nf: "\<not> frame_free s' t" if "\<not> frame_free s t" for t using gf(6) that by blast
  have "pt_ok r s'" using ok gf(3) nf unfolding mem_ok_def pt_ok_def gf(1) by blast
  then show "mem_ok r s'" using ok nf unfolding mem_ok_def gf(1) by blast
  show "fresh_frame r s' n" if "n \<noteq> 0"
  proof -
    have n: "frame_free s n" "\<not> frame_free s' n" "pte_get_frame n = n" using gf(5) [OF that] by auto
    have "\<not> table_at r (words s) l p n" for l p using ok n(1) unfolding mem_ok_def pt_ok_def by blast
    moreover have "pte_get_frame e \<noteq> n" if "pte_of r (words s) q e" for q e using mem_ok_frame(2) [OF ok that] n(1) by blast
    ultimately show ?thesis using that n unfolding fresh_frame_def gf(1) by blast
  qed
qed

lemma fill_fresh:
  assumes "mem_ok r s" and "fresh_frame r s n"
  shows "mem_ok r (s\<lparr>words := (words s)(n := f)\<rparr>)" and "fresh_frame r (s\<lparr>words := (words s)(n := f)\<rparr>) n"
    and "pte_of r ((words s)(n := f)) q e = pte_of r (words s) q e"
proof -
  have nt: "\<not> table_at r (words s) l p n" for l p using assms(2) by (simp add: fresh_frame_def)
  note ff = fill_frame [of r "words s" n f, OF nt]
  have fr: "frame_free (s\<lparr>words := (words s)(n := f)\<rparr>) t = frame_free s t" for t by (simp add: frame_free_def)
  show "mem_ok r (s\<lparr>words := (words s)(n := f)\<rparr>)"
    using assms(1) fill_frame_pt_ok [OF mem_ok_pt [OF assms(1)] nt] by (simp add: mem_ok_def ff fr)
  show "fresh_frame r (s\<lparr>words := (words s)(n := f)\<rparr>) n" using assms(2) by (simp add: fresh_frame_def ff fr)
  show "pte_of r ((words s)(n := f)) q e = pte_of r (words s) q e" by (rule ff(2))
qed

lemma map_fresh:
  assumes ok: "mem_ok r s" and n: "fresh_frame r s n" and r: "pml4_phys table = r" and u: "user_page (page_no v)"
    and f: "flgs AND PAGE_FRAME_MASK = 0" and m: "mmu_map table v n flgs s = (s', res)"
  shows "res = Inr () \<Longrightarrow> mem_ok r s' \<and> words s' n = words s n \<and>
      (\<forall>q e. pte_of r (words s') q e \<longleftrightarrow> (if q = page_no v then e = pte_make n (flgs OR PTE_PRESENT) else pte_of r (words s) q e))"
    and "res = Inl x \<Longrightarrow> mem_ok r s' \<and> fresh_frame r s' n \<and> (\<forall>q e. pte_of r (words s') q e = pte_of r (words s) q e) \<and>
      (x = EEXIST \<and> (\<exists>e. pte_of r (words s) (page_no v) e) \<or> x = ENOMEM \<and> (\<forall>e. \<not> pte_of r (words s) (page_no v) e))"
proof -
  have ptok: "pt_ok r s" by (rule mem_ok_pt [OF ok])
  have nn: "n \<noteq> 0" "pte_get_frame n = n" "\<not> frame_free s n" "\<And>l p. \<not> table_at r (words s) l p n"
    "\<And>q e. pte_of r (words s) q e \<Longrightarrow> pte_get_frame e \<noteq> n" using n by (auto simp: fresh_frame_def)
  have wn: "\<not> within r s n" using nn by (simp add: within_def)
  have al: "ALIGN_DOWN n PAGE_SIZE AND PAGE_FRAME_MASK = n"
  proof -
    have "NOT (0xFFF :: u64) AND PAGE_FRAME_MASK = PAGE_FRAME_MASK" by (simp add: PAGE_FRAME_MASK_def)
    then show ?thesis using nn(2) by (simp add: ALIGN_DOWN_def PAGE_SIZE_def pte_get_frame_def and.assoc)
  qed
  have mk: "pte_make (ALIGN_DOWN n PAGE_SIZE) (flgs OR PTE_PRESENT) = pte_make n (flgs OR PTE_PRESENT)"
    unfolding pte_make_def al using nn(2) by (simp add: pte_get_frame_def)
  have keep: "frame_free s' t \<Longrightarrow> frame_free s t" "within r s' t \<Longrightarrow> within r s t" "\<not> within r s t \<Longrightarrow> words s' t = words s t"
    if "stays_within r s s'" for t using that by (simp_all add: stays_within_def)
  have out: "\<not> within r s (pte_get_frame e)" if "pte_of r (words s) q e" for q e
    using mem_ok_frame [OF ok that] by (simp add: within_def)
  show "mem_ok r s' \<and> words s' n = words s n \<and>
      (\<forall>q e. pte_of r (words s') q e \<longleftrightarrow> (if q = page_no v then e = pte_make n (flgs OR PTE_PRESENT) else pte_of r (words s) q e))"
    if "res = Inr ()"
  proof -
    let ?e = "pte_make n (flgs OR PTE_PRESENT)"
    have mu: "map_update r s (page_no v) (Some ?e) s'" using mmu_map_effect(1) [OF ptok r u f m that] unfolding mk by blast
    have upd: "pte_of r (words s') q e \<longleftrightarrow> (if q = page_no v then e = ?e else pte_of r (words s) q e)" for q e
      using mu by (simp add: map_update_def)
    have st: "stays_within r s s'" "pt_ok r s'" using mu by (simp_all add: map_update_def)
    have fe: "pte_get_frame ?e = n" using pte_make_fields(1) [OF f] nn(2) by simp
    have outs: "\<not> within r s' (pte_get_frame e)" if "pte_of r (words s') q e" for q e
      using that wn out keep(2) [OF st(1)] fe unfolding upd by (metis (full_types))
    have "mem_ok r s'"
      unfolding mem_ok_def
    proof (intro conjI allI impI)
      fix q e l p assume e: "pte_of r (words s') q e"
      show "pte_get_frame e \<noteq> 0" using e mem_ok_frame(1) [OF ok] fe nn(1) unfolding upd by (metis (full_types))
      show "\<not> frame_free s' (pte_get_frame e)" "\<not> table_at r (words s') l p (pte_get_frame e)"
        using outs [OF e] by (auto simp: within_def)
    next
      fix q q' e e' assume e: "pte_of r (words s') q e" "pte_of r (words s') q' e'" "pte_get_frame e = pte_get_frame e'"
      show "q = q'" using e mem_ok_inj [OF ok] nn(5) fe unfolding upd by (metis (full_types))
    qed (fact, use ok in \<open>simp add: mem_ok_def\<close>)
    then show ?thesis using keep(3) [OF st(1) wn] upd by blast
  qed
  show "mem_ok r s' \<and> fresh_frame r s' n \<and> (\<forall>q e. pte_of r (words s') q e = pte_of r (words s) q e) \<and>
      (x = EEXIST \<and> (\<exists>e. pte_of r (words s) (page_no v) e) \<or> x = ENOMEM \<and> (\<forall>e. \<not> pte_of r (words s) (page_no v) e))"
    if "res = Inl x"
  proof -
    have k: "walk_keeps r s s'" and x: "x = EEXIST \<and> (\<exists>e. pte_of r (words s) (page_no v) e) \<or>
        x = ENOMEM \<and> (\<forall>e. \<not> pte_of r (words s) (page_no v) e)" using mmu_map_effect(2) [OF ptok r u f m that] by auto
    have st: "stays_within r s s'" "pt_ok r s'" and same: "\<And>q e. pte_of r (words s') q e = pte_of r (words s) q e"
      using k by (simp_all add: walk_keeps_def)
    have outs: "\<not> within r s' (pte_get_frame e)" if "pte_of r (words s) q e" for q e
      using out [OF that] keep(2) [OF st(1)] by blast
    have "pte_get_frame r = r" using ok by (simp add: mem_ok_def)
    then have "mem_ok r s'" using st(2) outs mem_ok_frame(1) [OF ok] mem_ok_inj [OF ok] unfolding mem_ok_def same within_def by blast
    moreover have "fresh_frame r s' n"
      using nn wn keep(2) [OF st(1)] unfolding fresh_frame_def same within_def by blast
    ultimately show ?thesis using same x by blast
  qed
qed

text \<open>Giving a frame back that nothing uses.\<close>

lemma unat_pfn: "unat (phys_to_pfn t) = unat t div 4096"
  using take_bit_nat_eq_self [OF unat_u64_bound [of t]]
  by (simp only: phys_to_pfn_def PAGE_SHIFT_def unsigned_drop_bit_eq) (simp add: drop_bit_eq_div)

lemma pfn_inj:
  assumes "pte_get_frame t = t" and "pte_get_frame n = n" and "unat (phys_to_pfn t) = unat (phys_to_pfn n)"
  shows "t = n"
proof -
  have al: "unat x = 4096 * (unat x div 4096)" if "pte_get_frame x = x" for x
  proof -
    have "pte_get_frame x AND NOT (mask 12) = pte_get_frame x" by (simp only: get_frame_masks and.assoc and.idem)
    then have "x AND NOT (mask 12) = x" by (simp only: that)
    then have "unat x = 2 ^ 12 * (unat x div 2 ^ 12)" using unat_and_not_mask [of x 12] by (simp only:)
    then show ?thesis by (simp only: power_numeral_even) simp
  qed
  have "unat t = 4096 * unat (phys_to_pfn t)" "unat n = 4096 * unat (phys_to_pfn n)"
    unfolding unat_pfn by (rule al [OF assms(1)], rule al [OF assms(2)])
  then have "unat t = unat n" using assms(3) by (simp only:)
  then show ?thesis by (simp only: word_unat_eq_iff)
qed

lemma table_frame: "mem_ok r s \<Longrightarrow> table_at r (words s) l p t \<Longrightarrow> pte_get_frame t = t"
  by (erule table_at.cases) (auto simp: mem_ok_def get_frame_idem)

lemma put_unused:
  assumes ok: "mem_ok r s" and n: "\<And>l p. \<not> table_at r (words s) l p n" "\<And>q e. pte_of r (words s) q e \<Longrightarrow> pte_get_frame e \<noteq> n"
    and z: "n \<noteq> 0" "pte_get_frame n = n"
  shows "mem_ok r (put_frame n s)" and "words (put_frame n s) = words s"
proof -
  show w: "words (put_frame n s) = words s" by (simp add: put_frame_def)
  have pm: "pmm_ok (frames (hp s))" using ok by (simp add: mem_ok_def pt_ok_def)
  have eff: "pmm_inv (frames (hp (put_frame n s)))"
    "free_frames (frames (hp (put_frame n s))) = free_frames (frames (hp s)) \<union> ({unat (phys_to_pfn n)} \<inter> managed (frames (hp s)))"
    using pmm_free_page_effect [of "frames (hp s)" n] pm by (simp_all add: put_frame_def pmm_ok_def)
  have "unat (phys_to_pfn n) \<noteq> 0"
  proof
    assume "unat (phys_to_pfn n) = 0"
    moreover have "pte_get_frame 0 = 0" "unat (phys_to_pfn 0) = 0" by (simp_all add: pte_get_frame_def phys_to_pfn_def)
    ultimately show False using pfn_inj [OF z(2), of 0] z(1) by simp
  qed
  then have pm': "pmm_ok (frames (hp (put_frame n s)))" using eff pm by (simp add: pmm_ok_def)
  have fr: "\<not> frame_free (put_frame n s) t" if "\<not> frame_free s t" "pte_get_frame t = t" "t \<noteq> n" for t
    using that eff(2) pfn_inj [OF that(2) z(2)] by (auto simp: frame_free_def)
  have pt': "pt_ok r (put_frame n s)"
    using pm' mem_ok_pt [OF ok] fr table_frame [OF ok] n(1) unfolding pt_ok_def w by blast
  have r: "pte_get_frame r = r" using ok by (simp add: mem_ok_def)
  show "mem_ok r (put_frame n s)"
    unfolding mem_ok_def w
  proof (intro conjI allI impI)
    fix q e l p assume e: "pte_of r (words s) q e"
    show "pte_get_frame e \<noteq> 0" "\<not> table_at r (words s) l p (pte_get_frame e)" using mem_ok_frame [OF ok e] by blast+
    show "\<not> frame_free (put_frame n s) (pte_get_frame e)" using fr mem_ok_frame(2) [OF ok e] n(2) [OF e] get_frame_idem by blast
  next
    fix q q' e e' assume "pte_of r (words s) q e" "pte_of r (words s) q' e'" "pte_get_frame e = pte_get_frame e'"
    then show "q = q'" by (rule mem_ok_inj [OF ok])
  qed fact+
qed

lemma put_fresh:
  assumes "mem_ok r s" and "fresh_frame r s n"
  shows "mem_ok r (put_frame n s)"
  by (rule put_unused(1) [OF assms(1)]) (use assms(2) in \<open>auto simp: fresh_frame_def\<close>)

text \<open>Releasing a page: afterwards it is unmapped and its frame is free.\<close>

lemma mmu_resolve_mapped:
  assumes "mem_ok r s" and "pml4_phys table = r" and "user_page (page_no v)" and "v AND PAGE_OFFSET_MASK = 0"
  shows "mmu_resolve table v s \<noteq> 0 \<longleftrightarrow> (\<exists>e. pte_of r (words s) (page_no v) e)"
    and "pte_of r (words s) (page_no v) e \<Longrightarrow> mmu_resolve table v s = pte_get_frame e"
  using mmu_resolve_pte [OF mem_ok_pt [OF assms(1)] assms(2,3)] mem_ok_frame(1) [OF assms(1)] assms(4) by force+

lemma release_page_effect:
  assumes ok: "mem_ok r s" and r: "pml4_phys table = r" and u: "user_page (page_no v)" and al: "v AND PAGE_OFFSET_MASK = 0"
  shows "mem_ok r (release_page table v s)"
    and "pte_of r (words (release_page table v s)) q e \<longleftrightarrow> q \<noteq> page_no v \<and> pte_of r (words s) q e"
proof -
  have "mem_ok r (release_page table v s) \<and>
    (\<forall>q e. pte_of r (words (release_page table v s)) q e \<longleftrightarrow> q \<noteq> page_no v \<and> pte_of r (words s) q e)"
  proof (cases "\<exists>e. pte_of r (words s) (page_no v) e")
    case False
    then show ?thesis using ok mmu_resolve_mapped(1) [OF ok r u al] by (auto simp: release_page_def)
  next
    case True
    then obtain e where e: "pte_of r (words s) (page_no v) e" by blast
    let ?n = "pte_get_frame e"
    obtain s1 res where m: "mmu_unmap table v s = (s1, res)" by fastforce
    have "res = Inr ()" using mmu_unmap_effect(2) [OF mem_ok_pt [OF ok] r u m] e by (cases res) auto
    then have mu: "map_update r s (page_no v) None s1" "hp s1 = hp s"
      using mmu_unmap_effect(1) [OF mem_ok_pt [OF ok] r u m] by blast+
    have upd: "pte_of r (words s1) q e \<longleftrightarrow> q \<noteq> page_no v \<and> pte_of r (words s) q e" for q e
      using mu(1) by (auto simp: map_update_def)
    have st: "stays_within r s s1" "pt_ok r s1" using mu(1) by (simp_all add: map_update_def)
    have wi: "within r s1 t \<Longrightarrow> within r s t" for t using st(1) by (simp add: stays_within_def)
    have out: "\<not> within r s1 (pte_get_frame x)" if "pte_of r (words s) q x" for q x
      using mem_ok_frame [OF ok that] wi [of "pte_get_frame x"] unfolding within_def by blast
    have rr: "pte_get_frame r = r" using ok by (simp add: mem_ok_def)
    have ok1: "mem_ok r s1"
      using st(2) rr out mem_ok_frame(1) [OF ok] mem_ok_inj [OF ok] unfolding mem_ok_def upd within_def by blast
    have rel: "release_page table v s = put_frame ?n s1"
      using mmu_resolve_mapped(2) [OF ok r u al e] mem_ok_frame(1) [OF ok e] m by (simp add: release_page_def)
    have "\<not> table_at r (words s1) l p ?n" for l p using out [OF e] by (auto simp: within_def)
    moreover have "pte_get_frame x \<noteq> ?n" if "pte_of r (words s1) q x" for q x
      using that e mem_ok_inj [OF ok] unfolding upd by blast
    ultimately have "mem_ok r (put_frame ?n s1)" "words (put_frame ?n s1) = words s1"
      using put_unused [OF ok1 _ _ mem_ok_frame(1) [OF ok e] get_frame_idem] by blast+
    then show ?thesis unfolding rel using upd by simp
  qed
  then show "mem_ok r (release_page table v s)"
    "pte_of r (words (release_page table v s)) q e \<longleftrightarrow> q \<noteq> page_no v \<and> pte_of r (words s) q e" by blast+
qed

lemma release_pages_effect:
  assumes "mem_ok r s" and "pml4_phys table = r" and "\<forall>v\<in>set vs. user_page (page_no v) \<and> v AND PAGE_OFFSET_MASK = 0"
  shows "mem_ok r (fold (release_page table) vs s) \<and>
    (\<forall>q e. pte_of r (words (fold (release_page table) vs s)) q e \<longleftrightarrow> q \<notin> page_no ` set vs \<and> pte_of r (words s) q e)"
  using assms
proof (induction vs arbitrary: s)
  case (Cons v vs)
  then have v: "user_page (page_no v)" "v AND PAGE_OFFSET_MASK = 0" by simp_all
  note e = release_page_effect [OF Cons.prems(1,2) v]
  show ?case using Cons.IH [OF e(1) Cons.prems(2)] Cons.prems(3) e(2) by auto
qed simp

section \<open>The heap under the address spaces\<close>

text \<open>Once the heap is initialised it has size classes, so \<^verbatim>\<open>kfree\<close> never returns frames.\<close>

definition heap_sane :: "heap \<Rightarrow> bool" where
  "heap_sane h \<longleftrightarrow> (slab_initialized h \<longrightarrow> size_caches h \<noteq> [])"

definition heap_shrinks :: "heap \<Rightarrow> heap \<Rightarrow> bool" where
  "heap_shrinks h h' \<longleftrightarrow> (pmm_ok (frames h) \<longrightarrow> pmm_ok (frames h') \<and> free_frames (frames h') \<subseteq> free_frames (frames h)) \<and>
     slab_initialized h' = slab_initialized h \<and> size_caches h' = size_caches h"

lemma heap_shrinks_refl: "frames h' = frames h \<Longrightarrow> slab_initialized h' = slab_initialized h \<Longrightarrow> size_caches h' = size_caches h \<Longrightarrow>
    heap_shrinks h h'"
  by (simp add: heap_shrinks_def)

lemma alloc_pages_shrinks:
  assumes "pmm_alloc_pages n f = (p, phys)" and "pmm_ok f"
  shows "pmm_ok p \<and> free_frames p \<subseteq> free_frames f"
  using pages.alloc_ok [OF assms(2,1)] pages.alloc_fail [OF assms(2)] pages.alloc_takes [OF assms(2,1)] assms(1)
  by (cases "phys = 0") auto

lemma slab_create_shrinks: "heap_shrinks h (fst (slab_create c h))"
  using alloc_pages_shrinks [of "slab_size (caches h c) div PAGE_SIZE" "frames h"]
  by (auto simp: heap_shrinks_def slab_create_def Let_def upd_cache_def fold_page_meta split: prod.split)

lemma heap_shrinks_step:
  assumes "heap_shrinks h h1" "frames h2 = frames h1" "slab_initialized h2 = slab_initialized h1" "size_caches h2 = size_caches h1"
  shows "heap_shrinks h h2"
  using assms by (simp add: heap_shrinks_def)

lemma kmem_cache_alloc_shrinks: "heap_shrinks h (fst (kmem_cache_alloc c h))"
proof -
  have p: "heap_shrinks h (fst (pick_slab c h))"
  proof (cases "slabs_partial (caches h c) = [] \<and> slabs_free (caches h c) = []")
    case True
    then show ?thesis
      using slab_create_shrinks [of h c]
      by (auto simp: pick_slab_def Let_def upd_cache_def split: prod.split elim: heap_shrinks_step)
  next
    case False
    then show ?thesis by (auto simp: pick_slab_def upd_cache_def Let_def split: list.split intro!: heap_shrinks_refl)
  qed
  have "frames (fst (alloc_in_slab c a h')) = frames h'" "slab_initialized (fst (alloc_in_slab c a h')) = slab_initialized h'"
    "size_caches (fst (alloc_in_slab c a h')) = size_caches h'" for a h'
    by (simp_all add: alloc_in_slab_def slab_alloc_obj_def upd_slab_def upd_cache_def Let_def)
  then show ?thesis
    using p by (auto simp: kmem_cache_alloc_def Let_def split: prod.split elim: heap_shrinks_step)
qed

lemma kmalloc_shrinks: "heap_shrinks h (fst (kmalloc sz h))"
proof -
  have "heap_shrinks h (fst (kmalloc_large sz h))"
    using alloc_pages_shrinks
    by (fastforce simp: kmalloc_large_def heap_shrinks_def Let_def split: prod.split option.split)
  moreover have "heap_shrinks h (fst (early_alloc sz h))"
    by (auto simp: early_alloc_def Let_def intro!: heap_shrinks_refl)
  ultimately show ?thesis
    using kmem_cache_alloc_shrinks by (auto simp: kmalloc_def heap_shrinks_refl split: option.split)
qed

lemma kzalloc_shrinks: "heap_shrinks h (fst (kzalloc sz h))"
  using kmalloc_shrinks [of h sz] by (auto simp: kzalloc_def Let_def split: prod.split elim: heap_shrinks_step)

lemma kfree_frames:
  assumes "heap_sane h"
  shows "frames (kfree p h) = frames h" and "slab_initialized (kfree p h) = slab_initialized h"
    and "size_caches (kfree p h) = size_caches h"
proof -
  have f: "frames (free_in_slab c a obj h) = frames h" "slab_initialized (free_in_slab c a obj h) = slab_initialized h"
    "size_caches (free_in_slab c a obj h) = size_caches h" for c a obj
    by (simp_all add: free_in_slab_def slab_free_obj_def upd_slab_def upd_cache_def Let_def)
  have k: "frames (kmem_cache_free c obj h) = frames h" "slab_initialized (kmem_cache_free c obj h) = slab_initialized h"
    "size_caches (kmem_cache_free c obj h) = size_caches h" for c obj
    using f by (auto simp: kmem_cache_free_def split: option.split)
  show "frames (kfree p h) = frames h" "slab_initialized (kfree p h) = slab_initialized h" "size_caches (kfree p h) = size_caches h"
    using assms k by (auto simp: kfree_def heap_sane_def split: list.split)
qed

definition vm_ok :: "u64 \<Rightarrow> vmem \<Rightarrow> bool" where
  "vm_ok r s \<longleftrightarrow> mem_ok r s \<and> heap_sane (hp s)"

lemma vm_ok_heap:
  assumes "vm_ok r s" and "heap_shrinks (hp s) h"
  shows "vm_ok r (s\<lparr>hp := h\<rparr>)"
proof -
  have f: "pmm_ok (frames h)" "free_frames (frames h) \<subseteq> free_frames (frames (hp s))"
    using assms by (auto simp: vm_ok_def mem_ok_def pt_ok_def heap_shrinks_def)
  have nf: "\<not> frame_free (s\<lparr>hp := h\<rparr>) t" if "\<not> frame_free s t" for t using that f(2) by (auto simp: frame_free_def)
  have "mem_ok r s" using assms(1) by (simp add: vm_ok_def)
  then have "mem_ok r (s\<lparr>hp := h\<rparr>)" using f(1) nf by (simp add: mem_ok_def pt_ok_def)
  moreover have "heap_sane h" using assms by (simp add: vm_ok_def heap_shrinks_def heap_sane_def)
  ultimately show ?thesis by (simp add: vm_ok_def)
qed

lemma vmm_create_vma_ok:
  assumes "vm_ok r s" and "vmm_create_vma st fin fl s = (s', v)"
  shows "vm_ok r s'" and "words s' = words s" and "v = Some w \<Longrightarrow> vma_start w = st \<and> vma_end w = fin \<and> vma_flags w = fl"
  using vm_ok_heap [OF assms(1) kzalloc_shrinks [of "hp s" sizeof_vm_area]] assms(2)
  by (auto simp: vmm_create_vma_def Let_def split: prod.splits if_splits)

lemma vmm_free_vma_ok:
  assumes "vm_ok r s"
  shows "vm_ok r (vmm_free_vma v s)" and "words (vmm_free_vma v s) = words s"
proof -
  have "heap_sane (hp s)" using assms by (simp add: vm_ok_def)
  then have "heap_shrinks (hp s) (kfree (vma_addr v) (hp s))" by (intro heap_shrinks_refl) (simp_all add: kfree_frames)
  then show "vm_ok r (vmm_free_vma v s)" using vm_ok_heap [OF assms] by (simp add: vmm_free_vma_def)
  show "words (vmm_free_vma v s) = words s" by (simp add: vmm_free_vma_def)
qed

lemma walk_no_create: "fst (paging_walk table v False s) = s"
  by (auto simp: paging_walk_def next_table_def Let_def split: option.split)

lemma release_page_heap:
  "slab_initialized (hp (release_page table v s)) = slab_initialized (hp s)"
  "size_caches (hp (release_page table v s)) = size_caches (hp s)"
proof -
  have "hp (fst (mmu_unmap table v s)) = hp s"
    using walk_no_create [of table "ALIGN_DOWN v PAGE_SIZE" s]
    by (auto simp: mmu_unmap_def set_entry_def Let_def split: prod.split option.split)
  then show "slab_initialized (hp (release_page table v s)) = slab_initialized (hp s)"
    "size_caches (hp (release_page table v s)) = size_caches (hp s)"
    by (simp_all add: release_page_def put_frame_def Let_def)
qed

lemma release_pages_ok:
  assumes "vm_ok r s" and "pml4_phys table = r" and "\<forall>v\<in>set vs. user_page (page_no v) \<and> v AND PAGE_OFFSET_MASK = 0"
  shows "vm_ok r (fold (release_page table) vs s)"
    and "pte_of r (words (fold (release_page table) vs s)) q e \<longleftrightarrow> q \<notin> page_no ` set vs \<and> pte_of r (words s) q e"
proof -
  have h: "slab_initialized (hp (fold (release_page table) vs s)) = slab_initialized (hp s) \<and>
      size_caches (hp (fold (release_page table) vs s)) = size_caches (hp s)"
    by (induction vs arbitrary: s) (simp_all add: release_page_heap)
  show "vm_ok r (fold (release_page table) vs s)"
    "pte_of r (words (fold (release_page table) vs s)) q e \<longleftrightarrow> q \<notin> page_no ` set vs \<and> pte_of r (words s) q e"
    using release_pages_effect [OF _ assms(2,3)] assms(1) h by (simp_all add: vm_ok_def heap_sane_def)
qed

end
