(* ===== verification/Vmm_Areas.thy ===== *)
theory Vmm_Areas
  imports Vmm_Pages
begin

text \<open>
  The list of areas of an address space: sorted, pairwise disjoint, page-aligned and inside user
  space. Lookup, the search for an intersection, insertion, the search for a gap and unmapping are
  related to the set of addresses the areas cover.
\<close>

section \<open>Page addresses\<close>

lemma offset_mask_zero: "v AND PAGE_OFFSET_MASK = 0 \<longleftrightarrow> unat v mod 4096 = 0"
proof -
  have "v AND PAGE_OFFSET_MASK = take_bit 12 v" by (simp add: PAGE_OFFSET_MASK_def take_bit_eq_mask mask_eq_exp_minus_1)
  moreover have "take_bit 12 v = 0 \<longleftrightarrow> unat (take_bit 12 v) = 0" by (simp only: word_unat_eq_iff) simp
  moreover have "unat (take_bit 12 v) = take_bit 12 (unat v)" by (rule unsigned_take_bit_eq)
  ultimately show ?thesis by (simp only: take_bit_eq_mod) simp
qed

definition aligned :: "u64 \<Rightarrow> bool" where
  "aligned a \<longleftrightarrow> unat a mod 4096 = 0"

lemma unat_USER_SPACE_END: "unat USER_SPACE_END = 2 ^ 47"
  by (simp add: USER_SPACE_END_def)

lemma pages_between_user:
  assumes a: "aligned a" and b: "unat b \<le> 2 ^ 47"
  shows "\<forall>v\<in>set (pages_between a b). user_page (page_no v) \<and> v AND PAGE_OFFSET_MASK = 0"
    and "page_no ` set (pages_between a b) = {unat a div 4096..<(unat b + 4095) div 4096}"
    and "map page_no (pages_between a b) = [unat a div 4096..<(unat b + 4095) div 4096]"
proof -
  let ?n = "(unat b - unat a + 4095) div 4096"
  have v: "unat (a + of_nat k * PAGE_SIZE) = unat a + 4096 * k" "unat a + 4096 * k < 2 ^ 47" if "k < ?n" for k
  proof -
    have "4096 * k < unat b - unat a" using that by (simp add: less_eq_div_iff_mult_less_eq)
    then show lt: "unat a + 4096 * k < 2 ^ 47" using b by linarith
    then have "k < 2 ^ 64" by simp
    then show "unat (a + of_nat k * PAGE_SIZE) = unat a + 4096 * k"
      using lt by (simp add: PAGE_SIZE_def unat_word_ariths)
  qed
  have p: "page_no (a + of_nat k * PAGE_SIZE) = unat a div 4096 + k" "user_page (unat a div 4096 + k)"
    "(a + of_nat k * PAGE_SIZE) AND PAGE_OFFSET_MASK = 0" if "k < ?n" for k
  proof -
    have d: "(unat a + 4096 * k) div 4096 = unat a div 4096 + k" by simp
    have lt: "unat a div 4096 + k < 2 ^ 35" using v(2) [OF that] unfolding d [symmetric] by (simp only: div_less_iff_less_mult) simp
    then show "user_page (unat a div 4096 + k)" by (simp add: user_page_def)
    show "page_no (a + of_nat k * PAGE_SIZE) = unat a div 4096 + k"
      unfolding page_no_def v(1) [OF that] d using lt by simp
    show "(a + of_nat k * PAGE_SIZE) AND PAGE_OFFSET_MASK = 0"
      unfolding offset_mask_zero v(1) [OF that] using a by (simp add: aligned_def)
  qed
  show "\<forall>v\<in>set (pages_between a b). user_page (page_no v) \<and> v AND PAGE_OFFSET_MASK = 0"
    using p by (auto simp: pages_between_def)
  have "map page_no (pages_between a b) = map (\<lambda>k. k + unat a div 4096) [0..<?n]"
    unfolding pages_between_def using p(1) by (simp add: add.commute)
  also have "\<dots> = [unat a div 4096..<unat a div 4096 + ?n]" by (simp only: map_add_upt) (simp add: add.commute)
  also have "unat a div 4096 + ?n = max (unat a div 4096) ((unat b + 4095) div 4096)"
  proof -
    obtain m where m: "unat a = 4096 * m" using a by (auto simp: aligned_def dvd_def mod_eq_0_iff_dvd)
    show ?thesis
    proof (cases "unat a \<le> unat b")
      case True
      then obtain d where d: "unat b = 4096 * m + d" using m le_Suc_ex by auto
      then show ?thesis using m by simp
    next
      case False
      then have "(unat b + 4095) div 4096 < Suc m" using m by (simp only: div_less_iff_less_mult) simp
      then have "(unat b + 4095) div 4096 \<le> m" by simp
      then show ?thesis using m False by simp
    qed
  qed
  finally show m: "map page_no (pages_between a b) = [unat a div 4096..<(unat b + 4095) div 4096]"
    by (simp add: max_def split: if_splits)
  show "page_no ` set (pages_between a b) = {unat a div 4096..<(unat b + 4095) div 4096}"
    using arg_cong [OF m, of set] by simp
qed

section \<open>Areas\<close>

definition area_ok :: "vm_area \<Rightarrow> bool" where
  "area_ok v \<longleftrightarrow> vma_start v < vma_end v \<and> vma_end v \<le> USER_SPACE_END \<and> aligned (vma_start v) \<and> aligned (vma_end v)"

definition areas_ok :: "vm_area list \<Rightarrow> bool" where
  "areas_ok vs \<longleftrightarrow> (\<forall>v\<in>set vs. area_ok v) \<and> sorted_wrt (\<lambda>v w. vma_end v \<le> vma_start w) vs \<and> distinct (map vma_addr vs)"

definition as_ok :: "address_space \<Rightarrow> bool" where
  "as_ok as \<longleftrightarrow> areas_ok (vma_list as) \<and> vma_count as = of_nat (length (vma_list as))"

definition inside :: "vm_area \<Rightarrow> u64 \<Rightarrow> bool" where
  "inside v a \<longleftrightarrow> vma_start v \<le> a \<and> a < vma_end v"

definition covered :: "vm_area list \<Rightarrow> u64 set" where
  "covered vs = {a. \<exists>v\<in>set vs. inside v a}"

lemma covered_simps [simp]:
  "covered [] = {}" "covered (v # vs) = {a. inside v a} \<union> covered vs" "covered (vs @ ws) = covered vs \<union> covered ws"
  by (auto simp: covered_def)

lemma areas_ok_Cons:
  "areas_ok (v # vs) \<longleftrightarrow> area_ok v \<and> (\<forall>w\<in>set vs. vma_end v \<le> vma_start w) \<and> vma_addr v \<notin> vma_addr ` set vs \<and> areas_ok vs"
  by (simp add: areas_ok_def conj_ac)

lemma area_bounds: "area_ok v \<Longrightarrow> vma_start v < vma_end v" "area_ok v \<Longrightarrow> unat (vma_end v) \<le> 2 ^ 47"
  using unat_USER_SPACE_END by (auto simp: area_ok_def word_le_nat_alt)

lemma find_vma_in_exact:
  assumes "areas_ok vs"
  shows "find_vma_in vs a = Some v \<longleftrightarrow> v \<in> set vs \<and> inside v a"
  using assms
proof (induction vs)
  case (Cons w vs)
  have later: "\<not> inside x a" if "x \<in> set vs" "a < vma_end w" for x
    using Cons.prems that by (auto simp: areas_ok_Cons inside_def)
  have "\<not> inside x a" if "x \<in> set vs" "a < vma_start w" for x
    using later [OF that(1)] less_trans [OF that(2)] Cons.prems by (simp add: areas_ok_Cons area_ok_def)
  then show ?case using Cons later by (auto simp: inside_def areas_ok_Cons)
qed simp

lemma find_intersection_exact:
  assumes "areas_ok vs"
  shows "find_intersection_in vs start fin = Some v \<Longrightarrow> v \<in> set vs \<and> vma_start v < fin \<and> start < vma_end v"
    and "find_intersection_in vs start fin = None \<Longrightarrow> w \<in> set vs \<Longrightarrow> fin \<le> vma_start w \<or> vma_end w \<le> start"
proof -
  have "(find_intersection_in vs start fin = Some v \<longrightarrow> v \<in> set vs \<and> vma_start v < fin \<and> start < vma_end v) \<and>
    (find_intersection_in vs start fin = None \<longrightarrow> (\<forall>w\<in>set vs. fin \<le> vma_start w \<or> vma_end w \<le> start))"
    using assms
  proof (induction vs)
    case (Cons w vs)
    have "fin \<le> vma_start x" if "x \<in> set vs" "fin \<le> vma_start w" for x
      using that Cons.prems by (force simp: areas_ok_Cons area_ok_def)
    then show ?case using Cons by (auto simp: areas_ok_Cons)
  qed simp
  then show "find_intersection_in vs start fin = Some v \<Longrightarrow> v \<in> set vs \<and> vma_start v < fin \<and> start < vma_end v"
    "find_intersection_in vs start fin = None \<Longrightarrow> w \<in> set vs \<Longrightarrow> fin \<le> vma_start w \<or> vma_end w \<le> start" by blast+
qed

section \<open>Insertion\<close>

text \<open>The two halves of a sorted list around the start of a new area.\<close>

lemma split_at_start:
  assumes "areas_ok vs" "area_ok v"
  defines "b \<equiv> takeWhile (\<lambda>c. vma_start c < vma_start v) vs" and "e \<equiv> dropWhile (\<lambda>c. vma_start c < vma_start v) vs"
  shows "\<forall>w\<in>set b. vma_start w < vma_start v" and "\<forall>w\<in>set e. vma_start v \<le> vma_start w"
    and "b \<noteq> [] \<Longrightarrow> w \<in> set b \<Longrightarrow> vma_end w \<le> vma_end (last b)"
    and "e \<noteq> [] \<Longrightarrow> w \<in> set e \<Longrightarrow> vma_start (hd e) \<le> vma_start w"
proof -
  have vs: "vs = b @ e" by (simp add: b_def e_def)
  have srt: "sorted_wrt (\<lambda>v w. vma_end v \<le> vma_start w) (b @ e)" and ok: "\<And>w. w \<in> set (b @ e) \<Longrightarrow> area_ok w"
    using assms(1) vs by (auto simp: areas_ok_def)
  show "\<forall>w\<in>set b. vma_start w < vma_start v" by (auto simp: b_def dest: set_takeWhileD)
  show last: "vma_end w \<le> vma_end (last b)" if "b \<noteq> []" "w \<in> set b" for w
  proof (cases b rule: rev_cases)
    case (snoc c x)
    then have "w = x \<or> vma_end w \<le> vma_start x" using srt that(2) by (auto simp: sorted_wrt_append)
    moreover have "vma_start x < vma_end x" using ok [of x] snoc by (simp add: area_ok_def)
    ultimately show ?thesis using snoc by (auto intro: order_trans less_imp_le)
  qed (use that in simp)
  show hd: "vma_start (hd e) \<le> vma_start w" if "e \<noteq> []" "w \<in> set e" for w
    using that srt ok [of "hd e"] by (cases e) (auto simp: sorted_wrt_append area_ok_def)
  show "\<forall>w\<in>set e. vma_start v \<le> vma_start w"
  proof
    fix w assume w: "w \<in> set e"
    then have "e \<noteq> []" by auto
    then have "\<not> vma_start (hd e) < vma_start v" unfolding e_def by (rule hd_dropWhile)
    then show "vma_start v \<le> vma_start w" using hd [OF \<open>e \<noteq> []\<close> w] by simp
  qed
qed

lemma vmm_insert_vma_exact:
  assumes ok: "as_ok as" and v: "area_ok v"
  shows "(\<forall>w\<in>set (vma_list as). vma_end v \<le> vma_start w \<or> vma_end w \<le> vma_start v) \<Longrightarrow>
      (\<exists>as'. vmm_insert_vma v as = Inr as' \<and> (distinct (map vma_addr (vma_list as')) \<longrightarrow> as_ok as') \<and>
         (vma_addr v \<notin> vma_addr ` set (vma_list as) \<longrightarrow> as_ok as') \<and> set (vma_list as') = insert v (set (vma_list as)) \<and>
         covered (vma_list as') = covered (vma_list as) \<union> {a. inside v a} \<and>
         pt as' = pt as \<and> total_vm as' = total_vm as + (vma_end v - vma_start v))"
    and "\<not> (\<forall>w\<in>set (vma_list as). vma_end v \<le> vma_start w \<or> vma_end w \<le> vma_start v) \<Longrightarrow> vmm_insert_vma v as = Inl EEXIST"
proof -
  let ?P = "\<lambda>c. vma_start c < vma_start v"
  define b where "b = takeWhile ?P (vma_list as)"
  define e where "e = dropWhile ?P (vma_list as)"
  have vs: "vma_list as = b @ e" by (simp add: b_def e_def)
  have areas: "areas_ok (vma_list as)" using ok by (simp add: as_ok_def)
  note s = split_at_start [OF areas v, folded b_def e_def]
  have okw: "area_ok w" if "w \<in> set (vma_list as)" for w using areas that by (simp add: areas_ok_def)
  have vv: "vma_start v < vma_end v" using v by (simp add: area_ok_def)
  have clash: "\<not> (\<forall>w\<in>set (vma_list as). vma_end v \<le> vma_start w \<or> vma_end w \<le> vma_start v)"
    if "e \<noteq> [] \<and> vma_start (hd e) < vma_end v \<or> b \<noteq> [] \<and> vma_start v < vma_end (last b)"
    using that
  proof
    assume h: "e \<noteq> [] \<and> vma_start (hd e) < vma_end v"
    then have "hd e \<in> set (vma_list as)" "vma_start v \<le> vma_start (hd e)" using s(2) by (auto simp: vs)
    then show ?thesis using h okw [of "hd e"] by (auto simp: area_ok_def intro!: bexI [of _ "hd e"])
  next
    assume h: "b \<noteq> [] \<and> vma_start v < vma_end (last b)"
    then have "last b \<in> set (vma_list as)" "vma_start (last b) < vma_start v" using s(1) by (auto simp: vs)
    then show ?thesis using h vv by (auto intro!: bexI [of _ "last b"])
  qed
  have free: "\<forall>w\<in>set (vma_list as). vma_end v \<le> vma_start w \<or> vma_end w \<le> vma_start v"
    if "\<not> (e \<noteq> [] \<and> vma_start (hd e) < vma_end v)" "\<not> (b \<noteq> [] \<and> vma_start v < vma_end (last b))"
  proof
    fix w assume "w \<in> set (vma_list as)"
    then consider "w \<in> set b" | "w \<in> set e" by (auto simp: vs)
    then show "vma_end v \<le> vma_start w \<or> vma_end w \<le> vma_start v"
    proof cases
      case 1
      then have "b \<noteq> []" by auto
      then have "vma_end w \<le> vma_end (last b)" "vma_end (last b) \<le> vma_start v" using s(3) 1 that(2) by auto
      then show ?thesis using order_trans by blast
    next
      case 2
      then have "e \<noteq> []" by auto
      then have "vma_start (hd e) \<le> vma_start w" "vma_end v \<le> vma_start (hd e)" using s(4) 2 that(1) by auto
      then show ?thesis using order_trans by blast
    qed
  qed
  show "vmm_insert_vma v as = Inl EEXIST"
    if "\<not> (\<forall>w\<in>set (vma_list as). vma_end v \<le> vma_start w \<or> vma_end w \<le> vma_start v)"
    using that free unfolding vmm_insert_vma_def Let_def b_def [symmetric] e_def [symmetric] by (auto split: if_splits)
  show "\<exists>as'. vmm_insert_vma v as = Inr as' \<and> (distinct (map vma_addr (vma_list as')) \<longrightarrow> as_ok as') \<and>
      (vma_addr v \<notin> vma_addr ` set (vma_list as) \<longrightarrow> as_ok as') \<and> set (vma_list as') = insert v (set (vma_list as)) \<and>
      covered (vma_list as') = covered (vma_list as) \<union> {a. inside v a} \<and>
      pt as' = pt as \<and> total_vm as' = total_vm as + (vma_end v - vma_start v)"
    if dj: "\<forall>w\<in>set (vma_list as). vma_end v \<le> vma_start w \<or> vma_end w \<le> vma_start v"
  proof -
    let ?as = "as\<lparr>vma_list := b @ v # e, vma_count := vma_count as + 1, total_vm := total_vm as + (vma_end v - vma_start v)\<rparr>"
    have r: "vmm_insert_vma v as = Inr ?as"
      using clash dj unfolding vmm_insert_vma_def Let_def b_def [symmetric] e_def [symmetric] by auto
    have "vma_end w \<le> vma_start v" if "w \<in> set b" for w
      using dj that s(1) vv by (force simp: vs)
    moreover have "vma_end v \<le> vma_start w" if "w \<in> set e" for w
      using dj that s(2) okw [of w] by (force simp: vs area_ok_def)
    ultimately have "distinct (map vma_addr (b @ v # e)) \<longrightarrow> areas_ok (b @ v # e)"
      using areas v unfolding vs areas_ok_def by (auto simp: sorted_wrt_append)
    then have "distinct (map vma_addr (b @ v # e)) \<longrightarrow> as_ok ?as" using ok by (simp add: as_ok_def vs)
    moreover have "distinct (map vma_addr (b @ v # e))" if "vma_addr v \<notin> vma_addr ` set (vma_list as)"
      using that areas unfolding vs areas_ok_def by auto
    ultimately show ?thesis using r by (auto simp: vs)
  qed
qed

section \<open>The search for a gap\<close>

lemma unat_ALIGN_UP:
  assumes "unat x + 4095 < 2 ^ 64"
  shows "unat (ALIGN_UP x PAGE_SIZE) = 4096 * ((unat x + 4095) div 4096)"
proof -
  have "ALIGN_UP x PAGE_SIZE = (x + 4095) AND NOT (mask 12)"
    by (simp add: ALIGN_UP_def PAGE_SIZE_def mask_eq_exp_minus_1)
  moreover have "unat (x + 4095) = unat x + 4095" using assms by (simp add: unat_word_ariths)
  ultimately show ?thesis by (simp only: unat_and_not_mask) simp
qed

lemma unat_ALIGN_DOWN: "unat (ALIGN_DOWN x PAGE_SIZE) = 4096 * (unat x div 4096)"
proof -
  have "ALIGN_DOWN x PAGE_SIZE = x AND NOT (mask 12)"
    by (simp add: ALIGN_DOWN_def PAGE_SIZE_def mask_eq_exp_minus_1)
  then show ?thesis by (simp only: unat_and_not_mask) simp
qed

lemma ALIGN_UP_aligned:
  assumes "aligned x" and "unat x \<le> 2 ^ 47"
  shows "ALIGN_UP x PAGE_SIZE = x"
proof -
  obtain m where m: "unat x = 4096 * m" using assms(1) by (auto simp: aligned_def dvd_def mod_eq_0_iff_dvd)
  have "unat (ALIGN_UP x PAGE_SIZE) = unat x"
    using assms(2) by (subst unat_ALIGN_UP) (simp_all add: m)
  then show ?thesis by (simp only: word_unat_eq_iff)
qed

lemma range_end_ok:
  assumes "zig_range_end_le_cap_ok start len USER_SPACE_END = Some fin"
  shows "unat fin = unat start + unat len" and "unat fin \<le> 2 ^ 47"
proof -
  have "unat start + unat len < 2 ^ 64" "fin = start + len" "fin \<le> USER_SPACE_END"
    using assms by (auto simp: zig_range_end_le_cap_ok_def zig_u64_add_ok_def split: if_splits)
  then show "unat fin = unat start + unat len" "unat fin \<le> 2 ^ 47"
    using unat_USER_SPACE_END by (simp_all add: unat_word_ariths word_le_nat_alt)
qed

lemma range_end_none:
  assumes "zig_range_end_le_cap_ok start len USER_SPACE_END = None"
  shows "2 ^ 47 < unat start + unat len"
proof (cases "2 ^ 64 \<le> unat start + unat len")
  case False
  then have "USER_SPACE_END < start + len"
    using assms by (auto simp: zig_range_end_le_cap_ok_def zig_u64_add_ok_def split: if_splits)
  then show ?thesis using False unat_USER_SPACE_END by (simp add: unat_word_ariths word_less_nat_alt)
qed simp

text \<open>A placement of \<open>len\<close> bytes at \<open>g\<close> that meets no area.\<close>

definition fits :: "vm_area list \<Rightarrow> u64 \<Rightarrow> u64 \<Rightarrow> bool" where
  "fits vs len g \<longleftrightarrow> unat g + unat len \<le> 2 ^ 47 \<and>
     (\<forall>v\<in>set vs. unat g + unat len \<le> unat (vma_start v) \<or> unat (vma_end v) \<le> unat g)"

lemma find_gap_first_fit:
  assumes "areas_ok (vma_list as)" and "aligned start"
  shows "\<exists>r. find_gap as start len = Some r \<and>
    (case r of None \<Rightarrow> \<forall>g. start \<le> g \<longrightarrow> \<not> fits (vma_list as) len g
     | Some g \<Rightarrow> aligned g \<and> start \<le> g \<and> fits (vma_list as) len g \<and> (\<forall>h. start \<le> h \<longrightarrow> h < g \<longrightarrow> \<not> fits (vma_list as) len h))"
  using assms
proof (induction "2 ^ 48 - unat start" arbitrary: start rule: less_induct)
  case less
  let ?vs = "vma_list as"
  show ?case
  proof (cases "zig_range_end_le_cap_ok start len USER_SPACE_END")
    case None
    have "\<not> fits ?vs len g" if "start \<le> g" for g
      using range_end_none [OF None] that by (simp add: fits_def word_le_nat_alt)
    then show ?thesis using None by (subst find_gap.simps) auto
  next
    case (Some fin)
    note fin = range_end_ok [OF Some]
    show ?thesis
    proof (cases "find_intersection_in ?vs start fin")
      case None
      have "fits ?vs len start"
        using fin find_intersection_exact(2) [OF less.prems(1) None] by (auto simp: fits_def word_le_nat_alt)
      then show ?thesis
        using Some None less.prems(2) by (subst find_gap.simps) (auto simp: vmm_find_vma_intersection_def)
    next
      case (Some v)
      have v: "v \<in> set ?vs" "vma_start v < fin" "start < vma_end v" using find_intersection_exact(1) [OF less.prems(1) Some] by auto
      then have "area_ok v" using less.prems(1) by (simp add: areas_ok_def)
      then have e: "aligned (vma_end v)" "unat (vma_end v) \<le> 2 ^ 47" using area_bounds(2) by (auto simp: area_ok_def)
      have step: "find_gap as start len = find_gap as (vma_end v) len"
        using \<open>zig_range_end_le_cap_ok start len USER_SPACE_END = Some fin\<close> Some ALIGN_UP_aligned [OF e]
        by (subst find_gap.simps) (simp add: vmm_find_vma_intersection_def)
      have "unat start < unat (vma_end v)" using v(3) by (simp add: word_less_nat_alt)
      then have "2 ^ 48 - unat (vma_end v) < 2 ^ 48 - unat start" using e(2) by simp
      from less.hyps [OF this less.prems(1) e(1)] obtain r where r: "find_gap as (vma_end v) len = Some r"
        "case r of None \<Rightarrow> \<forall>g. vma_end v \<le> g \<longrightarrow> \<not> fits ?vs len g
         | Some g \<Rightarrow> aligned g \<and> vma_end v \<le> g \<and> fits ?vs len g \<and> (\<forall>h. vma_end v \<le> h \<longrightarrow> h < g \<longrightarrow> \<not> fits ?vs len h)" by blast
      have blocked: "\<not> fits ?vs len g" if "start \<le> g" "g < vma_end v" for g
        using that v fin by (fastforce simp: fits_def word_le_nat_alt word_less_nat_alt)
      have all: "\<not> fits ?vs len g" if "start \<le> g" "vma_end v \<le> g \<longrightarrow> \<not> fits ?vs len g" for g
        using blocked [OF that(1)] that(2) by (cases "g < vma_end v") auto
      show ?thesis
        unfolding step r(1) using r(2) all order_trans [OF less_imp_le [OF v(3)]] by (cases r) auto
    qed
  qed
qed

section \<open>Unmapping\<close>

definition page_addr :: "nat \<Rightarrow> u64" where
  "page_addr q = of_nat (q * 4096)"

lemma unat_page_addr: "user_page q \<Longrightarrow> unat (page_addr q) = 4096 * q"
  unfolding page_addr_def by (subst unat_word_of_nat) (simp_all add: user_page_def)

lemma page_in_range:
  assumes "aligned lo" "aligned hi" "user_page q"
  shows "q \<in> {unat lo div 4096..<(unat hi + 4095) div 4096} \<longleftrightarrow> lo \<le> page_addr q \<and> page_addr q < hi"
proof -
  obtain m n where mn: "unat lo = 4096 * m" "unat hi = 4096 * n" using assms(1,2) by (auto simp: aligned_def dvd_def mod_eq_0_iff_dvd)
  then show ?thesis using unat_page_addr [OF assms(3)] by (simp add: word_le_nat_alt word_less_nat_alt)
qed

definition span :: "u64 \<Rightarrow> u64 \<Rightarrow> u64 set" where
  "span start fin = {a. start \<le> a \<and> a < fin}"

text \<open>Releasing the pages of an area that are in the range.\<close>

lemma release_area:
  assumes ok: "vm_ok r s" and r: "pml4_phys table = r" and v: "area_ok v" and al: "aligned start" "aligned fin"
  defines "s' \<equiv> fold (release_page table) (pages_between (max (vma_start v) start) (min (vma_end v) fin)) s"
  shows "vm_ok r s'" and "user_page q \<Longrightarrow>
    pte_of r (words s') q e \<longleftrightarrow> \<not> (inside v (page_addr q) \<and> page_addr q \<in> span start fin) \<and> pte_of r (words s) q e"
proof -
  have a: "aligned (max (vma_start v) start)" "aligned (min (vma_end v) fin)" "unat (min (vma_end v) fin) \<le> 2 ^ 47"
    using v al area_bounds(2) [OF v] by (auto simp: area_ok_def max_def min_def word_le_nat_alt)
  note p = pages_between_user [OF a(1,3)]
  note e = release_pages_ok [OF ok r p(1), folded s'_def]
  show "vm_ok r s'" by (rule e(1))
  show "pte_of r (words s') q e \<longleftrightarrow> \<not> (inside v (page_addr q) \<and> page_addr q \<in> span start fin) \<and> pte_of r (words s) q e" if "user_page q"
    unfolding e(2) p(2) page_in_range [OF a(1,2) that] by (auto simp: inside_def span_def)
qed

lemma upd_vma_list:
  assumes "vma_list as = done @ v # rest" and "distinct (map vma_addr (vma_list as))"
  shows "vma_list (upd_vma (vma_addr v) f as) = done @ f v # rest"
    and "vma_list (vmm_remove_vma v as) = done @ rest"
proof -
  have "\<And>w. w \<in> set done \<union> set rest \<Longrightarrow> vma_addr w \<noteq> vma_addr v" using assms by (auto simp: image_iff)
  then show "vma_list (upd_vma (vma_addr v) f as) = done @ f v # rest" "vma_list (vmm_remove_vma v as) = done @ rest"
    using assms(1) by (auto simp: upd_vma_def vmm_remove_vma_def filter_id_conv intro!: map_idI)
qed

lemma areas_ok_replace:
  assumes "areas_ok (done @ v # rest)" and "area_ok v'" "vma_start v \<le> vma_start v'" "vma_end v' \<le> vma_end v" "vma_addr v' = vma_addr v"
  shows "areas_ok (done @ v' # rest)"
  using assms unfolding areas_ok_def by (auto simp: sorted_wrt_append intro: order_trans)

lemma as_ok_trim:
  assumes "as_ok as" and l: "vma_list as = done @ v # rest"
    and "area_ok (f v)" "vma_start v \<le> vma_start (f v)" "vma_end (f v) \<le> vma_end v" "vma_addr (f v) = vma_addr v"
  shows "as_ok (upd_vma (vma_addr v) f as)" and "vma_list (upd_vma (vma_addr v) f as) = done @ f v # rest"
proof -
  have d: "distinct (map vma_addr (vma_list as))" using assms(1) by (simp add: as_ok_def areas_ok_def)
  show vl: "vma_list (upd_vma (vma_addr v) f as) = done @ f v # rest" by (rule upd_vma_list(1) [OF l d])
  have "areas_ok (done @ f v # rest)" using areas_ok_replace [OF _ assms(3-6)] assms(1) l by (simp add: as_ok_def)
  moreover have "vma_count (upd_vma (vma_addr v) f as) = of_nat (length (done @ f v # rest))"
    using assms(1) l by (simp add: as_ok_def upd_vma_def)
  ultimately show "as_ok (upd_vma (vma_addr v) f as)" by (simp add: as_ok_def vl)
qed

lemma as_ok_remove:
  assumes "as_ok as" and l: "vma_list as = done @ v # rest"
  shows "as_ok (vmm_remove_vma v as)" and "vma_list (vmm_remove_vma v as) = done @ rest"
proof -
  have d: "distinct (map vma_addr (vma_list as))" using assms(1) by (simp add: as_ok_def areas_ok_def)
  show vl: "vma_list (vmm_remove_vma v as) = done @ rest" by (rule upd_vma_list(2) [OF l d])
  have "areas_ok (done @ rest)" using assms unfolding as_ok_def areas_ok_def by (auto simp: sorted_wrt_append)
  moreover have "vma_count (vmm_remove_vma v as) = of_nat (length (done @ rest))"
    using assms(1) l by (simp add: as_ok_def vmm_remove_vma_def)
  ultimately show "as_ok (vmm_remove_vma v as)" by (simp add: as_ok_def vl)
qed

text \<open>The split of an area around the range.\<close>

lemma split_effect:
  assumes ok: "as_ok as" and l: "vma_list as = done @ v # rest" and al: "aligned start" "aligned fin" "start \<le> fin"
    and sp: "vma_start v < start" "fin < vma_end v" and w: "vma_start w = fin" "vma_end w = vma_end v"
  defines "as1 \<equiv> upd_vma (vma_addr v) (\<lambda>v. v\<lparr>vma_end := start\<rparr>) as"
  shows "\<exists>as'. vmm_insert_vma w as1 = Inr as' \<and> pt as' = pt as \<and> (distinct (map vma_addr (vma_list as')) \<longrightarrow> as_ok as') \<and>
    covered (vma_list as') = covered (vma_list as) - span start fin"
proof -
  let ?v = "v\<lparr>vma_end := start\<rparr>"
  have areas: "areas_ok (done @ v # rest)" and v: "area_ok v" using ok l by (auto simp: as_ok_def areas_ok_def)
  have le: "start \<le> vma_end v" "start \<le> USER_SPACE_END" "vma_end v \<le> USER_SPACE_END"
    using al(3) sp(2) v by (auto simp: area_ok_def intro: order_trans less_imp_le)
  have ok1: "as_ok as1" "vma_list as1 = done @ ?v # rest"
    unfolding as1_def using as_ok_trim [OF ok l, of "\<lambda>v. v\<lparr>vma_end := start\<rparr>"] v al sp le by (simp_all add: area_ok_def)
  have aw: "area_ok w" using v w sp al by (simp add: area_ok_def)
  have ends: "vma_end d \<le> vma_start v" if "d \<in> set done" for d using areas that by (auto simp: areas_ok_def sorted_wrt_append)
  have starts: "vma_end v \<le> vma_start d" if "d \<in> set rest" for d using areas that by (auto simp: areas_ok_def sorted_wrt_append)
  have "vma_end d \<le> fin" if "d \<in> set done" for d
    using order_trans [OF ends [OF that]] order_trans [OF less_imp_le [OF sp(1)] al(3)] by blast
  then have "\<forall>d\<in>set (vma_list as1). vma_end w \<le> vma_start d \<or> vma_end d \<le> vma_start w"
    using ok1(2) w al(3) starts by auto
  from vmm_insert_vma_exact(1) [OF ok1(1) aw this] obtain as' where as': "vmm_insert_vma w as1 = Inr as'"
    "distinct (map vma_addr (vma_list as')) \<longrightarrow> as_ok as'" "covered (vma_list as') = covered (vma_list as1) \<union> {a. inside w a}" "pt as' = pt as1"
    by blast
  have out: "a \<notin> span start fin" if "d \<in> set done \<union> set rest" "inside d a" for d a
  proof (cases "d \<in> set done")
    case True
    then have "a < start" using ends that(2) sp(1) by (force simp: inside_def)
    then show ?thesis using leD by (auto simp: span_def)
  next
    case False
    then have "fin \<le> a" using starts that sp(2) by (force simp: inside_def)
    then show ?thesis using leD by (auto simp: span_def)
  qed
  have "covered (vma_list as1) \<union> {a. inside w a} = covered (vma_list as) - span start fin"
  proof (rule set_eqI)
    fix a
    have "inside ?v a \<or> inside w a \<longleftrightarrow> inside v a \<and> a \<notin> span start fin"
      using sp al(3) w by (auto simp: inside_def span_def not_less not_le)
    moreover have "a \<in> covered done \<union> covered rest \<Longrightarrow> a \<notin> span start fin" using out by (auto simp: covered_def)
    ultimately show "a \<in> covered (vma_list as1) \<union> {a. inside w a} \<longleftrightarrow> a \<in> covered (vma_list as) - span start fin"
      using ok1(2) l by auto
  qed
  then show ?thesis using as' by (auto simp: as1_def upd_vma_def)
qed

text \<open>One area that meets the range. A failed split leaves the areas as they are.\<close>

lemma unmap_area_effect:
  assumes ok: "as_ok as" and l: "vma_list as = done @ v # rest" and pt: "pt as = Some table" "pml4_phys table = r"
    and vm: "vm_ok r s" and al: "aligned start" "aligned fin" "start \<le> fin" and ov: "vma_start v < fin" "start < vma_end v"
    and u: "unmap_area start fin v (as, s) = (as', s')"
  shows "vm_ok r s'" and "pt as' = pt as"
    and "user_page q \<Longrightarrow> pte_of r (words s') q e \<longleftrightarrow> \<not> (inside v (page_addr q) \<and> page_addr q \<in> span start fin) \<and> pte_of r (words s) q e"
    and "vma_start v < start \<and> fin < vma_end v \<longrightarrow> as' = as \<or>
      (covered (vma_list as') = covered (vma_list as) - span start fin \<and> (distinct (map vma_addr (vma_list as')) \<longrightarrow> as_ok as'))"
    and "\<not> (vma_start v < start \<and> fin < vma_end v) \<longrightarrow> as_ok as' \<and> (\<exists>vs. vma_list as' = done @ vs @ rest \<and>
      covered vs = {a. inside v a} - span start fin \<and> (\<forall>w\<in>set vs. vma_start w < fin \<longrightarrow> vma_end w \<le> start))"
proof -
  have v: "area_ok v" using ok l by (auto simp: as_ok_def areas_ok_def)
  have se: "start \<le> USER_SPACE_END" "fin < vma_end v \<Longrightarrow> fin \<le> USER_SPACE_END"
    using ov(2) v by (auto simp: area_ok_def intro: order_trans less_imp_le)
  define s1 where "s1 = fold (release_page table) (pages_between (max (vma_start v) start) (min (vma_end v) fin)) s"
  note ra = release_area [OF vm pt(2) v al(1,2), folded s1_def]
  have same: "(user_page q \<longrightarrow> pte_of r (words s') q e \<longleftrightarrow> \<not> (inside v (page_addr q) \<and> page_addr q \<in> span start fin) \<and> pte_of r (words s) q e)"
    if "words s' = words s1" using that ra(2) by simp
  note ud = u [unfolded unmap_area_def split_conv Let_def, folded s1_def, simplified pt option.sel, folded s1_def]
  consider (full) "start \<le> vma_start v" "vma_end v \<le> fin" | (split) "vma_start v < start" "fin < vma_end v"
    | (left) "vma_start v < start" "\<not> fin < vma_end v" | (right) "\<not> vma_start v < start" "fin < vma_end v" by fastforce
  then have "vm_ok r s' \<and> words s' = words s1 \<and> pt as' = pt as \<and>
    (vma_start v < start \<and> fin < vma_end v \<longrightarrow> as' = as \<or>
      (covered (vma_list as') = covered (vma_list as) - span start fin \<and> (distinct (map vma_addr (vma_list as')) \<longrightarrow> as_ok as'))) \<and>
    (\<not> (vma_start v < start \<and> fin < vma_end v) \<longrightarrow> as_ok as' \<and> (\<exists>vs. vma_list as' = done @ vs @ rest \<and>
      covered vs = {a. inside v a} - span start fin \<and> (\<forall>w\<in>set vs. vma_start w < fin \<longrightarrow> vma_end w \<le> start)))"
  proof cases
    case full
    then have "as' = vmm_remove_vma v as" "s' = vmm_free_vma v s1" using ud by auto
    then show ?thesis
      using as_ok_remove [OF ok l] vmm_free_vma_ok [OF ra(1)] full
      by (auto simp: inside_def span_def vmm_remove_vma_def intro!: exI [of _ "[]"])
  next
    case split
    have nf: "\<not> start \<le> vma_start v" using split(1) by simp
    obtain s2 o2 where c: "vmm_create_vma fin (vma_end v) (vma_flags v) s1 = (s2, o2)" by fastforce
    note cv = vmm_create_vma_ok [OF ra(1) c]
    show ?thesis
    proof (cases o2)
      case None
      then have "as' = as" "s' = s2" using ud c split nf by auto
      then show ?thesis using cv split by simp
    next
      case (Some w)
      let ?w = "w\<lparr>prot := prot v, vfile := vfile v, offset := offset v + (fin - vma_start v)\<rparr>"
      have "vma_start ?w = fin" "vma_end ?w = vma_end v" using cv(3) Some by simp_all
      from split_effect [OF ok l al split this] obtain as2 where as2:
        "vmm_insert_vma ?w (upd_vma (vma_addr v) (\<lambda>v. v\<lparr>vma_end := start\<rparr>) as) = Inr as2" "pt as2 = pt as"
        "distinct (map vma_addr (vma_list as2)) \<longrightarrow> as_ok as2" "covered (vma_list as2) = covered (vma_list as) - span start fin" by blast
      then have "as' = as2" "s' = s2" using ud c split nf Some by auto
      then show ?thesis using cv split as2 by simp
    qed
  next
    case left
    let ?f = "\<lambda>v. v\<lparr>vma_end := start\<rparr>"
    have "\<not> start \<le> vma_start v" using left(1) by simp
    then have e: "as' = upd_vma (vma_addr v) ?f as" "s' = s1" using ud left by auto
    have "area_ok (?f v)" using v al left se by (simp add: area_ok_def)
    then have "as_ok as'" "vma_list as' = done @ [?f v] @ rest" using as_ok_trim [OF ok l, of ?f] ov(2) by (simp_all add: e less_imp_le)
    moreover have "covered [?f v] = {a. inside v a} - span start fin"
      using left ov(2) by (auto simp: inside_def span_def not_less not_le intro: order_trans less_imp_le less_trans less_le_trans)
    ultimately show ?thesis using left ra(1) e by (auto simp: upd_vma_def)
  next
    case right
    let ?f = "\<lambda>v. v\<lparr>offset := offset v + (fin - vma_start v), vma_start := fin\<rparr>"
    have "\<not> vma_end v \<le> fin" using right(2) by simp
    then have e: "as' = upd_vma (vma_addr v) ?f as" "s' = s1" using ud right by auto
    have "area_ok (?f v)" using v al right by (simp add: area_ok_def)
    then have "as_ok as'" "vma_list as' = done @ [?f v] @ rest" using as_ok_trim [OF ok l, of ?f] ov(1) by (simp_all add: e less_imp_le)
    moreover have "covered [?f v] = {a. inside v a} - span start fin"
      using right ov(1) by (auto simp: inside_def span_def not_less not_le intro: order_trans less_imp_le)
    ultimately show ?thesis using right ra(1) e by (auto simp: upd_vma_def)
  qed
  then show "vm_ok r s'" "pt as' = pt as" "vma_start v < start \<and> fin < vma_end v \<longrightarrow> as' = as \<or>
      (covered (vma_list as') = covered (vma_list as) - span start fin \<and> (distinct (map vma_addr (vma_list as')) \<longrightarrow> as_ok as'))"
    "\<not> (vma_start v < start \<and> fin < vma_end v) \<longrightarrow> as_ok as' \<and> (\<exists>vs. vma_list as' = done @ vs @ rest \<and>
      covered vs = {a. inside v a} - span start fin \<and> (\<forall>w\<in>set vs. vma_start w < fin \<longrightarrow> vma_end w \<le> start))"
    "user_page q \<Longrightarrow> pte_of r (words s') q e \<longleftrightarrow> \<not> (inside v (page_addr q) \<and> page_addr q \<in> span start fin) \<and> pte_of r (words s) q e"
    using same by blast+
qed

text \<open>The whole loop. The areas already passed end before the range.\<close>

lemma unmap_areas_effect:
  assumes "as_ok as" and "vma_list as = done @ rest" and "\<forall>d\<in>set done. vma_start d < fin \<longrightarrow> vma_end d \<le> start"
    and "pt as = Some table" "pml4_phys table = r" and "vm_ok r s" and al: "aligned start" "aligned fin" "start \<le> fin"
    and "unmap_areas start fin rest (as, s) = (as', s')"
  shows "vm_ok r s' \<and> pt as' = pt as \<and>
    (\<forall>q e. user_page q \<longrightarrow> pte_of r (words s') q e \<longleftrightarrow>
       \<not> (page_addr q \<in> covered rest \<and> page_addr q \<in> span start fin) \<and> pte_of r (words s) q e) \<and>
    ((\<exists>v\<in>set rest. vma_start v < start \<and> fin < vma_end v) \<and> as' = as \<or>
     covered (vma_list as') = covered (vma_list as) - span start fin \<and> (distinct (map vma_addr (vma_list as')) \<longrightarrow> as_ok as'))"
  using assms(1-6,10)
proof (induction rest arbitrary: as s "done")
  case Nil
  have "\<not> inside d a" if "d \<in> set done" "a \<in> span start fin" for d a
    using Nil.prems(3) that by (force simp: inside_def span_def)
  then show ?case using Nil by (auto simp: covered_def)
next
  case (Cons v rest)
  have areas: "areas_ok (done @ v # rest)" using Cons.prems(1,2) by (simp add: as_ok_def)
  have v: "area_ok v" and later: "\<And>w. w \<in> set rest \<Longrightarrow> vma_end v \<le> vma_start w"
    using areas by (auto simp: areas_ok_def sorted_wrt_append)
  have dj: "\<not> inside d a" if "d \<in> set done" "a \<in> span start fin" for d a
    using Cons.prems(3) that by (force simp: inside_def span_def)
  have above: "\<not> inside w a" if "w \<in> set (v # rest)" "fin \<le> vma_start v" "a \<in> span start fin" for w a
  proof -
    have "vma_start v \<le> vma_start w" using that(1) later [of w] v by (auto simp: area_ok_def)
    then show ?thesis using that(2,3) by (force simp: inside_def span_def)
  qed
  have above': "\<not> inside w a" if "w \<in> set rest" "fin \<le> vma_end v" "a \<in> span start fin" for w a
    using later [OF that(1)] that(2,3) by (force simp: inside_def span_def)
  show ?case
  proof (cases "fin \<le> vma_start v")
    case True
    then have e: "as' = as" "s' = s" using Cons.prems(7) by auto
    have "a \<notin> span start fin" if "a \<in> covered (vma_list as)" for a
      using that Cons.prems(2) dj above [OF _ True] by (force simp: covered_def)
    then show ?thesis using e Cons.prems above [OF _ True] by (fastforce simp: covered_def)
  next
    case False
    then have lt: "vma_start v < fin" by simp
    show ?thesis
    proof (cases "start < vma_end v")
      case False
      then have "\<forall>d\<in>set (done @ [v]). vma_start d < fin \<longrightarrow> vma_end d \<le> start" using Cons.prems(3) by auto
      moreover have "unmap_areas start fin rest (as, s) = (as', s')" using Cons.prems(7) lt False by (simp add: not_le [symmetric])
      moreover have "\<not> (inside v a \<and> a \<in> span start fin)" for a using False by (auto simp: inside_def span_def)
      ultimately show ?thesis
        using Cons.IH [of as "done @ [v]" s] Cons.prems(1,2,4-6) by auto
    next
      case ov: True
      obtain as1 s1 where u: "unmap_area start fin v (as, s) = (as1, s1)" by fastforce
      have rest: "unmap_areas start fin rest (as1, s1) = (as', s')" using Cons.prems(7) lt ov u by (simp add: not_le [symmetric])
      note ua = unmap_area_effect [OF Cons.prems(1,2,4,5,6) al lt ov u]
      show ?thesis
      proof (cases "vma_start v < start \<and> fin < vma_end v")
        case True
        have "as' = as1 \<and> s' = s1"
        proof (cases rest)
          case (Cons w ws)
          then have "fin \<le> vma_start w" using later [of w] True by (auto intro: order_trans less_imp_le)
          then show ?thesis using rest Cons by simp
        qed (use rest in simp)
        moreover have "\<not> (a \<in> covered rest \<and> a \<in> span start fin)" for a
          using above' True by (auto simp: covered_def less_imp_le)
        ultimately show ?thesis using ua True by auto
      next
        case False
        then obtain vs where vs: "as_ok as1" "vma_list as1 = done @ vs @ rest" "covered vs = {a. inside v a} - span start fin"
          "\<forall>w\<in>set vs. vma_start w < fin \<longrightarrow> vma_end w \<le> start" using ua(5) by blast
        have p: "\<forall>d\<in>set (done @ vs). vma_start d < fin \<longrightarrow> vma_end d \<le> start" using vs(4) Cons.prems(3) by auto
        have "vm_ok r s' \<and> pt as' = pt as1 \<and> (\<forall>q e. user_page q \<longrightarrow> pte_of r (words s') q e \<longleftrightarrow>
            \<not> (page_addr q \<in> covered rest \<and> page_addr q \<in> span start fin) \<and> pte_of r (words s1) q e) \<and>
          ((\<exists>v\<in>set rest. vma_start v < start \<and> fin < vma_end v) \<and> as' = as1 \<or>
           covered (vma_list as') = covered (vma_list as1) - span start fin \<and> (distinct (map vma_addr (vma_list as')) \<longrightarrow> as_ok as'))"
          using Cons.IH [of as1 "done @ vs" s1] vs p rest ua(1,2) Cons.prems(4,5) by simp
        moreover have "\<not> (\<exists>w\<in>set rest. vma_start w < start \<and> fin < vma_end w)"
          using later ov by (force dest: order_trans less_imp_le)
        moreover have "covered (vma_list as1) - span start fin = covered (vma_list as) - span start fin"
          using vs(2,3) Cons.prems(2) by auto
        ultimately show ?thesis using ua(2,3) by auto
      qed
    qed
  qed
qed

end
