(* ===== verification/Vmm_Props.thy ===== *)
theory Vmm_Props
  imports Vmm_Areas Paging_Props
begin

text \<open>
  Properties of the virtual memory manager: mapping takes the first gap and always ends, unmapping
  removes exactly the range, a page fault gives a zeroed page of its own, the checks of user pointers
  accept exactly the accessible ranges; and where the program break, which has no area, goes wrong.
\<close>

section \<open>A concrete address space\<close>

definition vx_words :: "u64 \<Rightarrow> nat \<Rightarrow> u64" where
  "vx_words = (\<lambda>_ _. 0)(0x300000 := (\<lambda>_. 0)(0 := 0x301007), 0x301000 := (\<lambda>_. 0)(0 := 0x302007),
     0x302000 := (\<lambda>_. 0)(0x80 := 0x303007))"

definition vx_vm :: vmem where
  "vx_vm = \<lparr>hp = heap_example\<lparr>slab_initialized := False, early_heap_current := 0x1000, early_heap_end := 0x100000\<rparr>,
     words = vx_words, kernel_pt = \<lparr>pt_addr = 0, pml4_phys = 0, pt_refcount = 1\<rparr>\<rparr>"

definition vx_pt :: page_table where
  "vx_pt = \<lparr>pt_addr = 0x8000, pml4_phys = 0x300000, pt_refcount = 1\<rparr>"

definition vx_area :: vm_area where
  "vx_area = \<lparr>vma_addr = 0x500, vma_start = 0x10000000, vma_end = 0x10004000, vma_flags = 3, prot = 3, vfile = None, offset = 0\<rparr>"

definition vx_as :: address_space where
  "vx_as = \<lparr>as_addr = 0x9000, pt = Some vx_pt, vma_list = [vx_area], vma_count = 1, total_vm = 0x4000,
     brk_start = 0x20000000, brk_end = 0x20000000, start_code = 0, end_code = 0, start_data = 0, end_data = 0,
     start_stack = 0, as_refcount = 1\<rparr>"

lemma vx_tables:
  assumes "table_at 0x300000 vx_words l p t"
  shows "(l, p, t) \<in> {(4, 0, 0x300000), (3, 0, 0x301000), (2, 0, 0x302000), (1, 0x80, 0x303000)}"
  using assms
proof (induction rule: table_at.induct)
  case (at_child l p t i)
  then show ?case
    by (auto simp: vx_words_def pte_get_frame_def PAGE_FRAME_MASK_def split: if_splits)
qed simp

lemma vx_no_pages: "\<not> pte_of 0x300000 vx_words q e"
proof
  assume "pte_of 0x300000 vx_words q e"
  then obtain t where "table_at 0x300000 vx_words 1 (q div 512) t" "e = vx_words t (q mod 512)" "e AND PTE_PRESENT \<noteq> 0"
    unfolding pte_of_def by blast
  then show False using vx_tables by (force simp: vx_words_def)
qed

lemma vx_ok: "vm_ok 0x300000 vx_vm" "as_ok vx_as"
proof -
  have "tree_ok 0x300000 vx_words"
    unfolding tree_ok_def
  proof (intro conjI allI impI)
    fix l p l' p' t assume "table_at 0x300000 vx_words l p t" "table_at 0x300000 vx_words l' p' t"
    then show "l = l'" "p = p'" by (auto dest!: vx_tables)
  next
    fix l p t and i :: nat assume "table_at 0x300000 vx_words l p t" "l = 2 \<or> l = 3"
    then show "vx_words t i AND PTE_HUGE = 0" by (auto dest!: vx_tables simp: vx_words_def PTE_HUGE_def)
  qed
  moreover have "unat (phys_to_pfn t) \<notin> {0x200..<0x204}" if "table_at 0x300000 vx_words l p t" for l p t
    using vx_tables [OF that] by (auto simp: phys_to_pfn_def PAGE_SHIFT_def)
  ultimately have "pt_ok 0x300000 vx_vm"
    using pmm_example_facts(2) by (auto simp: pt_ok_def vx_vm_def heap_example_def frame_free_def pmm_example_facts(3))
  then show "vm_ok 0x300000 vx_vm"
    using vx_no_pages by (simp add: vm_ok_def mem_ok_def heap_sane_def vx_vm_def pte_get_frame_def PAGE_FRAME_MASK_def)
  show "as_ok vx_as"
    by (simp add: as_ok_def areas_ok_def area_ok_def aligned_def vx_as_def vx_area_def USER_SPACE_END_def)
qed

section \<open>Helpers\<close>

lemma get_frame_total:
  assumes "pmm_ok (frames (hp s))" and "get_frame s = (s', 0)"
  shows "free_frames (frames (hp s)) = {}"
proof (rule ccontr)
  assume "free_frames (frames (hp s)) \<noteq> {}"
  then obtain x zt where "x \<in> free_frames (frames (hp s))" "has_run (frames (hp s)) (zone_index zt) (Suc 0)"
    using free_frame_run by blast
  moreover obtain f where "pmm_alloc_pages 1 (frames (hp s)) = (f, 0)"
    using assms(2) by (auto simp: get_frame_def pmm_alloc_page_one split: prod.splits)
  ultimately show False
    using pmm_alloc_pages_effect [of "frames (hp s)" 1 f 0] assms(1) by (auto simp: pmm_ok_def simp del: zone_index.simps)
qed

lemma prot_flags_frame: "vmm_prot_to_pte_flags prt AND PAGE_FRAME_MASK = 0" "vmm_prot_to_pte_flags prt OR PTE_PRESENT = vmm_prot_to_pte_flags prt"
  by (simp_all add: vmm_prot_to_pte_flags_def PTE_PRESENT_def PTE_USER_def PTE_WRITABLE_def PAGE_FRAME_MASK_def)

text \<open>A fresh zeroed frame mapped at a page, the step of faults and of the program break.\<close>

lemma map_zeroed:
  assumes ok: "mem_ok r s" and r: "pml4_phys table = r" and u: "user_page (page_no v)" and f: "flgs AND PAGE_FRAME_MASK = 0"
    and g: "get_frame s = (s1, n)" "n \<noteq> 0" and m: "mmu_map table v n flgs (zero_frame n s1) = (s2, mr)"
  shows "mr = Inr () \<Longrightarrow> mem_ok r s2 \<and> frame_free s n \<and> pte_get_frame n = n \<and> words s2 n = (\<lambda>_. 0) \<and>
      (\<forall>q e. pte_of r (words s2) q e \<longleftrightarrow> (if q = page_no v then e = pte_make n (flgs OR PTE_PRESENT) else pte_of r (words s) q e)) \<and>
      (\<forall>e. \<not> pte_of r (words s) (page_no v) e)"
    and "mr = Inl x \<Longrightarrow> mem_ok r (put_frame n s2) \<and> (\<forall>q e. pte_of r (words (put_frame n s2)) q e = pte_of r (words s) q e) \<and>
      x = (if \<exists>e. pte_of r (words s) (page_no v) e then EEXIST else ENOMEM)"
proof -
  note g1 = get_frame_mem [OF ok g(1)]
  have fr: "fresh_frame r s1 n" by (rule g1(3) [OF g(2)])
  note z = fill_fresh [OF g1(1) fr, of "\<lambda>_. 0", folded zero_frame_def]
  have same: "pte_of r (words (zero_frame n s1)) q e = pte_of r (words s) q e" for q e
    using z(3) by (simp add: zero_frame_def g1(2))
  have w: "words (zero_frame n s1) n = (\<lambda>_. 0)" by (simp add: zero_frame_def)
  have ff: "frame_free s n" "pte_get_frame n = n"
    using get_frame_effect(5) [OF _ g(1,2)] ok by (simp_all add: mem_ok_def pt_ok_def)
  note mf = map_fresh [OF z(1,2) r u f m]
  show "mem_ok r s2 \<and> frame_free s n \<and> pte_get_frame n = n \<and> words s2 n = (\<lambda>_. 0) \<and>
      (\<forall>q e. pte_of r (words s2) q e \<longleftrightarrow> (if q = page_no v then e = pte_make n (flgs OR PTE_PRESENT) else pte_of r (words s) q e)) \<and>
      (\<forall>e. \<not> pte_of r (words s) (page_no v) e)"
    if "mr = Inr ()" using mf(1) [OF that] mmu_map_effect(1) [OF mem_ok_pt [OF z(1)] r u f m that] ff w same by simp
  show "mem_ok r (put_frame n s2) \<and> (\<forall>q e. pte_of r (words (put_frame n s2)) q e = pte_of r (words s) q e) \<and>
      x = (if \<exists>e. pte_of r (words s) (page_no v) e then EEXIST else ENOMEM)"
    if "mr = Inl x"
    using mf(2) [OF that] put_fresh [of r s2 n] same by (auto simp: put_frame_def)
qed

lemma unat_len_up:
  assumes "len \<noteq> 0" and "unat len \<le> 2 ^ 47"
  shows "aligned (ALIGN_UP len PAGE_SIZE)" and "0 < unat (ALIGN_UP len PAGE_SIZE)"
proof -
  have u: "unat (ALIGN_UP len PAGE_SIZE) = 4096 * ((unat len + 4095) div 4096)"
    using assms(2) by (intro unat_ALIGN_UP) simp
  have "0 < unat len" using assms(1) by (simp add: unat_gt_0)
  then have "1 \<le> (unat len + 4095) div 4096" by (simp add: less_eq_div_iff_mult_less_eq)
  then show "aligned (ALIGN_UP len PAGE_SIZE)" "0 < unat (ALIGN_UP len PAGE_SIZE)" by (simp_all add: aligned_def u)
qed

section \<open>Mapping and unmapping\<close>

text \<open>C15: An anonymous mapping without a fixed address always ends. It is placed at the lowest address from
  the heap base on where it fits between the areas and below the end of user space, and adds exactly
  its range to the covered addresses; it fails only when there is no such place or no memory for the
  area, and then changes no area. No page is mapped yet.\<close>

theorem vmm_mmap_first_fit:
  assumes "as_ok as" and "pt as = Some table" and "len \<noteq> 0" and "unat len \<le> 2 ^ 47"
    and "flgs AND MAP_ANONYMOUS \<noteq> 0" and "flgs AND MAP_FIXED = 0"
  defines "n \<equiv> ALIGN_UP len PAGE_SIZE"
  shows "\<exists>as' s' res. vmm_mmap read_page addr len prt flgs file off as s = Some ((as', s'), res) \<and> words s' = words s \<and>
    (case res of
       None \<Rightarrow> as' = as \<and> ((\<forall>g. USER_HEAP_BASE \<le> g \<longrightarrow> \<not> fits (vma_list as) n g) \<or> snd (kzalloc sizeof_vm_area (hp s)) = 0)
     | Some g \<Rightarrow> aligned g \<and> USER_HEAP_BASE \<le> g \<and> fits (vma_list as) n g \<and>
         (\<forall>h. USER_HEAP_BASE \<le> h \<longrightarrow> h < g \<longrightarrow> \<not> fits (vma_list as) n h) \<and>
         covered (vma_list as') = covered (vma_list as) \<union> span g (g + n) \<and>
         (distinct (map vma_addr (vma_list as')) \<longrightarrow> as_ok as'))"
proof -
  have areas: "areas_ok (vma_list as)" using assms(1) by (simp add: as_ok_def)
  note n = unat_len_up [OF assms(3,4), folded n_def]
  have "aligned USER_HEAP_BASE" by (simp add: aligned_def USER_HEAP_BASE_def)
  from find_gap_first_fit [OF areas this, of n] obtain r where r: "find_gap as USER_HEAP_BASE n = Some r"
    "case r of None \<Rightarrow> \<forall>g. USER_HEAP_BASE \<le> g \<longrightarrow> \<not> fits (vma_list as) n g
     | Some g \<Rightarrow> aligned g \<and> USER_HEAP_BASE \<le> g \<and> fits (vma_list as) n g \<and>
         (\<forall>h. USER_HEAP_BASE \<le> h \<longrightarrow> h < g \<longrightarrow> \<not> fits (vma_list as) n h)" by blast
  have ms: "mmap_start as addr n flgs = Some r" using r(1) assms(6) by (simp add: mmap_start_def)
  show ?thesis
  proof (cases r)
    case None
    then show ?thesis using ms r(2) assms(2-5) by (simp add: vmm_mmap_def n_def Let_def)
  next
    case (Some g)
    have g: "aligned g" "USER_HEAP_BASE \<le> g" "fits (vma_list as) n g" using r(2) Some by auto
    then have room: "unat g + unat n \<le> 2 ^ 47" by (simp add: fits_def)
    have "zig_range_end_le_cap_ok g n USER_SPACE_END \<noteq> None" using range_end_none [of g n] room by auto
    then obtain fin where fin: "zig_range_end_le_cap_ok g n USER_SPACE_END = Some fin" by blast
    note fe = range_end_ok [OF fin]
    have fg: "fin = g + n" using fe room by (simp add: word_unat_eq_iff unat_word_ariths)
    have clear: "fin \<le> vma_start w \<or> vma_end w \<le> g" if "w \<in> set (vma_list as)" for w
      using g(3) that fe(1) by (auto simp: fits_def word_le_nat_alt)
    have "find_intersection_in (vma_list as) g fin = None"
      using find_intersection_exact(1) [OF areas, of g fin] clear by (cases "find_intersection_in (vma_list as) g fin") force+
    then have noi: "vmm_find_vma_intersection as g fin = None" by (simp add: vmm_find_vma_intersection_def)
    obtain h p where kz: "kzalloc sizeof_vm_area (hp s) = (h, p)" by fastforce
    let ?v = "\<lparr>vma_addr = p, vma_start = g, vma_end = fin, vma_flags = vma_flags_of prt flgs, prot = prt, vfile = file, offset = off\<rparr>"
    show ?thesis
    proof (cases "p = 0")
      case True
      then have "vmm_mmap read_page addr len prt flgs file off as s = Some ((as, s\<lparr>hp := h\<rparr>), None)"
        using ms Some assms(2,3,5,6) fin noi kz by (simp add: vmm_mmap_def n_def Let_def vmm_create_vma_def)
      then show ?thesis using True kz by simp
    next
      case False
      have "area_ok ?v"
        using g(1) n fe unat_USER_SPACE_END by (simp add: area_ok_def aligned_def word_less_nat_alt word_le_nat_alt mod_add_eq [symmetric])
      moreover have "\<forall>w\<in>set (vma_list as). vma_end ?v \<le> vma_start w \<or> vma_end w \<le> vma_start ?v" using clear by simp
      ultimately obtain as' where i: "vmm_insert_vma ?v as = Inr as'" "distinct (map vma_addr (vma_list as')) \<longrightarrow> as_ok as'"
        "covered (vma_list as') = covered (vma_list as) \<union> {a. inside ?v a}"
        using vmm_insert_vma_exact(1) [OF assms(1)] by blast
      have "vmm_mmap read_page addr len prt flgs file off as s = Some ((as', s\<lparr>hp := h\<rparr>), Some g)"
        using ms Some assms(2,3,5,6) fin noi kz False i(1)
        by (simp add: vmm_mmap_def n_def Let_def vmm_create_vma_def split: option.split)
      then show ?thesis using i r(2) Some fg by (auto simp: inside_def span_def)
    qed
  qed
qed

lemma vx_kzalloc: "snd (kzalloc sizeof_vm_area (hp vx_vm)) = 0x1000"
  by (simp add: vx_vm_def kzalloc_def kmalloc_def early_alloc_def sizeof_vm_area_def Let_def ALIGN_UP_def)

theorem vmm_mmap_first_fit_witness:
  "\<exists>as' s'. vmm_mmap (\<lambda>_ _. Inl EIO) 0 0x1800 3 0x22 None 0 vx_as vx_vm = Some ((as', s'), Some 0x10004000) \<and>
     covered (vma_list as') = covered (vma_list vx_as) \<union> span 0x10004000 0x10006000"
proof -
  have n: "ALIGN_UP 0x1800 PAGE_SIZE = (0x2000 :: u64)" by (simp add: ALIGN_UP_def PAGE_SIZE_def)
  have a: "pt vx_as = Some vx_pt" "(0x22 :: u32) AND MAP_ANONYMOUS \<noteq> 0" "(0x22 :: u32) AND MAP_FIXED = 0"
    "(0x1800 :: u64) \<noteq> 0" "unat (0x1800 :: u64) \<le> 2 ^ 47"
    by (simp_all add: vx_as_def MAP_ANONYMOUS_def MAP_FIXED_def)
  have fit: "fits (vma_list vx_as) 0x2000 0x10004000" by (simp add: fits_def vx_as_def vx_area_def)
  have least: "0x10004000 \<le> g" if "fits (vma_list vx_as) 0x2000 g" "USER_HEAP_BASE \<le> g" for g
    using that by (auto simp: fits_def vx_as_def vx_area_def USER_HEAP_BASE_def word_le_nat_alt)
  obtain as' s' res where *: "vmm_mmap (\<lambda>_ _. Inl EIO) 0 0x1800 3 0x22 None 0 vx_as vx_vm = Some ((as', s'), res)"
    "case res of
       None \<Rightarrow> as' = vx_as \<and> ((\<forall>g. USER_HEAP_BASE \<le> g \<longrightarrow> \<not> fits (vma_list vx_as) 0x2000 g) \<or> snd (kzalloc sizeof_vm_area (hp vx_vm)) = 0)
     | Some g \<Rightarrow> aligned g \<and> USER_HEAP_BASE \<le> g \<and> fits (vma_list vx_as) 0x2000 g \<and>
         (\<forall>h. USER_HEAP_BASE \<le> h \<longrightarrow> h < g \<longrightarrow> \<not> fits (vma_list vx_as) 0x2000 h) \<and>
         covered (vma_list as') = covered (vma_list vx_as) \<union> span g (g + 0x2000) \<and>
         (distinct (map vma_addr (vma_list as')) \<longrightarrow> as_ok as')"
    using vmm_mmap_first_fit [OF vx_ok(2) a(1,4,5,2,3), of "\<lambda>_ _. Inl EIO" 0 3 None 0 vx_vm] unfolding n by blast
  have base: "USER_HEAP_BASE \<le> 0x10004000" by (simp add: USER_HEAP_BASE_def)
  show ?thesis
  proof (cases res)
    case None
    then show ?thesis using *(2) fit base vx_kzalloc by auto
  next
    case (Some g)
    then have "0x10004000 \<le> g" "\<not> 0x10004000 < g" using *(2) least fit base by auto
    then have "g = 0x10004000" by simp
    then show ?thesis using * Some by auto
  qed
qed



section \<open>Page faults\<close>


lemma vx_frame:
  assumes "get_frame vx_vm = (s1, n)"
  shows "n \<noteq> 0" and "words s1 = vx_words" and "n \<notin> {0x300000, 0x301000, 0x302000, 0x303000}"
proof -
  have pm: "pmm_ok (frames (hp vx_vm))" and ff: "free_frames (frames (hp vx_vm)) = {0x200..<0x204}"
    using pmm_example_facts by (simp_all add: vx_vm_def heap_example_def)
  show n: "n \<noteq> 0" using get_frame_total [OF pm] assms ff by fastforce
  have "frame_free vx_vm n" using get_frame_effect(5) [OF pm assms n] by simp
  then show "n \<notin> {0x300000, 0x301000, 0x302000, 0x303000}"
    by (auto simp: frame_free_def ff phys_to_pfn_def PAGE_SHIFT_def)
  show "words s1 = vx_words" using get_frame_effect(1) [OF pm assms] by (simp add: vx_vm_def)
qed


section \<open>User pointers\<close>

definition page_allows :: "u64 \<Rightarrow> (u64 \<Rightarrow> nat \<Rightarrow> u64) \<Rightarrow> bool \<Rightarrow> nat \<Rightarrow> bool" where
  "page_allows r w write q \<longleftrightarrow> (\<exists>e. pte_of r w q e \<and> e AND PTE_USER \<noteq> 0 \<and> (write \<longrightarrow> e AND PTE_WRITABLE \<noteq> 0))"

text \<open>What the loop tests of an address: it depends on the page only.\<close>

definition access_ok :: "page_table \<Rightarrow> bool \<Rightarrow> vmem \<Rightarrow> u64 \<Rightarrow> bool" where
  "access_ok table write s a \<longleftrightarrow> mmu_resolve table a s \<noteq> 0 \<and> mmu_get_flags table a s AND PTE_PRESENT \<noteq> 0 \<and>
     mmu_get_flags table a s AND PTE_USER \<noteq> 0 \<and> (write \<longrightarrow> mmu_get_flags table a s AND PTE_WRITABLE \<noteq> 0)"

lemma verify_pages_all: "verify_pages table write ps s = Inr () \<longleftrightarrow> (\<forall>p\<in>set ps. access_ok table write s p)"
  by (induction ps) (auto simp: access_ok_def Let_def)

lemma access_ok_page:
  assumes "mem_ok r s" and "pml4_phys table = r" and "user_page (page_no a)"
  shows "access_ok table write s a \<longleftrightarrow> page_allows r (words s) write (page_no a)"
proof (cases "\<exists>e. pte_of r (words s) (page_no a) e")
  case True
  then obtain e where e: "pte_of r (words s) (page_no a) e" by blast
  note obs = mmu_resolve_pte(1,3) [OF mem_ok_pt [OF assms(1)] assms(2,3) e]
  have bits: "(e AND NOT PAGE_FRAME_MASK) AND PTE_PRESENT = e AND PTE_PRESENT" "(e AND NOT PAGE_FRAME_MASK) AND PTE_USER = e AND PTE_USER"
    "(e AND NOT PAGE_FRAME_MASK) AND PTE_WRITABLE = e AND PTE_WRITABLE"
    by (simp_all add: and.assoc PAGE_FRAME_MASK_def PTE_PRESENT_def PTE_USER_def PTE_WRITABLE_def)
  have "pte_get_frame e OR (a AND PAGE_OFFSET_MASK) \<noteq> 0" using mem_ok_frame(1) [OF assms(1) e] by (simp add: or_eq_0_iff)
  moreover have "e AND PTE_PRESENT \<noteq> 0" using e by (auto simp: pte_of_def)
  ultimately show ?thesis
    using e pte_of_functional [OF e] unfolding access_ok_def page_allows_def obs bits by blast
next
  case False
  then have "mmu_resolve table a s = 0" using mmu_resolve_pte(2) [OF mem_ok_pt [OF assms(1)] assms(2,3)] by blast
  then show ?thesis using False by (simp add: access_ok_def page_allows_def)
qed

lemma pages_of_range:
  assumes "0 < n" and "x + n \<le> 2 ^ 47"
  shows "{x div 4096..<(x + n + 4095) div 4096} = {k div 4096 |k :: nat. x \<le> k \<and> k < x + n}"
proof (intro set_eqI iffI)
  fix q assume "q \<in> {x div 4096..<(x + n + 4095) div 4096}"
  then have q: "x div 4096 \<le> q" "q < (x + n + 4095) div 4096" by simp_all
  have "Suc q \<le> (x + n + 4095) div 4096" using q(2) by simp
  then have "Suc q * 4096 \<le> x + n + 4095" by (simp only: less_eq_div_iff_mult_less_eq zero_less_numeral)
  then have lt: "max x (4096 * q) < x + n" using assms(1) by simp
  have "max x (4096 * q) div 4096 = q"
  proof (cases "x div 4096 = q")
    case True
    then have "4096 * q \<le> x" using times_div_less_eq_dividend [of 4096 x] by simp
    then show ?thesis using True by (simp add: max_absorb1)
  next
    case False
    then have "x div 4096 < q" using q(1) by simp
    then have "x < q * 4096" by (simp only: div_less_iff_less_mult zero_less_numeral)
    then show ?thesis by (simp add: max_absorb2)
  qed
  then show "q \<in> {k div 4096 |k. x \<le> k \<and> k < x + n}" using lt by (intro CollectI exI [of _ "max x (4096 * q)"]) simp
next
  fix q assume "q \<in> {k div 4096 |k. x \<le> k \<and> k < x + n}"
  then obtain k where k: "q = k div 4096" "x \<le> k" "k < x + n" by blast
  have "Suc k \<le> x + n" using k(3) by simp
  then have "(k + 4096) div 4096 \<le> (x + n + 4095) div 4096" by (intro div_le_mono) simp
  then have "k div 4096 < (x + n + 4095) div 4096" by simp
  then show "q \<in> {x div 4096..<(x + n + 4095) div 4096}" using k by (simp add: div_le_mono)
qed

lemma user_byte:
  assumes "unat a < 2 ^ 47"
  shows "page_no a = unat a div 4096" and "user_page (page_no a)"
proof -
  have "unat a div 4096 < 2 ^ 35" using assms by (simp only: div_less_iff_less_mult zero_less_numeral) simp
  then show "page_no a = unat a div 4096" "user_page (page_no a)" by (simp_all add: page_no_def user_page_def)
qed

text \<open>The pages the check visits are the pages of the bytes of the range.\<close>

lemma range_pages:
  fixes addr sz :: u64
  assumes "sz \<noteq> 0" and "unat addr + unat sz \<le> 2 ^ 47"
  defines "ps \<equiv> pages_between (ALIGN_DOWN addr PAGE_SIZE) (addr + sz)"
    and "bytes \<equiv> {a. addr \<le> a \<and> unat a < unat addr + unat sz}"
  shows "page_no ` set ps = page_no ` bytes" and "\<forall>p\<in>set ps. user_page (page_no p)" and "\<forall>a\<in>bytes. user_page (page_no a)"
proof -
  have pos: "0 < unat sz" using assms(1) by (simp add: unat_gt_0)
  have sum: "unat (addr + sz) = unat addr + unat sz" using assms(2) by (simp add: unat_word_ariths)
  have al: "aligned (ALIGN_DOWN addr PAGE_SIZE)" by (simp add: aligned_def unat_ALIGN_DOWN)
  have le: "unat (addr + sz) \<le> 2 ^ 47" using assms(2) sum by simp
  note pb = pages_between_user [OF al le, folded ps_def]
  show "\<forall>p\<in>set ps. user_page (page_no p)" using pb(1) by blast
  have bytes: "bytes = {a. unat addr \<le> unat a \<and> unat a < unat addr + unat sz}" by (simp add: bytes_def word_le_nat_alt)
  have small: "unat a < 2 ^ 47" if "a \<in> bytes" for a using that assms(2) by (simp add: bytes_def)
  then show "\<forall>a\<in>bytes. user_page (page_no a)" using user_byte(2) by blast
  have "page_no ` bytes = (\<lambda>a. unat a div 4096) ` bytes" using small user_byte(1) by (intro image_cong) auto
  also have "\<dots> = {k div 4096 |k. unat addr \<le> k \<and> k < unat addr + unat sz}"
  proof (intro set_eqI iffI)
    fix q assume "q \<in> {k div 4096 |k. unat addr \<le> k \<and> k < unat addr + unat sz}"
    then obtain k where k: "q = k div 4096" "unat addr \<le> k" "k < unat addr + unat sz" by blast
    have "unat (of_nat k :: u64) = k" using k(3) assms(2) by (subst unat_word_of_nat) simp_all
    then have "(of_nat k :: u64) \<in> bytes" "q = unat (of_nat k :: u64) div 4096" using k by (simp_all add: bytes)
    then show "q \<in> (\<lambda>a. unat a div 4096) ` bytes" by blast
  qed (auto simp: bytes)
  also have "\<dots> = page_no ` set ps"
    using pb(2) pages_of_range [OF pos assms(2)] by (simp add: unat_ALIGN_DOWN sum)
  finally show "page_no ` set ps = page_no ` bytes" by (rule sym)
qed

text \<open>C17: The check of a user range accepts exactly the ranges that are not null, at most 0x7ffff000 bytes long, end
  inside user space and whose every byte is on a present page that user mode may access, and may
  write when the range is to be written. An empty range is accepted at any address but null.\<close>

theorem vmm_verify_user_range_exact:
  assumes "mem_ok r s" and "pt as = Some table" and "pml4_phys table = r"
  shows "vmm_verify_user_range addr sz write (Some as) s = Inr () \<longleftrightarrow>
    addr \<noteq> 0 \<and> (sz = 0 \<or> sz \<le> 0x7ffff000 \<and> unat addr + unat sz \<le> 2 ^ 47 \<and>
      (\<forall>a. addr \<le> a \<and> unat a < unat addr + unat sz \<longrightarrow>
         mmu_resolve table a s \<noteq> 0 \<and> mmu_get_flags table a s AND PTE_PRESENT \<noteq> 0 \<and> mmu_get_flags table a s AND PTE_USER \<noteq> 0 \<and>
         (write \<longrightarrow> mmu_get_flags table a s AND PTE_WRITABLE \<noteq> 0)))"
proof (cases "addr \<noteq> 0 \<and> sz \<noteq> 0 \<and> sz \<le> 0x7ffff000 \<and> unat addr + unat sz \<le> 2 ^ 47")
  case True
  let ?ps = "pages_between (ALIGN_DOWN addr PAGE_SIZE) (addr + sz)"
  let ?bytes = "{a. addr \<le> a \<and> unat a < unat addr + unat sz}"
  have pos: "0 < unat sz" using True by (simp add: unat_gt_0)
  have run: "vmm_verify_user_range addr sz write (Some as) s = verify_pages table write ?ps s"
    using True pos assms(2) unat_USER_SPACE_END
    by (simp add: vmm_verify_user_range_def zig_user_copy_len_ok_def zig_u64_add_ok_def word_le_nat_alt word_less_nat_alt
        unat_word_ariths not_le not_less)
  have rp: "page_no ` set ?ps = page_no ` ?bytes" "\<forall>p\<in>set ?ps. user_page (page_no p)" "\<forall>a\<in>?bytes. user_page (page_no a)"
    using range_pages [of sz addr] True by blast+
  have "(\<forall>p\<in>set ?ps. access_ok table write s p) \<longleftrightarrow> (\<forall>q\<in>page_no ` set ?ps. page_allows r (words s) write q)"
    using access_ok_page [OF assms(1,3)] rp(2) by blast
  also have "\<dots> \<longleftrightarrow> (\<forall>a\<in>?bytes. access_ok table write s a)"
    unfolding rp(1) using access_ok_page [OF assms(1,3)] rp(3) by blast
  finally show ?thesis using True run verify_pages_all unfolding access_ok_def by simp
next
  case False
  then show ?thesis
    using assms(2) unat_USER_SPACE_END
    by (auto simp: vmm_verify_user_range_def zig_user_copy_len_ok_def zig_u64_add_ok_def word_le_nat_alt word_less_nat_alt
        unat_word_ariths not_le not_less)
qed

theorem vmm_verify_user_range_exact_witness:
  "vmm_verify_user_range 0x10001000 0 True (Some vx_as) vx_vm = Inr () \<and>
   vmm_verify_user_range 0x10001000 8 False (Some vx_as) vx_vm \<noteq> Inr ()"
proof -
  have h: "mem_ok 0x300000 vx_vm" "pt vx_as = Some vx_pt" "pml4_phys vx_pt = 0x300000"
    using vx_ok(1) by (simp_all add: vx_as_def vx_pt_def vm_ok_def)
  have z: "mmu_resolve vx_pt 0x10001000 vx_vm = 0"
    using mmu_resolve_pte(2) [OF mem_ok_pt [OF h(1)] h(3)] vx_no_pages by (simp add: vx_vm_def user_page_def page_no_def)
  show ?thesis
    using vmm_verify_user_range_exact [OF h, of "0x10001000" 0 True] vmm_verify_user_range_exact [OF h, of "0x10001000" 8 False] z
    by force
qed

end
