(* ===== verification/Vmm_Clone.thy ===== *)
theory Vmm_Clone
  imports Vmm_Props
begin

text \<open>
  Copying an address space for fork: while the child is built, the parent's tables and pages stay as
  they are, the child owns frames of its own, and every page of the child is a copy of the parent's
  page at the same address.
\<close>

section \<open>The frames of an address space\<close>

definition owned :: "u64 \<Rightarrow> vmem \<Rightarrow> u64 set" where
  "owned r s = {t. \<exists>l p. table_at r (words s) l p t} \<union> {pte_get_frame e |q e. pte_of r (words s) q e}"

lemma owned_table: "table_at r (words s) l p t \<Longrightarrow> t \<in> owned r s"
  by (auto simp: owned_def)

lemma owned_page: "pte_of r (words s) q e \<Longrightarrow> pte_get_frame e \<in> owned r s"
  by (auto simp: owned_def)

lemma owned_not_free:
  assumes "mem_ok r s" and "t \<in> owned r s"
  shows "\<not> frame_free s t"
  using assms mem_ok_frame(2) [OF assms(1)] by (auto simp: owned_def mem_ok_def pt_ok_def)

text \<open>A step that leaves the words of these frames alone and frees nothing keeps the whole space.\<close>

definition frames_shrink :: "vmem \<Rightarrow> vmem \<Rightarrow> bool" where
  "frames_shrink s s' \<longleftrightarrow> (\<forall>t. frame_free s' t \<longrightarrow> frame_free s t) \<and> pmm_ok (frames (hp s'))"

lemma space_kept:
  assumes ok: "mem_ok r s" and same: "\<And>t. t \<in> owned r s \<Longrightarrow> words s' t = words s t" and sh: "frames_shrink s s'"
  shows "mem_ok r s'" and "owned r s' = owned r s" and "pte_of r (words s') q e = pte_of r (words s) q e"
proof -
  have ta: "table_at r (words s') l p t \<longleftrightarrow> table_at r (words s) l p t" for l p t
    by (rule table_at_agree) (rule same, rule owned_table)
  have tw: "words s' t = words s t" if "table_at r (words s) l p t" for l p t using same owned_table that by blast
  show pe: "pte_of r (words s') q e = pte_of r (words s) q e" for q e unfolding pte_of_def ta using tw by metis
  show "owned r s' = owned r s" by (simp add: owned_def ta pe)
  have nf: "\<not> frame_free s' t" if "t \<in> owned r s" for t using owned_not_free [OF ok that] sh by (auto simp: frames_shrink_def)
  have "tree_ok r (words s)" using ok by (simp add: mem_ok_def pt_ok_def)
  then have "tree_ok r (words s')" unfolding tree_ok_def ta using tw by metis
  then have "pt_ok r s'" using sh nf owned_table unfolding pt_ok_def ta frames_shrink_def by blast
  then show "mem_ok r s'" using ok nf owned_page unfolding mem_ok_def ta pe by blast
qed

lemma mmu_map_within:
  assumes "pt_ok r s" "pml4_phys table = r" "user_page (page_no v)" "flgs AND PAGE_FRAME_MASK = 0" "mmu_map table v phys flgs s = (s', res)"
  shows "stays_within r s s'"
  using mmu_map_effect [OF assms] by (cases res) (auto simp: walk_keeps_def map_update_def)

section \<open>The pair of spaces while copying\<close>

text \<open>The parent \<open>r\<close> is as it was in \<open>s0\<close>; the pages of the child \<open>r'\<close> are in \<open>Q\<close> and copies of the parent's.\<close>

definition copies :: "u64 \<Rightarrow> u64 \<Rightarrow> vmem \<Rightarrow> vmem \<Rightarrow> nat set \<Rightarrow> bool" where
  "copies r r' s0 s Q \<longleftrightarrow> mem_ok r s \<and> mem_ok r' s \<and> owned r s = owned r s0 \<and> owned r s \<inter> owned r' s = {} \<and>
     (\<forall>t\<in>owned r s0. words s t = words s0 t) \<and> (\<forall>q e. pte_of r (words s) q e = pte_of r (words s0) q e) \<and>
     (\<forall>q e'. pte_of r' (words s) q e' \<longrightarrow> q \<in> Q \<and> (\<exists>e. pte_of r (words s0) q e \<and>
        words s (pte_get_frame e') = words s0 (pte_get_frame e) \<and>
        e' AND NOT PAGE_FRAME_MASK = e AND NOT PAGE_FRAME_MASK AND NOT PTE_COW OR PTE_PRESENT))"

lemma copies_mono: "copies r r' s0 s Q \<Longrightarrow> Q \<subseteq> Q' \<Longrightarrow> copies r r' s0 s Q'"
  unfolding copies_def by blast

lemma copies_words:
  assumes c: "copies r r' s0 s Q" and same: "\<And>t. t \<in> owned r s \<union> owned r' s \<Longrightarrow> words s' t = words s t" and sh: "frames_shrink s s'"
  shows "copies r r' s0 s' Q"
proof -
  have ok: "mem_ok r s" "mem_ok r' s" using c by (simp_all add: copies_def)
  have k: "mem_ok r s'" "owned r s' = owned r s" "\<And>q e. pte_of r (words s') q e = pte_of r (words s) q e"
    using space_kept [OF ok(1) _ sh] same by blast+
  have k': "mem_ok r' s'" "owned r' s' = owned r' s" "\<And>q e. pte_of r' (words s') q e = pte_of r' (words s) q e"
    using space_kept [OF ok(2) _ sh] same by blast+
  have w: "words s' (pte_get_frame e) = words s (pte_get_frame e)" if "pte_of r' (words s) q e" for q e
    using same owned_page [OF that] by blast
  show ?thesis using c k(1) k'(1) same w unfolding copies_def k(2,3) k'(2,3) by (metis UnI1)
qed

text \<open>Mapping a fresh frame into the child.\<close>

lemma copies_map:
  assumes c: "copies r r' s0 s Q" and n: "fresh_frame r' s n" "n \<notin> owned r s" and r': "pml4_phys new = r'"
    and u: "user_page (page_no a)" and f: "flgs AND PAGE_FRAME_MASK = 0" and m: "mmu_map new a n flgs s = (s', res)"
    and e: "pte_of r (words s0) (page_no a) e" "words s n = words s0 (pte_get_frame e)"
      "flgs OR PTE_PRESENT = e AND NOT PAGE_FRAME_MASK AND NOT PTE_COW OR PTE_PRESENT"
  shows "copies r r' s0 s' (insert (page_no a) Q)"
proof -
  have ok: "mem_ok r s" "mem_ok r' s" and dj: "owned r s \<inter> owned r' s = {}" using c unfolding copies_def by blast+
  have st: "stays_within r' s s'" by (rule mmu_map_within [OF mem_ok_pt [OF ok(2)] r' u f m])
  have sh: "frames_shrink s s'" using st by (simp add: frames_shrink_def stays_within_def)
  have out: "\<not> within r' s t" if "t \<in> owned r s" for t
    using owned_not_free [OF ok(1) that] dj that owned_table [of r' s] unfolding within_def by blast
  have sameP: "words s' t = words s t" if "t \<in> owned r s" for t using st out [OF that] by (simp add: stays_within_def)
  note k = space_kept [OF ok(1) sameP sh]
  have outC: "words s' (pte_get_frame x) = words s (pte_get_frame x)" if "pte_of r' (words s) q x" for q x
    using st mem_ok_frame(2,3) [OF ok(2) that] by (simp add: stays_within_def within_def)
  have ptes: "mem_ok r' s' \<and> words s' n = words s n \<and> (\<forall>q x. pte_of r' (words s') q x \<longrightarrow>
      q = page_no a \<and> x = pte_make n (flgs OR PTE_PRESENT) \<or> pte_of r' (words s) q x)"
  proof (cases res)
    case (Inl x)
    have "words s' n = words s n" using st n(1) by (simp add: stays_within_def within_def fresh_frame_def)
    then show ?thesis using map_fresh(2) [OF ok(2) n(1) r' u f m Inl] by simp
  next
    case (Inr x)
    then show ?thesis using map_fresh(1) [OF ok(2) n(1) r' u f m] by (simp split: if_splits)
  qed
  let ?e' = "pte_make n (flgs OR PTE_PRESENT)"
  have nf: "pte_get_frame ?e' = n" "?e' AND NOT PAGE_FRAME_MASK = flgs OR PTE_PRESENT"
    using pte_make_fields(1,3) [OF f] n(1) by (simp_all add: fresh_frame_def)
  have "t \<notin> owned r' s'" if "t \<in> owned r s" for t
  proof
    assume "t \<in> owned r' s'"
    then consider l p where "table_at r' (words s') l p t" | q x where "pte_of r' (words s') q x" "t = pte_get_frame x"
      by (auto simp: owned_def)
    then show False
    proof cases
      case 1
      then have "within r' s' t" by (auto simp: within_def)
      then show False using out [OF that] st by (simp add: stays_within_def)
    next
      case 2
      from ptes 2(1) have "x = ?e' \<or> pte_of r' (words s) q x" by blast
      then have "t = n \<or> t \<in> owned r' s" using 2(2) nf(1) owned_page [of r' s q x] by auto
      then show False using n(2) that dj by blast
    qed
  qed
  then have dj': "owned r s \<inter> owned r' s' = {}" by blast
  have child: "q \<in> insert (page_no a) Q \<and> (\<exists>y. pte_of r (words s0) q y \<and> words s' (pte_get_frame x) = words s0 (pte_get_frame y) \<and>
      x AND NOT PAGE_FRAME_MASK = y AND NOT PAGE_FRAME_MASK AND NOT PTE_COW OR PTE_PRESENT)" if "pte_of r' (words s') q x" for q x
  proof (cases "pte_of r' (words s) q x")
    case True
    then show ?thesis using c outC [OF True] unfolding copies_def by fastforce
  next
    case False
    then have "q = page_no a" "x = ?e'" using ptes that by blast+
    then show ?thesis using e nf ptes by auto
  qed
  show ?thesis using c k ptes dj' sameP child unfolding copies_def by simp
qed

lemma get_frame_shrink: "pmm_ok (frames (hp s)) \<Longrightarrow> get_frame s = (s1, n) \<Longrightarrow> frames_shrink s s1"
  using get_frame_effect(3,6) by (simp add: frames_shrink_def)

lemma clone_page_step:
  assumes c: "copies r r' s0 s Q" and r: "pml4_phys old = r" "pml4_phys new = r'"
    and a: "user_page (page_no a)" "a AND PAGE_OFFSET_MASK = 0" and ph: "mmu_resolve old a s \<noteq> 0"
    and g: "get_frame s = (s1, n)" "n \<noteq> 0"
    and m: "mmu_map new a n (mmu_get_flags old a s AND NOT PTE_COW) (copy_frame n (mmu_resolve old a s) s1) = (s2, res)"
  shows "copies r r' s0 s2 (insert (page_no a) Q)"
proof -
  have ok: "mem_ok r s" "mem_ok r' s" using c by (simp_all add: copies_def)
  obtain e where e: "pte_of r (words s) (page_no a) e" using mmu_resolve_mapped(1) [OF ok(1) r(1) a] ph by blast
  have phys: "mmu_resolve old a s = pte_get_frame e" by (rule mmu_resolve_mapped(2) [OF ok(1) r(1) a e])
  have fl: "mmu_get_flags old a s = e AND NOT PAGE_FRAME_MASK"
    by (rule mmu_resolve_pte(3) [OF mem_ok_pt [OF ok(1)] r(1) a(1) e])
  have e0: "pte_of r (words s0) (page_no a) e" "words s (pte_get_frame e) = words s0 (pte_get_frame e)"
    using c e owned_page [OF e] by (simp_all add: copies_def)
  have pm: "pmm_ok (frames (hp s))" using ok by (simp add: mem_ok_def pt_ok_def)
  note g1 = get_frame_mem [OF ok(2) g(1)]
  have free: "frame_free s n" using get_frame_effect(5) [OF pm g] by simp
  then have no: "n \<notin> owned r s" "n \<notin> owned r' s" using owned_not_free [OF ok(1)] owned_not_free [OF ok(2)] by blast+
  let ?s = "copy_frame n (mmu_resolve old a s) s1"
  have w: "words ?s = (words s)(n := words s (pte_get_frame e))" by (simp add: copy_frame_def g1(2) phys)
  have ff: "frame_free ?s t = frame_free s1 t" for t by (simp add: copy_frame_def frame_free_def)
  have sh: "frames_shrink s ?s" using get_frame_shrink [OF pm g(1)] by (simp add: frames_shrink_def ff) (simp add: copy_frame_def)
  have c1: "copies r r' s0 ?s Q" by (rule copies_words [OF c _ sh]) (use no w in auto)
  have fr: "fresh_frame r' ?s n"
    using fill_fresh(2) [OF g1(1) g1(3) [OF g(2)], of "words s1 (mmu_resolve old a s)"] by (simp add: copy_frame_def)
  have "n \<notin> owned r ?s" using c c1 no(1) by (simp add: copies_def)
  moreover have "(e AND NOT PAGE_FRAME_MASK AND NOT PTE_COW) AND PAGE_FRAME_MASK = 0"
    by (simp add: PAGE_FRAME_MASK_def PTE_COW_def and.assoc)
  ultimately show ?thesis
    using copies_map [OF c1 fr _ r(2) a(1) _ m e0(1)] w e0(2) unfolding fl by (simp add: and.assoc)
qed

section \<open>The loops\<close>

lemma clone_pages_copies:
  assumes "copies r r' s0 s Q" and "pml4_phys old = r" "pml4_phys new = r'"
    and "\<forall>v\<in>set vs. user_page (page_no v) \<and> v AND PAGE_OFFSET_MASK = 0" and "clone_pages old new vs s = (s', ok)"
  shows "copies r r' s0 s' (Q \<union> page_no ` set vs)"
  using assms(1,4,5)
proof (induction vs arbitrary: s Q)
  case (Cons a vs)
  have a: "user_page (page_no a)" "a AND PAGE_OFFSET_MASK = 0" using Cons.prems(2) by simp_all
  have vs: "\<forall>v\<in>set vs. user_page (page_no v) \<and> v AND PAGE_OFFSET_MASK = 0" using Cons.prems(2) by simp
  show ?case
  proof (cases "mmu_resolve old a s = 0")
    case True
    then have "copies r r' s0 s' (Q \<union> page_no ` set vs)" using Cons.IH [OF Cons.prems(1) vs] Cons.prems(3) by simp
    then show ?thesis by (rule copies_mono) auto
  next
    case False
    obtain s1 n where g: "get_frame s = (s1, n)" by fastforce
    obtain s2 res where m: "mmu_map new a n (mmu_get_flags old a s AND NOT PTE_COW) (copy_frame n (mmu_resolve old a s) s1) = (s2, res)"
      by fastforce
    show ?thesis
    proof (cases "n = 0")
      case True
      have "mem_ok r s" using Cons.prems(1) by (simp add: copies_def)
      then have "s' = s" using Cons.prems(3) False g True get_frame_mem(4) [of r s s1 n] by (simp add: Let_def)
      then show ?thesis using copies_mono [OF Cons.prems(1), of "Q \<union> page_no ` set (a # vs)"] by blast
    next
      case n: False
      have c: "copies r r' s0 s2 (insert (page_no a) Q)" by (rule clone_page_step [OF Cons.prems(1) assms(2,3) a False g n m])
      have "clone_pages old new vs s2 = (s', ok)" using Cons.prems(3) False g n m by (simp add: Let_def)
      then show ?thesis using Cons.IH [OF c vs] by simp
    qed
  qed
qed simp

lemma copies_heap:
  assumes "copies r r' s0 s Q" and "heap_shrinks (hp s) h"
  shows "copies r r' s0 (s\<lparr>hp := h\<rparr>) Q"
proof (rule copies_words [OF assms(1)])
  have "pmm_ok (frames (hp s))" using assms(1) by (simp add: copies_def mem_ok_def pt_ok_def)
  then show "frames_shrink s (s\<lparr>hp := h\<rparr>)" using assms(2) by (auto simp: frames_shrink_def heap_shrinks_def frame_free_def)
qed simp

lemma insert_vma_pt: "vmm_insert_vma v as = Inr as' \<Longrightarrow> pt as' = pt as"
  by (auto simp: vmm_insert_vma_def Let_def split: if_splits option.splits)

lemma area_pages:
  assumes "area_ok v"
  shows "\<forall>a\<in>set (pages_between (vma_start v) (vma_end v)). user_page (page_no a) \<and> a AND PAGE_OFFSET_MASK = 0"
    and "page_no ` set (pages_between (vma_start v) (vma_end v)) \<subseteq> {q. user_page q \<and> inside v (page_addr q)}"
proof -
  have al: "aligned (vma_start v)" "aligned (vma_end v)" using assms by (simp_all add: area_ok_def)
  note pb = pages_between_user [OF al(1) area_bounds(2) [OF assms]]
  show "\<forall>a\<in>set (pages_between (vma_start v) (vma_end v)). user_page (page_no a) \<and> a AND PAGE_OFFSET_MASK = 0" by (rule pb(1))
  show "page_no ` set (pages_between (vma_start v) (vma_end v)) \<subseteq> {q. user_page q \<and> inside v (page_addr q)}"
  proof
    fix q assume q: "q \<in> page_no ` set (pages_between (vma_start v) (vma_end v))"
    then have "user_page q" using pb(1) by blast
    then show "q \<in> {q. user_page q \<and> inside v (page_addr q)}" using q page_in_range [OF al] pb(2) by (simp add: inside_def)
  qed
qed

lemma clone_vmas_copies:
  assumes "copies r r' s0 s Q" and "pml4_phys old = r" and "pt new_as = Some new" "pml4_phys new = r'"
    and "\<forall>v\<in>set vs. area_ok v" and "clone_vmas old vs new_as s = (s', Some as')"
  shows "copies r r' s0 s' (Q \<union> {q. user_page q \<and> page_addr q \<in> covered vs}) \<and> pt as' = Some new"
  using assms(1,3,5,6)
proof (induction vs arbitrary: s Q new_as)
  case Nil
  then show ?case by simp
next
  case (Cons v vs)
  obtain h p where kz: "kzalloc sizeof_vm_area (hp s) = (h, p)" by fastforce
  have hs: "heap_shrinks (hp s) h" using kzalloc_shrinks [of "hp s" sizeof_vm_area] kz by simp
  have c: "copies r r' s0 (s\<lparr>hp := h\<rparr>) Q" by (rule copies_heap [OF Cons.prems(1) hs])
  have p: "p \<noteq> 0" using Cons.prems(4) kz by (auto simp: vmm_create_vma_def split: if_splits)
  obtain new_as' s2 ok where n: "pt new_as' = Some new" and
      cp: "clone_pages old new (pages_between (vma_start v) (vma_end v)) (s\<lparr>hp := h\<rparr>) = (s2, ok)"
    and rest: "ok \<Longrightarrow> clone_vmas old vs new_as' s2 = (s', Some as')" and ok: "ok"
  proof -
    let ?v = "\<lparr>vma_addr = p, vma_start = vma_start v, vma_end = vma_end v, vma_flags = vma_flags v, prot = prot v,
      vfile = vfile v, offset = offset v\<rparr>"
    let ?n = "case vmm_insert_vma ?v new_as of Inl _ \<Rightarrow> new_as | Inr as \<Rightarrow> as"
    have n: "pt ?n = Some new" using Cons.prems(2) insert_vma_pt by (simp split: sum.split)
    obtain s2 ok where cp: "clone_pages old new (pages_between (vma_start v) (vma_end v)) (s\<lparr>hp := h\<rparr>) = (s2, ok)" by fastforce
    have "(if ok then clone_vmas old vs ?n s2 else (vmm_destroy_address_space ?n s2, None)) = (s', Some as')"
      using Cons.prems(4) kz p n cp by (simp add: vmm_create_vma_def Let_def cong: if_cong)
    then show thesis using that [OF n cp] by (cases ok) simp_all
  qed
  have v: "area_ok v" "\<forall>v\<in>set vs. area_ok v" using Cons.prems(3) by simp_all
  have "copies r r' s0 s2 (Q \<union> page_no ` set (pages_between (vma_start v) (vma_end v)))"
    by (rule clone_pages_copies [OF c assms(2,4) area_pages(1) [OF v(1)] cp])
  then have "copies r r' s0 s2 (Q \<union> {q. user_page q \<and> inside v (page_addr q)})"
    by (rule copies_mono) (use area_pages(2) [OF v(1)] in blast)
  from Cons.IH [OF this n v(2) rest [OF ok]] show ?case
    by (auto elim!: copies_mono)
qed

section \<open>The new space\<close>

lemma root_only:
  assumes "\<And>i. i < 256 \<Longrightarrow> w r i = 0" and "table_at r w l p t"
  shows "l = 4 \<and> p = 0 \<and> t = r"
  using assms(2)
proof (induction rule: table_at.induct)
  case (at_child l p t i)
  then show ?case using assms(1) [of i] by auto
qed simp

lemma create_page_table_copies:
  assumes ok: "mem_ok r s" and c: "mmu_create_page_table s = (s', Some table)"
  shows "copies r (pml4_phys table) s s' {}"
proof -
  obtain h p where km: "kmalloc sizeof_page_table (hp s) = (h, p)" by fastforce
  let ?s1 = "s\<lparr>hp := h\<rparr>"
  obtain s2 n where g: "get_frame ?s1 = (s2, n)" by fastforce
  have nz: "p \<noteq> 0" "n \<noteq> 0" using c km g by (auto simp: mmu_create_page_table_def Let_def split: if_splits)
  let ?f = "\<lambda>i. if 256 \<le> i \<and> i < 512 then words (zero_frame n s2) (pml4_phys (kernel_pt s2)) i else 0"
  have s': "s' = s2\<lparr>words := (words s2)(n := ?f)\<rparr>" and t: "pml4_phys table = n"
    using c km g nz by (auto simp: mmu_create_page_table_def Let_def zero_frame_def fun_upd_def cong: if_cong)
  have hs: "heap_shrinks (hp s) h" using kmalloc_shrinks [of "hp s" sizeof_page_table] km by simp
  have pm: "pmm_ok (frames (hp s))" using ok by (simp add: mem_ok_def pt_ok_def)
  have pm1: "pmm_ok (frames (hp ?s1))" using hs pm by (simp add: heap_shrinks_def)
  note gf = get_frame_effect [OF pm1 g]
  have n: "frame_free ?s1 n" "\<not> frame_free s2 n" "pte_get_frame n = n" using gf(5) [OF nz(2)] by simp_all
  have was_free: "frame_free ?s1 x \<Longrightarrow> frame_free s x" for x using hs pm by (auto simp: frame_free_def heap_shrinks_def)
  have ff: "frame_free s' x = frame_free s2 x" for x by (simp add: s' frame_free_def)
  have sh: "frames_shrink s s'" using gf(3,6) was_free by (auto simp: frames_shrink_def ff) (simp add: s')
  have no: "n \<notin> owned r s" using owned_not_free [OF ok] was_free [OF n(1)] by blast
  have same: "words s' x = words s x" if "x \<in> owned r s" for x using that no gf(1) by (auto simp: s')
  note k = space_kept [OF ok same sh]
  have root: "l = 4 \<and> p = 0 \<and> x = n" if "table_at n (words s') l p x" for l p x
    by (rule root_only [OF _ that]) (simp add: s')
  have none: "\<not> pte_of n (words s') q e" for q e using root by (force simp: pte_of_def)
  have "tree_ok n (words s')" unfolding tree_ok_def by (intro conjI allI impI) (auto dest!: root)
  then have "pt_ok n s'" using sh root n(2) ff by (auto simp: pt_ok_def frames_shrink_def)
  then have child: "mem_ok n s'" using none n(3) by (simp add: mem_ok_def)
  have "owned n s' \<subseteq> {n}" using root none by (auto simp: owned_def)
  then show ?thesis using k child none same no unfolding copies_def t by auto
qed

lemma create_address_space_copies:
  assumes ok: "mem_ok r s" and c: "vmm_create_address_space s = (s', Some as)"
  obtains table where "pt as = Some table" and "copies r (pml4_phys table) s s' {}"
proof -
  obtain h p where kz: "kzalloc sizeof_address_space (hp s) = (h, p)" by fastforce
  have hs: "heap_shrinks (hp s) h" using kzalloc_shrinks [of "hp s" sizeof_address_space] kz by simp
  obtain s1 o1 where t: "mmu_create_page_table (s\<lparr>hp := h\<rparr>) = (s1, o1)" by fastforce
  obtain table where *: "s1 = s'" "o1 = Some table" "pt as = Some table"
    using c kz t by (auto simp: vmm_create_address_space_def Let_def split: if_splits option.splits)
  have sh: "frames_shrink s (s\<lparr>hp := h\<rparr>)"
    using hs ok by (auto simp: frames_shrink_def heap_shrinks_def frame_free_def mem_ok_def pt_ok_def)
  note k = space_kept [OF ok _ sh, simplified]
  have "copies r (pml4_phys table) (s\<lparr>hp := h\<rparr>) s' {}" using create_page_table_copies [OF k(1)] t * by simp
  then have "copies r (pml4_phys table) s s' {}" unfolding copies_def k(2) by (elim conjE, intro conjI) simp_all
  then show thesis using that *(3) by blast
qed

section \<open>The copy\<close>

text \<open>C1: Copying an address space leaves every translation and every page of the parent as it was. A page of the
  child is mapped only where the parent has a mapped page inside one of its areas, in a frame of its
  own with the contents of the parent's page. A page that no area covers, such as every page of the
  program break, is not mapped in the child.\<close>

theorem fork_copies_memory:
  assumes "as_ok as" and "pt as = Some table" and "pml4_phys table = r" and "mem_ok r s"
    and "vmm_clone_address_space as s = (s', Some as')"
  shows "\<exists>table'. pt as' = Some table' \<and> (\<forall>a. user_page (page_no a) \<longrightarrow> a AND PAGE_OFFSET_MASK = 0 \<longrightarrow>
    mmu_resolve table a s' = mmu_resolve table a s \<and>
    (mmu_resolve table a s \<noteq> 0 \<longrightarrow> words s' (mmu_resolve table a s) = words s (mmu_resolve table a s)) \<and>
    (mmu_resolve table' a s' = 0 \<or>
      page_addr (page_no a) \<in> covered (vma_list as) \<and> mmu_resolve table a s \<noteq> 0 \<and>
      mmu_resolve table' a s' \<noteq> mmu_resolve table a s \<and> words s' (mmu_resolve table' a s') = words s (mmu_resolve table a s)))"
proof -
  obtain s1 as1 where cr: "vmm_create_address_space s = (s1, Some as1)"
    using assms(5) by (auto simp: vmm_clone_address_space_def split: prod.splits option.splits)
  obtain s2 as2 where cl: "clone_vmas table (vma_list as) as1 s1 = (s', Some as2)" and pt2: "pt as' = pt as2"
    using assms(2,5) cr by (auto simp: vmm_clone_address_space_def split: prod.splits option.splits)
  obtain new where new: "pt as1 = Some new" "copies r (pml4_phys new) s s1 {}"
    by (rule create_address_space_copies [OF assms(4) cr])
  let ?r = "pml4_phys new"
  have areas: "\<forall>v\<in>set (vma_list as). area_ok v" using assms(1) by (simp add: as_ok_def areas_ok_def)
  have c: "copies r ?r s s' {q. user_page q \<and> page_addr q \<in> covered (vma_list as)}" and pt': "pt as' = Some new"
    using clone_vmas_copies [OF new(2) assms(3) new(1) refl areas cl] pt2 by simp_all
  have ok: "mem_ok r s'" "mem_ok ?r s'" using c by (simp_all add: copies_def)
  have ptes: "\<And>q e. pte_of r (words s') q e = pte_of r (words s) q e" using c by (simp add: copies_def)
  have "mmu_resolve table a s' = mmu_resolve table a s \<and>
    (mmu_resolve table a s \<noteq> 0 \<longrightarrow> words s' (mmu_resolve table a s) = words s (mmu_resolve table a s)) \<and>
    (mmu_resolve new a s' = 0 \<or> page_addr (page_no a) \<in> covered (vma_list as) \<and> mmu_resolve table a s \<noteq> 0 \<and>
      mmu_resolve new a s' \<noteq> mmu_resolve table a s \<and> words s' (mmu_resolve new a s') = words s (mmu_resolve table a s))"
    if a: "user_page (page_no a)" "a AND PAGE_OFFSET_MASK = 0" for a
  proof (intro conjI impI)
    note parent = mmu_resolve_mapped [OF assms(4,3) a] and child = mmu_resolve_mapped [OF ok(2) refl a]
    show "mmu_resolve table a s' = mmu_resolve table a s"
      by (rule observe_same [OF mem_ok_pt [OF assms(4)] mem_ok_pt [OF ok(1)] assms(3) a(1) ptes])
    show "words s' (mmu_resolve table a s) = words s (mmu_resolve table a s)" if "mmu_resolve table a s \<noteq> 0"
      using that parent c owned_page [of r s "page_no a"] unfolding copies_def by metis
    show "mmu_resolve new a s' = 0 \<or> page_addr (page_no a) \<in> covered (vma_list as) \<and> mmu_resolve table a s \<noteq> 0 \<and>
        mmu_resolve new a s' \<noteq> mmu_resolve table a s \<and> words s' (mmu_resolve new a s') = words s (mmu_resolve table a s)"
    proof (cases "mmu_resolve new a s' = 0")
      case False
      then obtain e' where e': "pte_of ?r (words s') (page_no a) e'" using child(1) by blast
      then obtain e where e: "page_addr (page_no a) \<in> covered (vma_list as)" "pte_of r (words s) (page_no a) e"
          "words s' (pte_get_frame e') = words s (pte_get_frame e)" using c unfolding copies_def by blast
      have "pte_get_frame e \<in> owned r s'" "pte_get_frame e' \<in> owned ?r s'"
        using owned_page [of r s' _ e] owned_page [OF e'] e(2) ptes by blast+
      then have "pte_get_frame e' \<noteq> pte_get_frame e" using c unfolding copies_def by (metis disjoint_iff)
      then show ?thesis using e child(2) [OF e'] parent(2) [OF e(2)] mem_ok_frame(1) [OF assms(4) e(2)] by simp
    qed simp
  qed
  then show ?thesis using pt' by blast
qed

subsection \<open>A parent whose program break has one page\<close>

definition vy_vm :: vmem where
  "vy_vm = vx_vm\<lparr>words := vx_words(0x303000 := (\<lambda>_. 0)(0 := 0x304007))\<rparr>"

definition vy_as :: address_space where
  "vy_as = vx_as\<lparr>vma_list := [], vma_count := 0, brk_start := 0x10000000, brk_end := 0x10001000\<rparr>"

lemma vy_tables: "table_at 0x300000 (words vy_vm) l p t \<longleftrightarrow> table_at 0x300000 vx_words l p t"
proof
  assume "table_at 0x300000 vx_words l p t"
  then show "table_at 0x300000 (words vy_vm) l p t"
  proof (induction rule: table_at.induct)
    case (at_child l p t i)
    have "t \<noteq> 0x303000" using vx_tables [OF at_child.hyps(1)] at_child.hyps(2) by auto
    then have "words vy_vm t = vx_words t" by (simp add: vy_vm_def)
    then show ?case using table_at.at_child [OF at_child.IH at_child.hyps(2-4)] at_child.hyps(5) by simp
  qed (rule table_at.at_root)
next
  assume "table_at 0x300000 (words vy_vm) l p t"
  then show "table_at 0x300000 vx_words l p t"
  proof (induction rule: table_at.induct)
    case (at_child l p t i)
    have "t \<noteq> 0x303000" using vx_tables [OF at_child.IH] at_child.hyps(2) by auto
    then have eq: "words vy_vm t = vx_words t" by (simp add: vy_vm_def)
    show ?case using table_at.at_child [OF at_child.IH at_child.hyps(2-4)] at_child.hyps(5) unfolding eq by blast
  qed (rule table_at.at_root)
qed

lemma vy_pages: "pte_of 0x300000 (words vy_vm) q e \<Longrightarrow> q = 0x10000 \<and> e = 0x304007"
proof -
  assume "pte_of 0x300000 (words vy_vm) q e"
  then obtain t where t: "table_at 0x300000 vx_words 1 (q div 512) t" "e = words vy_vm t (q mod 512)" "e AND PTE_PRESENT \<noteq> 0"
    unfolding pte_of_def vy_tables by blast
  then have "q div 512 = 0x80" "t = 0x303000" using vx_tables [OF t(1)] by auto
  moreover from this have "q mod 512 = 0" "e = 0x304007" using t(2,3) by (auto simp: vy_vm_def split: if_splits)
  ultimately show ?thesis using div_mult_mod_eq [of q 512] by simp
qed

lemma vy_ok: "mem_ok 0x300000 vy_vm" "as_ok vy_as"
proof -
  have ff: "frame_free vy_vm t \<longleftrightarrow> unat (phys_to_pfn t) \<in> {0x200..<0x204}" for t
    by (simp add: frame_free_def vy_vm_def vx_vm_def heap_example_def pmm_example_facts(3))
  have tree: "tree_ok 0x300000 (words vy_vm)"
    unfolding tree_ok_def vy_tables
  proof (intro conjI allI impI)
    fix l p l' p' t assume "table_at 0x300000 vx_words l p t" "table_at 0x300000 vx_words l' p' t"
    then show "l = l'" "p = p'" by (auto dest!: vx_tables)
  next
    fix l p t and i :: nat assume "table_at 0x300000 vx_words l p t" "l = 2 \<or> l = 3"
    then show "words vy_vm t i AND PTE_HUGE = 0" by (auto dest!: vx_tables simp: vy_vm_def vx_words_def PTE_HUGE_def)
  qed
  have "\<not> frame_free vy_vm t" if "table_at 0x300000 vx_words l p t" for l p t
    unfolding ff using vx_tables [OF that] by (auto simp: phys_to_pfn_def PAGE_SHIFT_def)
  then have pt: "pt_ok 0x300000 vy_vm"
    using tree pmm_example_facts(2) by (auto simp: pt_ok_def vy_tables) (simp add: vy_vm_def vx_vm_def heap_example_def)
  have fr: "pte_get_frame 0x304007 = 0x304000" "pte_get_frame 0x300000 = 0x300000" "\<not> frame_free vy_vm 0x304000"
    by (simp_all add: pte_get_frame_def PAGE_FRAME_MASK_def ff phys_to_pfn_def PAGE_SHIFT_def)
  have "\<not> table_at 0x300000 vx_words l p 0x304000" for l p by (auto dest!: vx_tables)
  then show "mem_ok 0x300000 vy_vm" using pt fr by (auto simp: mem_ok_def vy_tables dest!: vy_pages)
  show "as_ok vy_as" by (simp add: as_ok_def areas_ok_def vy_as_def)
qed

lemma vy_clone: "\<exists>s' as'. vmm_clone_address_space vy_as vy_vm = (s', Some as')"
proof -
  obtain h1 p1 where kz: "kzalloc sizeof_address_space (hp vy_vm) = (h1, p1)" by fastforce
  have h1: "p1 = 0x1000" "early_heap_current h1 = 0x1090" "early_heap_end h1 = 0x100000" "\<not> slab_initialized h1" "frames h1 = pmm_example"
    using kz by (auto simp: vy_vm_def vx_vm_def heap_example_def kzalloc_def kmalloc_def early_alloc_def sizeof_address_space_def
        Let_def ALIGN_UP_def)
  obtain h2 p2 where km: "kmalloc sizeof_page_table h1 = (h2, p2)" by fastforce
  have h2: "p2 = 0x1090" "frames h2 = pmm_example"
    using km h1 by (auto simp: kmalloc_def early_alloc_def sizeof_page_table_def Let_def ALIGN_UP_def)
  obtain s1 n where g: "get_frame (vy_vm\<lparr>hp := h2\<rparr>) = (s1, n)" by fastforce
  have "n \<noteq> 0" using get_frame_total [of "vy_vm\<lparr>hp := h2\<rparr>" s1] g h2(2) pmm_example_facts(2,3) by auto
  then obtain s2 table where "mmu_create_page_table (vy_vm\<lparr>hp := h1\<rparr>) = (s2, Some table)"
    using km g h2(1) by (simp add: mmu_create_page_table_def Let_def)
  then obtain as1 where "vmm_create_address_space vy_vm = (s2, Some as1)"
    using kz h1(1) by (simp add: vmm_create_address_space_def)
  then show ?thesis by (simp add: vmm_clone_address_space_def vy_as_def)
qed

theorem fork_copies_memory_witness:
  "\<exists>s' as' table'. vmm_clone_address_space vy_as vy_vm = (s', Some as') \<and> pt as' = Some table' \<and>
     mmu_resolve vx_pt 0x10000000 vy_vm = 0x304000 \<and> mmu_resolve vx_pt 0x10000000 s' = 0x304000 \<and> mmu_resolve table' 0x10000000 s' = 0"
proof -
  obtain s' as' where c: "vmm_clone_address_space vy_as vy_vm = (s', Some as')" using vy_clone by blast
  have h: "pt vy_as = Some vx_pt" "pml4_phys vx_pt = 0x300000" by (simp_all add: vy_as_def vx_as_def vx_pt_def)
  have p: "mmu_resolve vx_pt 0x10000000 vy_vm = 0x304000"
    by (simp add: mmu_resolve_def paging_walk_def paging_get_entry_def next_table_def entry_at_def PML4_INDEX_def PDPT_INDEX_def
        PD_INDEX_def PT_INDEX_def vy_vm_def vx_words_def vx_pt_def PTE_PRESENT_def PTE_HUGE_def pte_get_frame_def
        PAGE_FRAME_MASK_def PAGE_OFFSET_MASK_def)
  have u: "user_page (page_no 0x10000000)" "(0x10000000 :: u64) AND PAGE_OFFSET_MASK = 0" "covered (vma_list vy_as) = {}"
    by (simp_all add: user_page_def page_no_def PAGE_OFFSET_MASK_def vy_as_def)
  show ?thesis using fork_copies_memory [OF vy_ok(2) h vy_ok(1) c] c p u by auto
qed

end
