(* ===== verification/Vmm_Brk.thy ===== *)
theory Vmm_Brk
  imports Vmm_Clone
begin

text \<open>Moving the program break: what a successful growth maps, and what a failed one leaves behind.\<close>

definition heap_page :: "u64 \<Rightarrow> vmem \<Rightarrow> nat \<Rightarrow> bool" where
  "heap_page r s q \<longleftrightarrow> (\<exists>e. pte_of r (words s) q e \<and> words s (pte_get_frame e) = (\<lambda>_. 0) \<and>
     e AND NOT PAGE_FRAME_MASK = PTE_PRESENT OR PTE_WRITABLE OR PTE_USER)"

definition brk_flags :: u64 where "brk_flags = PTE_PRESENT OR PTE_WRITABLE OR PTE_USER"

lemma brk_flags_fields: "brk_flags AND PAGE_FRAME_MASK = 0" "brk_flags OR PTE_PRESENT = PTE_PRESENT OR PTE_WRITABLE OR PTE_USER"
  by (simp_all add: brk_flags_def PTE_PRESENT_def PTE_WRITABLE_def PTE_USER_def PAGE_FRAME_MASK_def)

lemma fill_mapped:
  assumes "mem_ok r s" and "pte_of r (words s) q e"
  shows "mem_ok r (s\<lparr>words := (words s)(pte_get_frame e := f)\<rparr>)"
    and "pte_of r ((words s)(pte_get_frame e := f)) q' x = pte_of r (words s) q' x"
proof -
  have nt: "\<not> table_at r (words s) l p (pte_get_frame e)" for l p by (rule mem_ok_frame(3) [OF assms])
  note ff = fill_frame [of r "words s" "pte_get_frame e" f, OF nt]
  show "pte_of r ((words s)(pte_get_frame e := f)) q' x = pte_of r (words s) q' x" by (rule ff(2))
  show "mem_ok r (s\<lparr>words := (words s)(pte_get_frame e := f)\<rparr>)"
    using assms(1) fill_frame_pt_ok [OF mem_ok_pt [OF assms(1)] nt] by (simp add: mem_ok_def ff frame_free_def)
qed

lemma brk_page_step:
  assumes ok: "mem_ok r s" and r: "pml4_phys table = r" and a: "user_page (page_no a)"
    and g: "get_frame s = (s1, n)" "n \<noteq> 0" and m: "mmu_map table a n brk_flags s1 = (s2, Inr ())"
  shows "mem_ok r (zero_frame n s2)" and "heap_page r (zero_frame n s2) (page_no a)"
    and "q \<noteq> page_no a \<Longrightarrow> pte_of r (words (zero_frame n s2)) q e = pte_of r (words s) q e"
    and "q \<noteq> page_no a \<Longrightarrow> heap_page r s q \<Longrightarrow> heap_page r (zero_frame n s2) q"
proof -
  note g1 = get_frame_mem [OF ok g(1)]
  have fr: "fresh_frame r s1 n" by (rule g1(3) [OF g(2)])
  note mf = map_fresh(1) [OF g1(1) fr r a brk_flags_fields(1) m refl, unfolded g1(2) brk_flags_fields(2)]
  let ?e = "pte_make n (PTE_PRESENT OR PTE_WRITABLE OR PTE_USER)"
  have ok2: "mem_ok r s2" and e: "pte_of r (words s2) (page_no a) ?e" using mf by simp_all
  have fe: "pte_get_frame ?e = n" "?e AND NOT PAGE_FRAME_MASK = PTE_PRESENT OR PTE_WRITABLE OR PTE_USER"
    using pte_make_fields(1,3) [OF brk_flags_fields(1), of n] fr unfolding brk_flags_fields(2) by (simp_all add: fresh_frame_def)
  note fm = fill_mapped [OF ok2 e, of "\<lambda>_. 0", unfolded fe(1)]
  show "mem_ok r (zero_frame n s2)" using fm(1) by (simp add: zero_frame_def)
  show "heap_page r (zero_frame n s2) (page_no a)"
    unfolding heap_page_def by (rule exI [of _ ?e]) (use e fe fm(2) in \<open>simp add: zero_frame_def\<close>)
  show pq: "pte_of r (words (zero_frame n s2)) q e = pte_of r (words s) q e" if "q \<noteq> page_no a" for q e
    using that mf fm(2) by (simp add: zero_frame_def)
  show "heap_page r (zero_frame n s2) q" if q: "q \<noteq> page_no a" "heap_page r s q"
  proof -
    obtain x where x: "pte_of r (words s) q x" "words s (pte_get_frame x) = (\<lambda>_. 0)"
      "x AND NOT PAGE_FRAME_MASK = PTE_PRESENT OR PTE_WRITABLE OR PTE_USER" using q(2) by (auto simp: heap_page_def)
    have x1: "pte_of r (words s1) q x" using x(1) g1(2) by simp
    have "words s2 (pte_get_frame x) = words s1 (pte_get_frame x)"
      using mmu_map_within [OF mem_ok_pt [OF g1(1)] r a brk_flags_fields(1) m] mem_ok_frame(2,3) [OF g1(1) x1]
      by (simp add: stays_within_def within_def)
    moreover have "pte_get_frame x \<noteq> n" using fr x1 by (auto simp: fresh_frame_def)
    ultimately show ?thesis using x pq [OF q(1)] unfolding heap_page_def by (intro exI [of _ x]) (simp add: zero_frame_def g1(2))
  qed
qed

lemma brk_grow_effect:
  assumes "mem_ok r s" and "pml4_phys table = r" and "\<forall>v\<in>set vs. user_page (page_no v)" and "distinct (map page_no vs)"
    and "brk_grow table vs s = (s', ok)"
  shows "mem_ok r s' \<and> (\<exists>us ws. vs = us @ ws \<and> (ok \<longleftrightarrow> ws = []) \<and> (\<forall>v\<in>set us. heap_page r s' (page_no v)) \<and>
    (\<forall>q e. q \<notin> page_no ` set us \<longrightarrow> pte_of r (words s') q e = pte_of r (words s) q e) \<and>
    (\<forall>q. q \<notin> page_no ` set vs \<longrightarrow> heap_page r s q \<longrightarrow> heap_page r s' q))"
  using assms(1,3-5)
proof (induction vs arbitrary: s)
  case (Cons a vs)
  have a: "user_page (page_no a)" "\<forall>v\<in>set vs. user_page (page_no v)" "distinct (map page_no vs)" "page_no a \<notin> page_no ` set vs"
    using Cons.prems(2,3) by simp_all
  obtain s1 n where g: "get_frame s = (s1, n)" by fastforce
  obtain s2 res where m: "mmu_map table a n brk_flags s1 = (s2, res)" by fastforce
  note g1 = get_frame_mem [OF Cons.prems(1) g]
  have run: "brk_grow table (a # vs) s = (if mmu_resolve table a s \<noteq> 0 then (s, False) else if n = 0 then (s1, False)
      else case res of Inl _ \<Rightarrow> (put_frame n s2, False) | Inr _ \<Rightarrow> brk_grow table vs (zero_frame n s2))"
    using g m by (simp add: Let_def brk_flags_def split: sum.split)
  consider (stop) "mmu_resolve table a s \<noteq> 0 \<or> n = 0" | (refused) x where "mmu_resolve table a s = 0" "n \<noteq> 0" "res = Inl x"
    | (mapped) "mmu_resolve table a s = 0" "n \<noteq> 0" "res = Inr ()"
    by (cases res) auto
  then show ?case
  proof cases
    case stop
    then have "s' = s" "\<not> ok" using run Cons.prems(4) g1(4) by (auto split: if_splits)
    then show ?thesis using Cons.prems(1) by - (rule conjI, simp, rule exI [of _ "[]"], rule exI [of _ "a # vs"], simp)
  next
    case refused
    have fr: "fresh_frame r s1 n" by (rule g1(3) [OF refused(2)])
    have s': "s' = put_frame n s2" "\<not> ok" using run Cons.prems(4) refused by simp_all
    have x: "mem_ok r s2" "fresh_frame r s2 n" "\<And>q e. pte_of r (words s2) q e = pte_of r (words s) q e"
      using map_fresh(2) [OF g1(1) fr assms(2) a(1) brk_flags_fields(1) m refused(3)] g1(2) by simp_all
    have w: "words s' = words s2" by (simp add: s' put_frame_def)
    have "heap_page r s' q" if hp: "heap_page r s q" for q
    proof -
      obtain y where y: "pte_of r (words s1) q y" "words s1 (pte_get_frame y) = (\<lambda>_. 0)"
        "y AND NOT PAGE_FRAME_MASK = PTE_PRESENT OR PTE_WRITABLE OR PTE_USER" using hp g1(2) by (auto simp: heap_page_def)
      have "words s2 (pte_get_frame y) = words s1 (pte_get_frame y)"
        using mmu_map_within [OF mem_ok_pt [OF g1(1)] assms(2) a(1) brk_flags_fields(1) m] mem_ok_frame(2,3) [OF g1(1) y(1)]
        by (simp add: stays_within_def within_def)
      then show ?thesis using y x(3) g1(2) unfolding heap_page_def w by auto
    qed
    then show ?thesis using s' x put_fresh [OF x(1,2)] w
      by - (rule conjI, simp, rule exI [of _ "[]"], rule exI [of _ "a # vs"], simp)
  next
    case mapped
    note st = brk_page_step [OF Cons.prems(1) assms(2) a(1) g mapped(2) m [unfolded mapped(3)]]
    have "brk_grow table vs (zero_frame n s2) = (s', ok)" using run Cons.prems(4) mapped by simp
    from Cons.IH [OF st(1) a(2,3) this] obtain us ws where u: "mem_ok r s'" "vs = us @ ws" "ok \<longleftrightarrow> ws = []"
      "\<forall>v\<in>set us. heap_page r s' (page_no v)"
      "\<And>q e. q \<notin> page_no ` set us \<Longrightarrow> pte_of r (words s') q e = pte_of r (words (zero_frame n s2)) q e"
      "\<And>q. q \<notin> page_no ` set vs \<Longrightarrow> heap_page r (zero_frame n s2) q \<Longrightarrow> heap_page r s' q" by blast
    have "heap_page r s' (page_no a)" using u(6) [OF a(4) st(2)] .
    then show ?thesis
      using u st(3,4) by - (rule conjI, simp, rule exI [of _ "a # us"], rule exI [of _ ws], auto)
  qed
qed auto

lemma prefix_pages:
  assumes "map page_no vs = [m..<n]" and "vs = us @ ws" and "m \<le> n"
  shows "page_no ` set us = {m..<m + length us}" and "m + length us \<le> n" and "ws = [] \<Longrightarrow> m + length us = n"
proof -
  have len: "length us + length ws = n - m" using arg_cong [OF assms(1), of length] assms(2) by simp
  have "map page_no us = take (length us) [m..<n]" using arg_cong [OF assms(1), of "take (length us)"] assms(2) by simp
  also have "\<dots> = [m..<m + length us]" using len assms(3) by simp
  finally have "set (map page_no us) = set [m..<m + length us]" by simp
  then show "page_no ` set us = {m..<m + length us}" by simp
  show "m + length us \<le> n" "ws = [] \<Longrightarrow> m + length us = n" using len assms(3) by simp_all
qed

text \<open>The step of the break to a page that is already mapped fails.\<close>

lemma brk_blocked:
  assumes "pt as = Some table" and "mmu_resolve table (brk_end as) s \<noteq> 0" and "brk_end as < ALIGN_UP addr PAGE_SIZE"
  shows "snd (vmm_brk addr as s) = - 1"
proof -
  let ?new = "ALIGN_UP addr PAGE_SIZE"
  have "addr \<noteq> 0" using assms(3) by (auto simp: ALIGN_UP_def PAGE_SIZE_def)
  have "0 < (unat ?new - unat (brk_end as) + 4095) div 4096"
    using assms(3) by (simp add: word_less_nat_alt div_greater_zero_iff)
  then obtain ps where "pages_between (brk_end as) ?new = brk_end as # ps"
    by (simp add: pages_between_def upt_conv_Cons)
  then show ?thesis using assms \<open>addr \<noteq> 0\<close> by (simp add: vmm_brk_def Let_def)
qed

lemma heap_page_seen:
  assumes "mem_ok r s" and "pml4_phys table = r" and "user_page (page_no a)" "a AND PAGE_OFFSET_MASK = 0" and "heap_page r s (page_no a)"
  shows "mmu_resolve table a s \<noteq> 0 \<and> words s (mmu_resolve table a s) = (\<lambda>_. 0) \<and>
    mmu_get_flags table a s = PTE_PRESENT OR PTE_WRITABLE OR PTE_USER"
proof -
  obtain e where e: "pte_of r (words s) (page_no a) e" "words s (pte_get_frame e) = (\<lambda>_. 0)"
    "e AND NOT PAGE_FRAME_MASK = PTE_PRESENT OR PTE_WRITABLE OR PTE_USER" using assms(5) by (auto simp: heap_page_def)
  show ?thesis
    using mmu_resolve_mapped [OF assms(1-4)] mmu_resolve_pte(3) [OF mem_ok_pt [OF assms(1)] assms(2,3) e(1)] e by auto
qed

lemma brk_grow_range:
  assumes ok: "mem_ok r s" and r: "pml4_phys table = r" and al: "aligned lo" "aligned hi" "lo \<le> hi" "unat hi \<le> 2 ^ 47"
    and b: "brk_grow table (pages_between lo hi) s = (s', full)"
  obtains reached where "mem_ok r s'" and "lo \<le> reached" "reached \<le> hi" "full \<Longrightarrow> reached = hi"
    and "\<And>a. user_page (page_no a) \<Longrightarrow> a AND PAGE_OFFSET_MASK = 0 \<Longrightarrow>
      (if page_addr (page_no a) \<in> span lo reached then heap_page r s' (page_no a) else mmu_resolve table a s' = mmu_resolve table a s)"
proof -
  obtain m k where mk: "unat lo = 4096 * m" "unat hi = 4096 * k" using al(1,2) by (auto simp: aligned_def dvd_def mod_eq_0_iff_dvd)
  have le: "m \<le> k" using al(3) mk by (simp add: word_le_nat_alt)
  note pb = pages_between_user [OF al(1,4)]
  have pages: "map page_no (pages_between lo hi) = [m..<k]" using pb(3) mk by simp
  obtain us ws where u: "mem_ok r s'" "pages_between lo hi = us @ ws" "full \<longleftrightarrow> ws = []" "\<forall>v\<in>set us. heap_page r s' (page_no v)"
    "\<And>q e. q \<notin> page_no ` set us \<Longrightarrow> pte_of r (words s') q e = pte_of r (words s) q e"
    using brk_grow_effect [OF ok r _ _ b] pb(1) pages by auto
  note px = prefix_pages [OF pages u(2) le]
  define top where "top = m + length us"
  note px = px [folded top_def]
  have k47: "4096 * k \<le> 2 ^ 47" using al(4) mk(2) by simp
  have ut: "unat (page_addr top) = 4096 * top"
    unfolding page_addr_def using px(2) k47 by (subst unat_word_of_nat) simp_all
  have range: "page_addr q \<in> span lo (page_addr top) \<longleftrightarrow> q \<in> page_no ` set us" if "user_page q" for q
    using unat_page_addr [OF that] mk(1) ut unfolding px(1) span_def by (simp add: word_le_nat_alt word_less_nat_alt)
  show thesis
  proof (rule that [OF u(1)])
    show "lo \<le> page_addr top" using mk(1) ut by (simp add: word_le_nat_alt) (simp add: top_def)
    show "page_addr top \<le> hi" using mk(2) ut px(2) by (simp add: word_le_nat_alt)
    show "page_addr top = hi" if "full" using px(3) u(3) that mk(2) ut by (simp add: word_unat_eq_iff)
    fix a assume a: "user_page (page_no a)" "a AND PAGE_OFFSET_MASK = 0"
    show "if page_addr (page_no a) \<in> span lo (page_addr top) then heap_page r s' (page_no a) else mmu_resolve table a s' = mmu_resolve table a s"
    proof (cases "page_no a \<in> page_no ` set us")
      case True
      then show ?thesis using range [OF a(1)] u(4) by auto
    next
      case False
      then have "mmu_resolve table a s' = mmu_resolve table a s"
        by (intro observe_same [OF mem_ok_pt [OF ok] mem_ok_pt [OF u(1)] r a(1)] u(5))
      then show ?thesis using False range [OF a(1)] by simp
    qed
  qed
qed

text \<open>C28: Growing the program break maps zeroed, writable user pages from the old break on and changes no other
  page. Success returns the new break with every page up to it mapped. Failure returns -1 and keeps
  the break, but also the pages mapped so far; once there is such a page, no later growth succeeds.\<close>

theorem vmm_brk_grows:
  assumes "mem_ok r s" and "pt as = Some table" and "pml4_phys table = r" and "aligned (brk_end as)" and "brk_start as \<le> brk_end as"
    and "brk_end as < ALIGN_UP addr PAGE_SIZE" and "unat (ALIGN_UP addr PAGE_SIZE) \<le> 2 ^ 47"
    and "vmm_brk addr as s = ((as', s'), res)"
  defines "new \<equiv> ALIGN_UP addr PAGE_SIZE"
  shows "mem_ok r s' \<and> (\<exists>reached. brk_end as \<le> reached \<and> reached \<le> new \<and>
    (\<forall>a. user_page (page_no a) \<longrightarrow> a AND PAGE_OFFSET_MASK = 0 \<longrightarrow>
      (if page_addr (page_no a) \<in> span (brk_end as) reached
       then mmu_resolve table a s' \<noteq> 0 \<and> words s' (mmu_resolve table a s') = (\<lambda>_. 0) \<and>
         mmu_get_flags table a s' = PTE_PRESENT OR PTE_WRITABLE OR PTE_USER
       else mmu_resolve table a s' = mmu_resolve table a s)) \<and>
    (res = new \<and> reached = new \<and> as' = as\<lparr>brk_end := new\<rparr> \<or>
     res = - 1 \<and> as' = as \<and>
       (brk_end as < reached \<longrightarrow> (\<forall>addr'. brk_end as < ALIGN_UP addr' PAGE_SIZE \<longrightarrow> snd (vmm_brk addr' as' s') = - 1))))"
proof -
  let ?vs = "pages_between (brk_end as) new"
  have "addr \<noteq> 0" "\<not> new < brk_start as" using assms(5,6) by (auto simp: new_def ALIGN_UP_def PAGE_SIZE_def)
  obtain s1 full where b: "brk_grow table ?vs s = (s1, full)" by fastforce
  have run: "s' = s1" "if full then res = new \<and> as' = as\<lparr>brk_end := new\<rparr> else res = - 1 \<and> as' = as"
    using assms(2,6,8) \<open>addr \<noteq> 0\<close> \<open>\<not> new < brk_start as\<close> b by (auto simp: vmm_brk_def new_def Let_def split: if_splits bool.splits)
  have "new = ALIGN_DOWN (addr + 4095) PAGE_SIZE" by (simp add: new_def ALIGN_UP_def ALIGN_DOWN_def PAGE_SIZE_def)
  then have al: "aligned new" "brk_end as \<le> new" "unat new \<le> 2 ^ 47"
    using unat_ALIGN_DOWN [of "addr + 4095"] assms(6,7) by (simp_all add: aligned_def new_def)
  obtain top where t: "mem_ok r s1" "brk_end as \<le> top" "top \<le> new" "full \<Longrightarrow> top = new"
    "\<And>a. user_page (page_no a) \<Longrightarrow> a AND PAGE_OFFSET_MASK = 0 \<Longrightarrow>
      (if page_addr (page_no a) \<in> span (brk_end as) top then heap_page r s1 (page_no a) else mmu_resolve table a s1 = mmu_resolve table a s)"
    by (rule brk_grow_range [OF assms(1,3,4) al b]) (rule that)
  have seen: "if page_addr (page_no a) \<in> span (brk_end as) top
       then mmu_resolve table a s' \<noteq> 0 \<and> words s' (mmu_resolve table a s') = (\<lambda>_. 0) \<and>
         mmu_get_flags table a s' = PTE_PRESENT OR PTE_WRITABLE OR PTE_USER
       else mmu_resolve table a s' = mmu_resolve table a s"
    if a: "user_page (page_no a)" "a AND PAGE_OFFSET_MASK = 0" for a
    using t(5) [OF a] heap_page_seen [OF t(1) assms(3) a] run(1) by (simp split: if_splits)
  have final: "snd (vmm_brk addr' as s') = - 1" if "brk_end as < top" "brk_end as < ALIGN_UP addr' PAGE_SIZE" for addr'
  proof -
    have ub: "page_no (brk_end as) = unat (brk_end as) div 4096" "user_page (page_no (brk_end as))"
      using user_byte [of "brk_end as"] less_le_trans [OF that(1) t(3)] al(3) by (simp_all add: word_less_nat_alt)
    have "page_addr (page_no (brk_end as)) = brk_end as"
      using unat_page_addr [OF ub(2)] ub(1) assms(4)
      by (simp add: word_unat_eq_iff aligned_def minus_mod_eq_mult_div [symmetric])
    moreover have "brk_end as AND PAGE_OFFSET_MASK = 0" using assms(4) by (simp add: offset_mask_zero aligned_def)
    ultimately have "mmu_resolve table (brk_end as) s' \<noteq> 0" using seen [OF ub(2)] that(1) by (simp add: span_def)
    then show ?thesis by (rule brk_blocked [OF assms(2) _ that(2)])
  qed
  show ?thesis
  proof (intro conjI exI [of _ top])
    show "mem_ok r s'" "brk_end as \<le> top" "top \<le> new" using t(1-3) run(1) by simp_all
    show "res = new \<and> top = new \<and> as' = as\<lparr>brk_end := new\<rparr> \<or> res = - 1 \<and> as' = as \<and>
       (brk_end as < top \<longrightarrow> (\<forall>addr'. brk_end as < ALIGN_UP addr' PAGE_SIZE \<longrightarrow> snd (vmm_brk addr' as' s') = - 1))"
      using run(2) t(4) final by (cases full) auto
  qed (use seen in blast)
qed

definition vz_as :: address_space where
  "vz_as = vx_as\<lparr>brk_start := 0x10010000, brk_end := 0x10010000\<rparr>"

theorem vmm_brk_grows_witness:
  "\<exists>s'. vmm_brk 0x10010800 vz_as vx_vm = ((vz_as\<lparr>brk_end := 0x10011000\<rparr>, s'), 0x10011000) \<and> mem_ok 0x300000 s' \<and>
     mmu_resolve vx_pt 0x10010000 s' \<noteq> 0 \<and> words s' (mmu_resolve vx_pt 0x10010000 s') = (\<lambda>_. 0)"
proof -
  have h: "mem_ok 0x300000 vx_vm" "pt vz_as = Some vx_pt" "pml4_phys vx_pt = 0x300000" "aligned (brk_end vz_as)"
    "brk_start vz_as \<le> brk_end vz_as" "ALIGN_UP 0x10010800 PAGE_SIZE = (0x10011000 :: u64)" "brk_end vz_as = 0x10010000"
    using vx_ok(1) by (simp_all add: vz_as_def vx_as_def vx_pt_def vm_ok_def aligned_def ALIGN_UP_def PAGE_SIZE_def)
  obtain s1 n where g: "get_frame vx_vm = (s1, n)" by fastforce
  note vf = vx_frame [OF g]
  have p: "page_no 0x10010000 = 0x10010" "user_page 0x10010" "(0x10010000 :: u64) AND PAGE_OFFSET_MASK = 0"
    by (simp_all add: page_no_def user_page_def PAGE_OFFSET_MASK_def)
  have z: "mmu_resolve vx_pt 0x10010000 vx_vm = 0"
    using mmu_resolve_pte(2) [OF mem_ok_pt [OF h(1)] h(3)] vx_no_pages p by (simp add: vx_vm_def)
  have "snd (mmu_map vx_pt 0x10010000 n (PTE_PRESENT OR PTE_WRITABLE OR PTE_USER) s1) = Inr ()"
    using vf by (simp add: mmu_map_def paging_walk_def paging_get_entry_def next_table_def entry_at_def
      ALIGN_DOWN_def PAGE_SIZE_def PML4_INDEX_def PDPT_INDEX_def PD_INDEX_def PT_INDEX_def vx_words_def vx_pt_def
      PTE_PRESENT_def PTE_HUGE_def PTE_WRITABLE_def PTE_USER_def pte_get_frame_def PAGE_FRAME_MASK_def)
  then obtain s2 where m: "mmu_map vx_pt 0x10010000 n (PTE_PRESENT OR PTE_WRITABLE OR PTE_USER) s1 = (s2, Inr ())"
    by (metis prod.collapse)
  have pg: "pages_between 0x10010000 0x10011000 = [0x10010000]" by (simp add: pages_between_def)
  have b: "vmm_brk 0x10010800 vz_as vx_vm = ((vz_as\<lparr>brk_end := 0x10011000\<rparr>, zero_frame n s2), 0x10011000)"
    using g m z vf(1) h(2,6,7) by (simp add: vmm_brk_def pg Let_def) (simp add: vz_as_def)
  have lt: "brk_end vz_as < ALIGN_UP 0x10010800 PAGE_SIZE" "unat (ALIGN_UP 0x10010800 PAGE_SIZE :: u64) \<le> 2 ^ 47"
    unfolding h(6,7) by simp_all
  have sp: "page_addr 0x10010 \<in> span 0x10010000 0x10011000" by (simp add: page_addr_def span_def)
  have "(0x10011000 :: u64) \<noteq> - 1" by simp
  then show ?thesis
    using vmm_brk_grows [OF h(1-5) lt b] b p sp unfolding h(6,7) by auto
qed

end
