(* ===== verification/Dcache.thy ===== *)
theory Dcache
  imports Slab
begin

text \<open>
  Inodes, directory entries and open files: \<^verbatim>\<open>fs/inode.c\<close>, \<^verbatim>\<open>fs/dentry.c\<close> and the reference counting
  half of \<^verbatim>\<open>fs/file.c\<close>. An object is named by its address, 0 is \<^verbatim>\<open>NULL\<close>, and its fields are kept in a
  store; the memory itself comes from the slab caches of the kernel heap. The lists linked through
  \<^verbatim>\<open>d_subdirs\<close>, \<^verbatim>\<open>i_dentry\<close> and the inode hash chains are the lists of the linked objects. Names are byte
  lists without the closing zero. The operations a file system installs in its superblock are an
  argument, indexed by the superblock, and so are the identifiers of the current process.
\<close>

section \<open>State\<close>

type_synonym name = "u8 list"

record inode =
  i_ino :: u64
  i_mode :: u32
  i_nlink :: u32
  i_uid :: u32
  i_gid :: u32
  i_rdev :: u64
  i_size :: u64
  i_atime :: u64
  i_mtime :: u64
  i_ctime :: u64
  i_blksize :: u64
  i_blocks :: u64
  i_op :: u64
  i_fop :: u64
  i_sb :: u64
  i_private :: u64
  i_count :: int
  i_flags :: u32
  i_dentry :: "u64 list"

record dentry =
  d_name :: name
  d_inode :: u64
  d_parent :: u64
  d_sb :: u64
  d_subdirs :: "u64 list"
  d_count :: int
  d_flags :: u32

record filp =
  f_dentry :: u64
  f_op :: u64
  f_pos :: u64
  f_flags :: u32
  f_mode :: u32
  private_data :: u64
  f_count :: int

record super_block =
  s_dev :: u64
  s_blocksize :: u64
  s_root :: u64

record vfs =
  vheap :: heap
  inodes :: "u64 \<Rightarrow> inode"
  dentries :: "u64 \<Rightarrow> dentry"
  filps :: "u64 \<Rightarrow> filp"
  supers :: "u64 \<Rightarrow> super_block"
  inode_hashtable :: "u64 list list"
  inode_cache_initialized :: bool
  inode_cache :: u64
  dentry_cache :: u64
  file_cache :: u64

record super_operations =
  alloc_inode :: "(u64 \<Rightarrow> vfs \<Rightarrow> vfs \<times> u64) option"
  destroy_inode :: "(u64 \<Rightarrow> vfs \<Rightarrow> vfs) option"
  dirty_inode :: "(u64 \<Rightarrow> vfs \<Rightarrow> vfs) option"
  drop_inode :: "(u64 \<Rightarrow> vfs \<Rightarrow> vfs) option"
  delete_inode :: "(u64 \<Rightarrow> vfs \<Rightarrow> vfs) option"

type_synonym s_ops = "u64 \<Rightarrow> super_operations option"

definition NAME_MAX :: nat where "NAME_MAX = 255"
definition INODE_HASH_SIZE :: u32 where "INODE_HASH_SIZE = 4096"
definition I_DIRTY :: u32 where "I_DIRTY = 1"
definition I_LOCK :: u32 where "I_LOCK = 2"
definition I_NEW :: u32 where "I_NEW = 4"
definition I_CLEAR :: u32 where "I_CLEAR = 16"
definition MAY_EXEC :: u32 where "MAY_EXEC = 1"
definition MAY_WRITE :: u32 where "MAY_WRITE = 2"
definition MAY_READ :: u32 where "MAY_READ = 4"
definition S_IFMT :: u32 where "S_IFMT = 0xF000"
definition S_IFDIR :: u32 where "S_IFDIR = 0x4000"
definition S_ISGID :: u32 where "S_ISGID = 0x400"
definition S_ISDIR :: "u32 \<Rightarrow> bool" where "S_ISDIR m \<longleftrightarrow> m AND S_IFMT = S_IFDIR"

definition empty_inode :: inode where
  "empty_inode = \<lparr>i_ino = 0, i_mode = 0, i_nlink = 0, i_uid = 0, i_gid = 0, i_rdev = 0, i_size = 0, i_atime = 0, i_mtime = 0,
     i_ctime = 0, i_blksize = 0, i_blocks = 0, i_op = 0, i_fop = 0, i_sb = 0, i_private = 0, i_count = 0, i_flags = 0, i_dentry = []\<rparr>"

definition empty_file :: filp where
  "empty_file = \<lparr>f_dentry = 0, f_op = 0, f_pos = 0, f_flags = 0, f_mode = 0, private_data = 0, f_count = 0\<rparr>"

definition upd_inode :: "u64 \<Rightarrow> (inode \<Rightarrow> inode) \<Rightarrow> vfs \<Rightarrow> vfs" where
  "upd_inode i f v = v\<lparr>inodes := (inodes v)(i := f (inodes v i))\<rparr>"

definition upd_dentry :: "u64 \<Rightarrow> (dentry \<Rightarrow> dentry) \<Rightarrow> vfs \<Rightarrow> vfs" where
  "upd_dentry d f v = v\<lparr>dentries := (dentries v)(d := f (dentries v d))\<rparr>"

definition upd_file :: "u64 \<Rightarrow> (filp \<Rightarrow> filp) \<Rightarrow> vfs \<Rightarrow> vfs" where
  "upd_file fl f v = v\<lparr>filps := (filps v)(fl := f (filps v fl))\<rparr>"

section \<open>The inode cache\<close>

definition inode_hash :: "u64 \<Rightarrow> u64 \<Rightarrow> nat" where
  "inode_hash sb ino = unat ((ucast sb XOR ucast ino) AND (INODE_HASH_SIZE - 1))"

definition inode_cache_init :: "vfs \<Rightarrow> vfs" where
  "inode_cache_init v =
     (if inode_cache_initialized v then v
      else v\<lparr>inode_hashtable := replicate (unat INODE_HASH_SIZE) [], inode_cache_initialized := True\<rparr>)"

definition ihold :: "u64 \<Rightarrow> vfs \<Rightarrow> vfs" where
  "ihold i v = (if i \<noteq> 0 then upd_inode i (\<lambda>x. x\<lparr>i_count := i_count x + 1\<rparr>) v else v)"

definition igrab :: "u64 \<Rightarrow> vfs \<Rightarrow> vfs \<times> u64" where
  "igrab i v =
     (if i \<noteq> 0 \<and> 0 < i_count (inodes v i) then (upd_inode i (\<lambda>x. x\<lparr>i_count := i_count x + 1\<rparr>) v, i) else (v, 0))"

definition inode_cache_lookup :: "u64 \<Rightarrow> u64 \<Rightarrow> vfs \<Rightarrow> vfs \<times> u64" where
  "inode_cache_lookup sb ino v =
     (let v = inode_cache_init v
      in case find (\<lambda>i. i_sb (inodes v i) = sb \<and> i_ino (inodes v i) = ino) (inode_hashtable v ! inode_hash sb ino) of
           Some i \<Rightarrow> (ihold i v, i)
         | None \<Rightarrow> (v, 0))"

definition inode_cache_insert :: "u64 \<Rightarrow> vfs \<Rightarrow> vfs" where
  "inode_cache_insert i v =
     (if i = 0 \<or> i_sb (inodes v i) = 0 then v
      else let v = inode_cache_init v; h = inode_hash (i_sb (inodes v i)) (i_ino (inodes v i))
        in v\<lparr>inode_hashtable := (inode_hashtable v)[h := i # inode_hashtable v ! h]\<rparr>)"

definition inode_cache_remove :: "u64 \<Rightarrow> vfs \<Rightarrow> vfs" where
  "inode_cache_remove i v =
     (if i = 0 then v
      else let v = inode_cache_init v in v\<lparr>inode_hashtable := map (remove1 i) (inode_hashtable v)\<rparr>)"

definition inode_init_once :: "u64 \<Rightarrow> vfs \<Rightarrow> vfs" where
  "inode_init_once i v = upd_inode i (\<lambda>_. empty_inode) v"

definition new_inode :: "s_ops \<Rightarrow> u64 \<Rightarrow> vfs \<Rightarrow> vfs \<times> u64" where
  "new_inode ops sb v =
     (let (v, i) = (case Option.bind (ops sb) alloc_inode of
             Some f \<Rightarrow> f sb v
           | None \<Rightarrow> let (h, i) = kmem_cache_zalloc (inode_cache v) (vheap v) in (v\<lparr>vheap := h\<rparr>, i))
      in if i = 0 then (v, 0)
         else (upd_inode i (\<lambda>x. x\<lparr>i_sb := sb, i_blksize := s_blocksize (supers v sb), i_flags := I_NEW, i_count := 1\<rparr>)
                 (inode_init_once i v), i))"

definition free_inode :: "s_ops \<Rightarrow> u64 \<Rightarrow> vfs \<Rightarrow> vfs" where
  "free_inode ops i v =
     (if i = 0 then v
      else case (if i_sb (inodes v i) = 0 then None else Option.bind (ops (i_sb (inodes v i))) destroy_inode) of
          Some f \<Rightarrow> f i v
        | None \<Rightarrow> v\<lparr>vheap := kmem_cache_free (inode_cache v) i (vheap v)\<rparr>)"

text \<open>An operation of the superblock, when the superblock has it.\<close>

definition call_sb :: "(super_operations \<Rightarrow> (u64 \<Rightarrow> vfs \<Rightarrow> vfs) option) \<Rightarrow> s_ops \<Rightarrow> u64 \<Rightarrow> vfs \<Rightarrow> vfs" where
  "call_sb sel ops i v =
     (case (if i_sb (inodes v i) = 0 then None else Option.bind (ops (i_sb (inodes v i))) sel) of Some f \<Rightarrow> f i v | None \<Rightarrow> v)"

definition iput :: "s_ops \<Rightarrow> u64 \<Rightarrow> vfs \<Rightarrow> vfs" where
  "iput ops i v =
     (if i = 0 then v
      else let v = upd_inode i (\<lambda>x. x\<lparr>i_count := i_count x - 1\<rparr>) v
        in if i_count (inodes v i) = 0
           then free_inode ops i (call_sb delete_inode ops i (call_sb drop_inode ops i (inode_cache_remove i v)))
           else v)"

definition iget_locked :: "s_ops \<Rightarrow> u64 \<Rightarrow> u64 \<Rightarrow> vfs \<Rightarrow> vfs \<times> u64" where
  "iget_locked ops sb ino v =
     (let (v, i) = inode_cache_lookup sb ino v
      in if i \<noteq> 0 then (v, i)
         else let (v, i) = new_inode ops sb v
           in if i = 0 then (v, 0)
              else (inode_cache_insert i (upd_inode i (\<lambda>x. x\<lparr>i_ino := ino\<rparr>) v), i))"

definition unlock_new_inode :: "u64 \<Rightarrow> vfs \<Rightarrow> vfs" where
  "unlock_new_inode i = upd_inode i (\<lambda>x. x\<lparr>i_flags := i_flags x AND NOT I_NEW\<rparr>)"

definition mark_inode_dirty :: "s_ops \<Rightarrow> u64 \<Rightarrow> vfs \<Rightarrow> vfs" where
  "mark_inode_dirty ops i v =
     (if i = 0 then v else call_sb dirty_inode ops i (upd_inode i (\<lambda>x. x\<lparr>i_flags := i_flags x OR I_DIRTY\<rparr>) v))"

definition clear_inode :: "u64 \<Rightarrow> vfs \<Rightarrow> vfs" where
  "clear_inode i = upd_inode i (\<lambda>x. x\<lparr>i_flags := i_flags x OR I_CLEAR\<rparr>)"

definition inode_trylock :: "u64 \<Rightarrow> vfs \<Rightarrow> vfs \<times> bool" where
  "inode_trylock i v =
     (if i_flags (inodes v i) AND I_LOCK \<noteq> 0 then (v, False)
      else (upd_inode i (\<lambda>x. x\<lparr>i_flags := i_flags x OR I_LOCK\<rparr>) v, True))"

definition inode_unlock :: "u64 \<Rightarrow> vfs \<Rightarrow> vfs" where
  "inode_unlock i = upd_inode i (\<lambda>x. x\<lparr>i_flags := i_flags x AND NOT I_LOCK\<rparr>)"

section \<open>Ownership and permission\<close>

text \<open>The file system user and group of the current process; \<^const>\<open>None\<close> is no current process.\<close>

type_synonym ids = "(u32 \<times> u32) option"

definition fsuid_of :: "ids \<Rightarrow> u32" where "fsuid_of who = (case who of Some (u, g) \<Rightarrow> u | None \<Rightarrow> 0)"
definition fsgid_of :: "ids \<Rightarrow> u32" where "fsgid_of who = (case who of Some (u, g) \<Rightarrow> g | None \<Rightarrow> 0)"

definition inode_init_owner :: "ids \<Rightarrow> u64 \<Rightarrow> u64 \<Rightarrow> u32 \<Rightarrow> vfs \<Rightarrow> vfs" where
  "inode_init_owner who i dir mode v =
     (let v = upd_inode i (\<lambda>x. x\<lparr>i_uid := fsuid_of who\<rparr>) v
      in if dir \<noteq> 0 \<and> i_mode (inodes v dir) AND S_ISGID \<noteq> 0
         then upd_inode i (\<lambda>x. x\<lparr>i_gid := i_gid (inodes v dir), i_mode := (if S_ISDIR mode then mode OR S_ISGID else mode)\<rparr>) v
         else upd_inode i (\<lambda>x. x\<lparr>i_gid := fsgid_of who, i_mode := mode\<rparr>) v)"

definition generic_permission :: "ids \<Rightarrow> inode \<Rightarrow> u32 \<Rightarrow> unit res" where
  "generic_permission who ino msk =
     (let uid = fsuid_of who; gid = fsgid_of who
      in if uid = 0 then Inr ()
         else
           let bits = (if uid = i_uid ino then drop_bit 6 (i_mode ino) AND 7
                       else if gid = i_gid ino then drop_bit 3 (i_mode ino) AND 7
                       else i_mode ino AND 7)
           in if msk AND MAY_READ \<noteq> 0 \<and> bits AND 4 = 0 then Inl EACCES
              else if msk AND MAY_WRITE \<noteq> 0 \<and> bits AND 2 = 0 then Inl EACCES
              else if msk AND MAY_EXEC \<noteq> 0 \<and> bits AND 1 = 0 then Inl EACCES
              else Inr ())"

record kstat =
  st_dev :: u64
  st_ino :: u64
  st_mode :: u32
  st_nlink :: u32
  st_uid :: u32
  st_gid :: u32
  st_rdev :: u64
  st_size :: u64
  st_atime :: u64
  st_mtime :: u64
  st_ctime :: u64
  st_blksize :: u64
  st_blocks :: u64

definition generic_getattr :: "u64 \<Rightarrow> vfs \<Rightarrow> kstat" where
  "generic_getattr d v =
     (let x = inodes v (d_inode (dentries v d))
      in \<lparr>st_dev = (if i_sb x \<noteq> 0 then s_dev (supers v (i_sb x)) else 0), st_ino = i_ino x, st_mode = i_mode x, st_nlink = i_nlink x,
          st_uid = i_uid x, st_gid = i_gid x, st_rdev = i_rdev x, st_size = i_size x, st_atime = i_atime x, st_mtime = i_mtime x,
          st_ctime = i_ctime x, st_blksize = i_blksize x, st_blocks = i_blocks x\<rparr>)"

section \<open>Directory entries\<close>

definition dget :: "u64 \<Rightarrow> vfs \<Rightarrow> vfs" where
  "dget d v = (if d \<noteq> 0 then upd_dentry d (\<lambda>x. x\<lparr>d_count := d_count x + 1\<rparr>) v else v)"

definition dentry_alloc :: "u64 \<Rightarrow> name \<Rightarrow> vfs \<Rightarrow> vfs \<times> u64" where
  "dentry_alloc parent nm v =
     (let (h, d) = kmem_cache_zalloc (dentry_cache v) (vheap v); v = v\<lparr>vheap := h\<rparr>
      in if d = 0 then (v, 0)
         else
           let v = dget parent v;
               v = upd_dentry d (\<lambda>_. \<lparr>d_name = take NAME_MAX nm, d_inode = 0, d_parent = (if parent \<noteq> 0 then parent else d),
                     d_sb = (if parent \<noteq> 0 then d_sb (dentries v parent) else 0), d_subdirs = [], d_count = 1, d_flags = 0\<rparr>) v
           in (if parent \<noteq> 0 \<and> parent \<noteq> d then upd_dentry parent (\<lambda>x. x\<lparr>d_subdirs := d # d_subdirs x\<rparr>) v else v, d))"

text \<open>The two unlinks at the start of \<^verbatim>\<open>dentry_free\<close>, and its end.\<close>

definition unlink_dentry :: "u64 \<Rightarrow> vfs \<Rightarrow> vfs" where
  "unlink_dentry d v =
     (let p = d_parent (dentries v d);
          v = upd_dentry p (\<lambda>x. x\<lparr>d_subdirs := remove1 d (d_subdirs x)\<rparr>) v;
          i = d_inode (dentries v d)
      in if i \<noteq> 0 then upd_inode i (\<lambda>x. x\<lparr>i_dentry := remove1 d (i_dentry x)\<rparr>) v else v)"

definition release_dentry :: "s_ops \<Rightarrow> u64 \<Rightarrow> vfs \<Rightarrow> vfs" where
  "release_dentry ops d v =
     (let v = (if d_inode (dentries v d) \<noteq> 0 then iput ops (d_inode (dentries v d)) v else v)
      in v\<lparr>vheap := kmem_cache_free (dentry_cache v) d (vheap v)\<rparr>)"

text \<open>Dropping a reference frees an entry that has none left, which drops the reference to its parent.
  \<^const>\<open>None\<close> is a recursion that does not end.\<close>

partial_function (option) dput :: "s_ops \<Rightarrow> u64 \<Rightarrow> vfs \<Rightarrow> vfs option" where
  "dput ops d v =
     (if d = 0 then Some v
      else
        let v = upd_dentry d (\<lambda>x. x\<lparr>d_count := d_count x - 1\<rparr>) v
        in if d_count (dentries v d) \<noteq> 0 then Some v
           else
             let v = unlink_dentry d v; p = d_parent (dentries v d)
             in if p \<noteq> 0 \<and> p \<noteq> d
                then Option.bind (dput ops p v) (\<lambda>v. Some (release_dentry ops d v))
                else Some (release_dentry ops d v))"

definition dentry_free :: "s_ops \<Rightarrow> u64 \<Rightarrow> vfs \<Rightarrow> vfs option" where
  "dentry_free ops d v =
     (if d = 0 then Some v
      else
        let v = unlink_dentry d v; p = d_parent (dentries v d)
        in if p \<noteq> 0 \<and> p \<noteq> d
           then Option.bind (dput ops p v) (\<lambda>v. Some (release_dentry ops d v))
           else Some (release_dentry ops d v))"

definition d_instantiate :: "u64 \<Rightarrow> u64 \<Rightarrow> vfs \<Rightarrow> vfs" where
  "d_instantiate d i v =
     (let old = d_inode (dentries v d);
          v = (if old \<noteq> 0 then upd_inode old (\<lambda>x. x\<lparr>i_dentry := remove1 d (i_dentry x)\<rparr>) v else v);
          v = upd_dentry d (\<lambda>x. x\<lparr>d_inode := i\<rparr>) v
      in if i \<noteq> 0 then upd_inode i (\<lambda>x. x\<lparr>i_dentry := d # i_dentry x\<rparr>) v else v)"

definition d_add :: "u64 \<Rightarrow> u64 \<Rightarrow> vfs \<Rightarrow> vfs" where
  "d_add = d_instantiate"

definition d_make_root :: "s_ops \<Rightarrow> u64 \<Rightarrow> vfs \<Rightarrow> vfs \<times> u64" where
  "d_make_root ops i v =
     (if i = 0 then (v, 0)
      else let (v, d) = dentry_alloc 0 [0x2F] v
        in if d = 0 then (iput ops i v, 0)
           else (d_instantiate d i (upd_dentry d (\<lambda>x. x\<lparr>d_sb := i_sb (inodes v i)\<rparr>) v), d))"

definition d_delete :: "u64 \<Rightarrow> vfs \<Rightarrow> vfs" where
  "d_delete d v =
     (if d \<noteq> 0 \<and> d_inode (dentries v d) \<noteq> 0
      then upd_dentry d (\<lambda>x. x\<lparr>d_inode := 0\<rparr>)
             (upd_inode (d_inode (dentries v d)) (\<lambda>x. x\<lparr>i_dentry := remove1 d (i_dentry x)\<rparr>) v)
      else v)"

definition d_lookup :: "u64 \<Rightarrow> name \<Rightarrow> vfs \<Rightarrow> vfs \<times> u64" where
  "d_lookup parent nm v =
     (case find (\<lambda>d. d_name (dentries v d) = nm) (d_subdirs (dentries v parent)) of
        Some d \<Rightarrow> (dget d v, d)
      | None \<Rightarrow> (v, 0))"

section \<open>Open files\<close>

definition alloc_file :: "u64 \<Rightarrow> u32 \<Rightarrow> u64 \<Rightarrow> vfs \<Rightarrow> vfs \<times> u64" where
  "alloc_file d mode fops v =
     (let (h, fl) = kmem_cache_zalloc (file_cache v) (vheap v); v = v\<lparr>vheap := h\<rparr>
      in if fl = 0 then (v, 0)
         else (upd_file fl (\<lambda>_. empty_file\<lparr>f_dentry := d, f_op := fops, f_mode := mode, f_count := 1\<rparr>) (dget d v), fl))"

definition free_file :: "s_ops \<Rightarrow> u64 \<Rightarrow> vfs \<Rightarrow> vfs option" where
  "free_file ops fl v =
     (if fl = 0 then Some v
      else case (if f_dentry (filps v fl) \<noteq> 0 then dput ops (f_dentry (filps v fl)) v else Some v) of
          None \<Rightarrow> None
        | Some v \<Rightarrow> Some (v\<lparr>vheap := kmem_cache_free (file_cache v) fl (vheap v)\<rparr>))"

definition get_file :: "u64 \<Rightarrow> vfs \<Rightarrow> vfs" where
  "get_file fl v = (if fl \<noteq> 0 then upd_file fl (\<lambda>x. x\<lparr>f_count := f_count x + 1\<rparr>) v else v)"

definition put_file :: "s_ops \<Rightarrow> u64 \<Rightarrow> vfs \<Rightarrow> vfs option" where
  "put_file ops fl v =
     (if fl = 0 then Some v
      else let v = upd_file fl (\<lambda>x. x\<lparr>f_count := f_count x - 1\<rparr>) v
        in if f_count (filps v fl) = 0 then free_file ops fl v else Some v)"

end
