(* ===== verification/Fdtable.thy ===== *)
theory Fdtable
  imports Dcache
begin

text \<open>
  File descriptors: the descriptor tables of \<^verbatim>\<open>proc/process.c\<close>, the descriptor half of \<^verbatim>\<open>fs/file.c\<close> and the
  system calls that copy and close descriptors in \<^verbatim>\<open>arch/x86_64/process/syscall.c\<close>. A table is named by its
  address and \<^verbatim>\<open>fds\<close> is its array. The operations that work on the current process take the address
  of its table, 0 standing for no process or no table.
\<close>

section \<open>State\<close>

record fd_entry =
  fd_file :: u64
  fd_flags :: u32

record fd_table =
  fds_addr :: u64
  fds :: "fd_entry list"
  max_fds :: nat
  next_fd :: nat
  fdt_refcount :: int

record fdstate =
  fs :: vfs
  tables :: "u64 \<Rightarrow> fd_table"

definition PROC_MAX_FDS :: nat where "PROC_MAX_FDS = 1024"
definition sizeof_fd_table :: u64 where "sizeof_fd_table = 32"
definition sizeof_fd_entry :: u64 where "sizeof_fd_entry = 16"

definition no_fd :: fd_entry where "no_fd = \<lparr>fd_file = 0, fd_flags = 0\<rparr>"

definition upd_table :: "u64 \<Rightarrow> (fd_table \<Rightarrow> fd_table) \<Rightarrow> fdstate \<Rightarrow> fdstate" where
  "upd_table t f s = s\<lparr>tables := (tables s)(t := f (tables s t))\<rparr>"

definition set_fd :: "u64 \<Rightarrow> nat \<Rightarrow> fd_entry \<Rightarrow> fdstate \<Rightarrow> fdstate" where
  "set_fd t i e = upd_table t (\<lambda>x. x\<lparr>fds := (fds x)[i := e]\<rparr>)"

section \<open>Tables\<close>

definition fd_table_create :: "fdstate \<Rightarrow> fdstate \<times> u64" where
  "fd_table_create s =
     (let (h, fdt) = kzalloc sizeof_fd_table (vheap (fs s)); s = s\<lparr>fs := (fs s)\<lparr>vheap := h\<rparr>\<rparr>
      in if fdt = 0 then (s, 0)
         else let (h, arr) = kzalloc (sizeof_fd_entry * of_nat PROC_MAX_FDS) (vheap (fs s)); s = s\<lparr>fs := (fs s)\<lparr>vheap := h\<rparr>\<rparr>
           in if arr = 0 then (s\<lparr>fs := (fs s)\<lparr>vheap := kfree fdt (vheap (fs s))\<rparr>\<rparr>, 0)
              else (upd_table fdt (\<lambda>_. \<lparr>fds_addr = arr, fds = replicate PROC_MAX_FDS no_fd, max_fds = PROC_MAX_FDS,
                      next_fd = 3, fdt_refcount = 1\<rparr>) s, fdt))"

definition fd_get :: "u64 \<Rightarrow> int \<Rightarrow> fdstate \<Rightarrow> u64" where
  "fd_get t fd s =
     (if 0 \<le> fd \<and> fd < int (max_fds (tables s t)) then fd_file (fds (tables s t) ! nat fd) else 0)"

text \<open>The loop of \<^verbatim>\<open>fd_table_clone\<close> over the descriptors.\<close>

fun clone_fds :: "u64 \<Rightarrow> u64 \<Rightarrow> nat list \<Rightarrow> fdstate \<Rightarrow> fdstate" where
  "clone_fds old new [] s = s"
| "clone_fds old new (i # js) s =
     (let e = fds (tables s old) ! i
      in clone_fds old new js
          (if fd_file e \<noteq> 0
           then let s = set_fd new i e s in s\<lparr>fs := get_file (fd_file e) (fs s)\<rparr>
           else s))"

definition fd_table_clone :: "u64 \<Rightarrow> fdstate \<Rightarrow> fdstate \<times> u64" where
  "fd_table_clone old s =
     (let (s, new) = fd_table_create s
      in if new = 0 then (s, 0)
         else (upd_table new (\<lambda>x. x\<lparr>next_fd := next_fd (tables s old)\<rparr>)
                 (clone_fds old new [0..<max_fds (tables s old)] s), new))"

text \<open>The loop of \<^verbatim>\<open>fd_table_free\<close>. \<^const>\<open>None\<close> is a release of a directory entry that does not end.\<close>

fun free_fds :: "s_ops \<Rightarrow> u64 \<Rightarrow> nat list \<Rightarrow> fdstate \<Rightarrow> fdstate option" where
  "free_fds ops t [] s = Some s"
| "free_fds ops t (i # js) s =
     (let e = fds (tables s t) ! i
      in if fd_file e \<noteq> 0
         then case put_file ops (fd_file e) (fs s) of None \<Rightarrow> None
           | Some v \<Rightarrow> free_fds ops t js (set_fd t i no_fd (s\<lparr>fs := v\<rparr>))
         else free_fds ops t js s)"

definition fd_table_free :: "s_ops \<Rightarrow> u64 \<Rightarrow> fdstate \<Rightarrow> fdstate option" where
  "fd_table_free ops t s =
     (if t = 0 then Some s
      else
        let s = upd_table t (\<lambda>x. x\<lparr>fdt_refcount := fdt_refcount x - 1\<rparr>) s
        in if fdt_refcount (tables s t) \<noteq> 0 then Some s
           else case free_fds ops t [0..<max_fds (tables s t)] s of None \<Rightarrow> None
             | Some s \<Rightarrow> Some (s\<lparr>fs := (fs s)\<lparr>vheap := kfree t (kfree (fds_addr (tables s t)) (vheap (fs s)))\<rparr>\<rparr>))"

section \<open>Descriptors\<close>

definition first_free :: "fd_table \<Rightarrow> nat list \<Rightarrow> nat option" where
  "first_free x is = find (\<lambda>i. fd_file (fds x ! i) = 0) is"

definition fd_alloc :: "u64 \<Rightarrow> u64 \<Rightarrow> u32 \<Rightarrow> fdstate \<Rightarrow> fdstate \<times> nat res" where
  "fd_alloc t fl flgs s =
     (if t = 0 \<or> fl = 0 then (s, Inl EINVAL)
      else
        let s = (if next_fd (tables s t) < 3 then upd_table t (\<lambda>x. x\<lparr>next_fd := 3\<rparr>) s else s);
            x = tables s t;
            take_fd = (\<lambda>i. (upd_table t (\<lambda>x. x\<lparr>next_fd := i + 1\<rparr>) (set_fd t i \<lparr>fd_file = fl, fd_flags = flgs\<rparr> s), Inr i))
        in case first_free x [next_fd x..<max_fds x] of
            Some i \<Rightarrow> take_fd i
          | None \<Rightarrow> (case first_free x [3..<next_fd x] of Some i \<Rightarrow> take_fd i | None \<Rightarrow> (s, Inl EMFILE)))"

definition lower_next :: "u64 \<Rightarrow> nat \<Rightarrow> fdstate \<Rightarrow> fdstate" where
  "lower_next t fd = upd_table t (\<lambda>x. if fd < next_fd x then x\<lparr>next_fd := max fd 3\<rparr> else x)"

definition fd_free :: "u64 \<Rightarrow> int \<Rightarrow> fdstate \<Rightarrow> fdstate" where
  "fd_free t fd s =
     (if 3 \<le> fd \<and> fd < int (max_fds (tables s t)) then lower_next t (nat fd) (set_fd t (nat fd) no_fd s) else s)"

section \<open>Descriptors of the current process\<close>

definition fget :: "u64 \<Rightarrow> int \<Rightarrow> fdstate \<Rightarrow> fdstate \<times> u64" where
  "fget t fd s =
     (if t = 0 then (s, 0)
      else let fl = fd_get t fd s in (if fl \<noteq> 0 then s\<lparr>fs := get_file fl (fs s)\<rparr> else s, fl))"

definition get_unused_fd_flags :: "u64 \<Rightarrow> u32 \<Rightarrow> fdstate \<Rightarrow> fdstate \<times> nat res" where
  "get_unused_fd_flags t flgs s =
     (if t = 0 then (s, Inl EBADF)
      else case first_free (tables s t) [3..<max_fds (tables s t)] of
          Some i \<Rightarrow> (set_fd t i ((fds (tables s t) ! i)\<lparr>fd_flags := flgs\<rparr>) s, Inr i)
        | None \<Rightarrow> (s, Inl EMFILE))"

definition put_unused_fd :: "u64 \<Rightarrow> int \<Rightarrow> fdstate \<Rightarrow> fdstate" where
  "put_unused_fd t fd s = (if t \<noteq> 0 \<and> 3 \<le> fd \<and> fd < int (max_fds (tables s t)) then set_fd t (nat fd) no_fd s else s)"

definition fd_install :: "u64 \<Rightarrow> int \<Rightarrow> u64 \<Rightarrow> fdstate \<Rightarrow> fdstate" where
  "fd_install t fd fl s =
     (if t \<noteq> 0 \<and> 0 \<le> fd \<and> fd < int (max_fds (tables s t))
      then set_fd t (nat fd) ((fds (tables s t) ! nat fd)\<lparr>fd_file := fl\<rparr>) s else s)"

definition close_fd :: "s_ops \<Rightarrow> u64 \<Rightarrow> int \<Rightarrow> fdstate \<Rightarrow> (fdstate \<times> unit res) option" where
  "close_fd ops t fd s =
     (if t = 0 then Some (s, Inl EBADF)
      else if fd < 0 \<or> int (max_fds (tables s t)) \<le> fd then Some (s, Inl EBADF)
      else if fd \<le> 2 then Some (s, Inr ())
      else
        let fl = fd_file (fds (tables s t) ! nat fd)
        in if fl = 0 then Some (s, Inl EBADF)
           else let s = set_fd t (nat fd) no_fd s
             in case put_file ops fl (fs s) of None \<Rightarrow> None | Some v \<Rightarrow> Some (s\<lparr>fs := v\<rparr>, Inr ()))"

section \<open>System calls\<close>

text \<open>\<^verbatim>\<open>sys_close\<close> of a descriptor that is not a socket.\<close>

definition sys_close :: "s_ops \<Rightarrow> u64 \<Rightarrow> int \<Rightarrow> fdstate \<Rightarrow> (fdstate \<times> unit res) option" where
  "sys_close ops t fd s =
     (if t = 0 then Some (s, Inl EBADF)
      else if fd < 0 \<or> int (max_fds (tables s t)) \<le> fd then Some (s, Inl EBADF)
      else
        let fl = fd_get t fd s
        in if fl = 0 then Some (s, Inl EBADF)
           else
             let s = set_fd t (nat fd) no_fd s;
                 s = (if 3 \<le> fd then lower_next t (nat fd) s else s)
             in case put_file ops fl (fs s) of None \<Rightarrow> None | Some v \<Rightarrow> Some (s\<lparr>fs := v\<rparr>, Inr ()))"

definition sys_dup :: "u64 \<Rightarrow> int \<Rightarrow> fdstate \<Rightarrow> fdstate \<times> nat res" where
  "sys_dup t oldfd s =
     (if t = 0 then (s, Inl EBADF)
      else if oldfd < 0 \<or> int (max_fds (tables s t)) \<le> oldfd then (s, Inl EBADF)
      else
        let fl = fd_get t oldfd s
        in if fl = 0 then (s, Inl EBADF)
           else case fd_alloc t fl (fd_flags (fds (tables s t) ! nat oldfd)) s of
               (s, Inl e) \<Rightarrow> (s, Inl e)
             | (s, Inr newfd) \<Rightarrow> (s\<lparr>fs := get_file fl (fs s)\<rparr>, Inr newfd))"

definition sys_dup2 :: "s_ops \<Rightarrow> u64 \<Rightarrow> int \<Rightarrow> int \<Rightarrow> fdstate \<Rightarrow> (fdstate \<times> int res) option" where
  "sys_dup2 ops t oldfd newfd s =
     (if t = 0 then Some (s, Inl EBADF)
      else if oldfd < 0 \<or> int (max_fds (tables s t)) \<le> oldfd then Some (s, Inl EBADF)
      else if newfd < 0 \<or> int (max_fds (tables s t)) \<le> newfd then Some (s, Inl EBADF)
      else
        let fl = fd_get t oldfd s
        in if fl = 0 then Some (s, Inl EBADF)
           else if oldfd = newfd then Some (s, Inr newfd)
           else
             let old_target = fd_get t newfd s
             in case (if old_target \<noteq> 0
                      then let s = set_fd t (nat newfd) no_fd s
                        in (case put_file ops old_target (fs s) of None \<Rightarrow> None | Some v \<Rightarrow> Some (s\<lparr>fs := v\<rparr>))
                      else Some s) of
                 None \<Rightarrow> None
               | Some s \<Rightarrow>
                   let s = s\<lparr>fs := get_file fl (fs s)\<rparr>
                   in Some (set_fd t (nat newfd) \<lparr>fd_file = fl, fd_flags = fd_flags (fds (tables s t) ! nat oldfd)\<rparr> s, Inr newfd))"

end
