(* ===== verification/Dcache_Refs.thy ===== *)
theory Dcache_Refs
  imports Dcache Slab_Heap
begin

text \<open>
  Reference counting of directory entries. A state is described by the set of live entries and the
  number of references held outside the tree (by open files, mounts and callers); every entry also
  holds a reference to its parent. Dropping an outside reference ends, and leaves exactly the entries
  that are still needed.
\<close>

section \<open>The invariant\<close>

definition kids :: "u64 set \<Rightarrow> (u64 \<Rightarrow> dentry) \<Rightarrow> u64 \<Rightarrow> u64 set" where
  "kids L ds d = {c \<in> L. c \<noteq> d \<and> d_parent (ds c) = d}"

definition ranked :: "u64 set \<Rightarrow> (u64 \<Rightarrow> dentry) \<Rightarrow> (u64 \<Rightarrow> nat) \<Rightarrow> bool" where
  "ranked L ds rank \<longleftrightarrow> (\<forall>d\<in>L. d_parent (ds d) \<noteq> d \<longrightarrow> rank (d_parent (ds d)) < rank d)"

definition refs_ok :: "u64 set \<Rightarrow> (u64 \<Rightarrow> nat) \<Rightarrow> (u64 \<Rightarrow> dentry) \<Rightarrow> bool" where
  "refs_ok L ext ds \<longleftrightarrow> finite L \<and> 0 \<notin> L \<and> (\<exists>rank. ranked L ds rank) \<and>
     (\<forall>d\<in>L. d_parent (ds d) \<in> L \<and> 0 < d_count (ds d) \<and> d_count (ds d) = int (ext d) + int (card (kids L ds d)) \<and>
        distinct (d_subdirs (ds d)) \<and> set (d_subdirs (ds d)) = kids L ds d)"

text \<open>An entry and the entries above it.\<close>

inductive above :: "(u64 \<Rightarrow> dentry) \<Rightarrow> u64 \<Rightarrow> u64 \<Rightarrow> bool" for ds where
  above_self: "above ds c c"
| above_parent: "above ds c x \<Longrightarrow> above ds (d_parent (ds c)) x"

definition needed :: "u64 set \<Rightarrow> (u64 \<Rightarrow> nat) \<Rightarrow> (u64 \<Rightarrow> dentry) \<Rightarrow> u64 set" where
  "needed L ext ds = {c \<in> L. \<exists>x\<in>L. 0 < ext x \<and> above ds c x}"

lemma above_trans: "above ds c x \<Longrightarrow> above ds x y \<Longrightarrow> above ds c y"
  by (induction rule: above.induct) (auto intro: above.intros)

lemma above_live:
  assumes "\<forall>d\<in>L. d_parent (ds d) \<in> L" and "above ds c x" and "x \<in> L"
  shows "c \<in> L"
  using assms(2,3) by (induction rule: above.induct) (use assms(1) in auto)

text \<open>In a consistent state every live entry is needed.\<close>

lemma refs_ok_needed:
  assumes ok: "refs_ok L ext ds"
  shows "needed L ext ds = L"
proof -
  obtain rank where r: "ranked L ds rank" using ok by (auto simp: refs_ok_def)
  have fin: "finite L" using ok by (simp add: refs_ok_def)
  have "\<exists>x\<in>L. 0 < ext x \<and> above ds c x" if "c \<in> L" for c
    using that
  proof (induction "Max (rank ` L) - rank c" arbitrary: c rule: less_induct)
    case less
    show ?case
    proof (cases "0 < ext c")
      case True
      then show ?thesis using less.prems above_self by blast
    next
      case False
      then have "0 < card (kids L ds c)" using ok less.prems by (auto simp: refs_ok_def)
      then obtain k where k: "k \<in> kids L ds c" by fastforce
      then have kL: "k \<in> L" "d_parent (ds k) = c" "k \<noteq> c" by (auto simp: kids_def)
      then have "rank c < rank k" using r by (auto simp: ranked_def)
      moreover have "rank k \<le> Max (rank ` L)" using kL(1) fin by simp
      ultimately have "Max (rank ` L) - rank k < Max (rank ` L) - rank c" by simp
      from less.hyps [OF this kL(1)] obtain x where x: "x \<in> L" "0 < ext x" "above ds k x" by blast
      have "above ds c k" using above_parent [OF above_self, of ds k] kL(2) by simp
      then show ?thesis using x above_trans by blast
    qed
  qed
  then show ?thesis by (auto simp: needed_def)
qed

text \<open>The operations of the superblock leave the directory entries alone.\<close>

definition ops_keep_dentries :: "s_ops \<Rightarrow> bool" where
  "ops_keep_dentries ops \<longleftrightarrow> (\<forall>sb o' f i v. ops sb = Some o' \<longrightarrow>
     f \<in> set_option (destroy_inode o') \<union> set_option (drop_inode o') \<union> set_option (delete_inode o') \<longrightarrow>
     dentries (f i v) = dentries v \<and> filps (f i v) = filps v)"

lemma upd_fields [simp]:
  "dentries (upd_inode i f v) = dentries v" "dentries (upd_file x g v) = dentries v"
  "inodes (upd_dentry d h v) = inodes v" "filps (upd_dentry d h v) = filps v" "filps (upd_inode i f v) = filps v"
  "inodes (upd_file x g v) = inodes v" "filps (upd_file x g v) = (filps v)(x := g (filps v x))"
  "dentries (upd_dentry d h v) = (dentries v)(d := h (dentries v d))"
  by (simp_all add: upd_inode_def upd_dentry_def upd_file_def)

lemma iput_keeps:
  assumes "ops_keep_dentries ops"
  shows "dentries (iput ops i v) = dentries v" "filps (iput ops i v) = filps v"
proof -
  have c: "dentries (call_sb sel ops i v) = dentries v \<and> filps (call_sb sel ops i v) = filps v"
    if "sel = drop_inode \<or> sel = delete_inode" for sel v
    using assms that by (auto simp: call_sb_def ops_keep_dentries_def split: option.split bind_splits)
  have f: "dentries (free_inode ops i v) = dentries v \<and> filps (free_inode ops i v) = filps v" for v
    using assms by (auto simp: free_inode_def ops_keep_dentries_def split: option.split bind_splits)
  have r: "dentries (inode_cache_remove i v) = dentries v \<and> filps (inode_cache_remove i v) = filps v" for v
    by (simp add: inode_cache_remove_def inode_cache_init_def Let_def)
  show "dentries (iput ops i v) = dentries v" "filps (iput ops i v) = filps v"
    using c f r by (simp_all add: iput_def Let_def)
qed

lemma release_keeps:
  assumes "ops_keep_dentries ops"
  shows "dentries (release_dentry ops d v) = dentries v" "filps (release_dentry ops d v) = filps v"
  using iput_keeps [OF assms] by (simp_all add: release_dentry_def Let_def)

lemma unlink_dentry_fields:
  "dentries (unlink_dentry d v) = (dentries v)(d_parent (dentries v d) :=
     (dentries v (d_parent (dentries v d)))\<lparr>d_subdirs := remove1 d (d_subdirs (dentries v (d_parent (dentries v d))))\<rparr>)"
  "filps (unlink_dentry d v) = filps v"
  by (simp_all add: unlink_dentry_def Let_def)

section \<open>Dropping a reference\<close>

text \<open>Losing an outside reference while others remain.\<close>

lemma refs_ok_drop:
  assumes ok: "refs_ok L ext ds" and d: "d \<in> L" "0 < ext d" and more: "d_count (ds d) \<noteq> 1"
  shows "refs_ok L (ext(d := ext d - 1)) (ds(d := (ds d)\<lparr>d_count := d_count (ds d) - 1\<rparr>))"
proof -
  let ?ds = "ds(d := (ds d)\<lparr>d_count := d_count (ds d) - 1\<rparr>)"
  have p: "d_parent (?ds x) = d_parent (ds x)" "d_subdirs (?ds x) = d_subdirs (ds x)" for x by simp_all
  have k: "kids L ?ds x = kids L ds x" for x unfolding kids_def p ..
  have "ranked L ?ds rank = ranked L ds rank" for rank unfolding ranked_def p ..
  moreover have "0 < d_count (ds d) - 1" using ok d(1) more by (force simp: refs_ok_def)
  ultimately show ?thesis
    using ok d unfolding refs_ok_def k p by (auto simp: of_nat_diff)
qed

text \<open>An entry without references leaves the tree; the reference it held to its parent is then an outside one.\<close>

lemma refs_ok_remove:
  assumes ok: "refs_ok L ext ds" and d: "d \<in> L" and last: "ext d = 1" "kids L ds d = {}" and p: "p = d_parent (ds d)"
    and ds': "ds' = (ds(d := (ds d)\<lparr>d_count := 0\<rparr>))(p := ((ds(d := (ds d)\<lparr>d_count := 0\<rparr>)) p)\<lparr>d_subdirs := remove1 d (d_subdirs (ds p))\<rparr>)"
  shows "refs_ok (L - {d}) (if p = d then ext(d := 0) else ext(d := 0, p := ext p + 1)) ds'"
proof -
  have live: "\<forall>x\<in>L. d_parent (ds x) \<in> L" using ok by (simp add: refs_ok_def)
  have par: "d_parent (ds' x) = d_parent (ds x)" for x by (simp add: ds')
  have cnt: "d_count (ds' x) = d_count (ds x)" if "x \<noteq> d" for x using that by (simp add: ds')
  have kid: "kids (L - {d}) ds' x = kids L ds x - {d}" for x by (auto simp: kids_def par)
  have nop: "d_parent (ds x) \<noteq> d" if "x \<in> L - {d}" for x using last(2) that by (auto simp: kids_def)
  have sub: "d_subdirs (ds' x) = (if x = p then remove1 d (d_subdirs (ds p)) else d_subdirs (ds x))" if "x \<noteq> d" for x
    using that by (simp add: ds')
  obtain rank where "ranked L ds rank" using ok by (auto simp: refs_ok_def)
  then have rk: "ranked (L - {d}) ds' rank" by (simp add: ranked_def par)
  have "d_parent (ds' x) \<in> L - {d} \<and> 0 < d_count (ds' x) \<and>
      d_count (ds' x) = int ((if p = d then ext(d := 0) else ext(d := 0, p := ext p + 1)) x) + int (card (kids (L - {d}) ds' x)) \<and>
      distinct (d_subdirs (ds' x)) \<and> set (d_subdirs (ds' x)) = kids (L - {d}) ds' x" if x: "x \<in> L - {d}" for x
  proof -
    have xl: "x \<in> L" "x \<noteq> d" using x by simp_all
    have fin: "finite (kids L ds x)" using ok by (simp add: refs_ok_def kids_def)
    have o: "0 < d_count (ds x)" "d_count (ds x) = int (ext x) + int (card (kids L ds x))"
      "distinct (d_subdirs (ds x))" "set (d_subdirs (ds x)) = kids L ds x" using ok xl(1) unfolding refs_ok_def by blast+
    have dk: "d \<in> kids L ds x \<longleftrightarrow> x = p" using d xl(2) p by (auto simp: kids_def)
    have card: "int (card (kids L ds x - {d})) = int (card (kids L ds x)) - (if x = p then 1 else 0)"
    proof (cases "x = p")
      case True
      then have "d \<in> kids L ds x" using dk by simp
      then have "0 < card (kids L ds x)" "card (kids L ds x - {d}) = card (kids L ds x) - 1"
        using fin by (auto simp: card_gt_0_iff)
      then show ?thesis using True by simp
    next
      case False
      then show ?thesis using dk by (simp add: Diff_insert0)
    qed
    have subs: "distinct (d_subdirs (ds' x)) \<and> set (d_subdirs (ds' x)) = kids L ds x - {d}"
    proof (cases "x = p")
      case True
      then show ?thesis using o(3,4) sub [OF xl(2)] by simp
    next
      case False
      then have "d \<notin> kids L ds x" using dk by simp
      then show ?thesis using o(3,4) sub [OF xl(2)] False by simp
    qed
    have "d_parent (ds x) \<in> L - {d}" using live xl(1) nop [OF x] by simp
    moreover have "d_count (ds' x) = int ((if p = d then ext(d := 0) else ext(d := 0, p := ext p + 1)) x) + int (card (kids L ds x - {d}))"
      using o(2) card cnt [OF xl(2)] xl(2) by (cases "x = p") simp_all
    ultimately show ?thesis using subs o(1) cnt [OF xl(2)] unfolding kid par by simp
  qed
  then show ?thesis using ok rk unfolding refs_ok_def by blast
qed

text \<open>What does not change of the entries that stay.\<close>

definition same_entry :: "dentry \<Rightarrow> dentry \<Rightarrow> bool" where
  "same_entry x y \<longleftrightarrow> d_name x = d_name y \<and> d_inode x = d_inode y \<and> d_parent x = d_parent y \<and> d_sb x = d_sb y"

lemma dput_effect:
  assumes ops: "ops_keep_dentries ops"
  shows "ranked L0 ds0 rank \<Longrightarrow> refs_ok L ext (dentries v) \<Longrightarrow> L \<subseteq> L0 \<Longrightarrow> (\<forall>x\<in>L. d_parent (dentries v x) = d_parent (ds0 x)) \<Longrightarrow>
    d \<in> L \<Longrightarrow> 0 < ext d \<Longrightarrow>
    \<exists>v' L'. dput ops d v = Some v' \<and> L' \<subseteq> L \<and> refs_ok L' (ext(d := ext d - 1)) (dentries v') \<and> filps v' = filps v \<and>
      (\<forall>c\<in>L - L'. (ext(d := ext d - 1)) c = 0) \<and> (\<forall>c\<in>L'. same_entry (dentries v' c) (dentries v c))"
proof (induction "rank d" arbitrary: d v L ext rule: less_induct)
  case less
  note ok = less.prems(2) and dL = less.prems(5) and ed = less.prems(6)
  let ?ds = "dentries v" and ?ext = "ext(d := ext d - 1)"
  let ?v1 = "upd_dentry d (\<lambda>x. x\<lparr>d_count := d_count x - 1\<rparr>) v"
  have d0: "d \<noteq> 0" using ok dL by (auto simp: refs_ok_def)
  have cnt: "d_count (?ds d) = int (ext d) + int (card (kids L ?ds d))" using ok dL unfolding refs_ok_def by blast
  show ?case
  proof (cases "d_count (?ds d) = 1")
    case False
    then have "dput ops d v = Some ?v1" using d0 by (subst dput.simps) (simp add: Let_def)
    then show ?thesis using refs_ok_drop [OF ok dL ed False] by (intro exI [of _ ?v1] exI [of _ L]) (auto simp: same_entry_def)
  next
    case True
    have last: "ext d = 1" "kids L ?ds d = {}"
    proof -
      have "finite (kids L ?ds d)" using ok by (simp add: refs_ok_def kids_def)
      moreover have "int (ext d) + int (card (kids L ?ds d)) = 1" using cnt True by simp
      then have "ext d + card (kids L ?ds d) = 1" by linarith
      moreover from this have "card (kids L ?ds d) = 0" "ext d = 1" using ed by linarith+
      ultimately show "ext d = 1" "kids L ?ds d = {}" by (simp_all only: card_0_eq)
    qed
    let ?p = "d_parent (?ds d)" and ?v2 = "unlink_dentry d ?v1"
    have v2: "dentries ?v2 = (?ds(d := (?ds d)\<lparr>d_count := 0\<rparr>))(?p := ((?ds(d := (?ds d)\<lparr>d_count := 0\<rparr>)) ?p)
        \<lparr>d_subdirs := remove1 d (d_subdirs (?ds ?p))\<rparr>)" "filps ?v2 = filps v"
      using True by (simp_all add: unlink_dentry_fields)
    have same2: "same_entry (dentries ?v2 c) (?ds c)" for c by (simp add: v2 same_entry_def)
    have par2: "d_parent (dentries ?v2 c) = d_parent (?ds c)" for c using same2 by (simp add: same_entry_def)
    note rem = refs_ok_remove [OF ok dL last refl v2(1)]
    have run: "dput ops d v = (if ?p \<noteq> 0 \<and> ?p \<noteq> d then Option.bind (dput ops ?p ?v2) (\<lambda>v. Some (release_dentry ops d v))
        else Some (release_dentry ops d ?v2))"
      using d0 True par2 by (subst dput.simps) (simp add: Let_def)
    show ?thesis
    proof (cases "?p = d")
      case self: True
      have "refs_ok (L - {d}) ?ext (dentries (release_dentry ops d ?v2))"
        using rem self last(1) by (simp add: release_keeps [OF ops])
      then show ?thesis
        using run self same2 v2(2) last(1) release_keeps [OF ops]
        by (intro exI [of _ "release_dentry ops d ?v2"] exI [of _ "L - {d}"]) auto
    next
      case False
      have pL: "?p \<in> L - {d}" using ok dL False unfolding refs_ok_def by blast
      then have p0: "?p \<noteq> 0" using ok by (auto simp: refs_ok_def)
      let ?e1 = "ext(d := 0, ?p := ext ?p + 1)"
      have e: "?e1(?p := ?e1 ?p - 1) = ?ext" using False last(1) by auto
      have "rank ?p < rank d" using less.prems(1,3,4) dL False by (auto simp: ranked_def)
      moreover have "refs_ok (L - {d}) ?e1 (dentries ?v2)" using rem False by simp
      moreover have "\<forall>x\<in>L - {d}. d_parent (dentries ?v2 x) = d_parent (ds0 x)" using less.prems(4) par2 by simp
      moreover have "L - {d} \<subseteq> L0" using less.prems(3) by blast
      ultimately have "\<exists>v' L'. dput ops ?p ?v2 = Some v' \<and> L' \<subseteq> L - {d} \<and> refs_ok L' ?ext (dentries v') \<and> filps v' = filps ?v2 \<and>
          (\<forall>c\<in>L - {d} - L'. ?ext c = 0) \<and> (\<forall>c\<in>L'. same_entry (dentries v' c) (dentries ?v2 c))"
        using less.hyps [of ?p "L - {d}" ?e1 ?v2] less.prems(1) pL unfolding e by simp
      then obtain v' L' where *: "dput ops ?p ?v2 = Some v'" "L' \<subseteq> L - {d}" "refs_ok L' ?ext (dentries v')" "filps v' = filps ?v2"
        "\<forall>c\<in>L - {d} - L'. ?ext c = 0" "\<forall>c\<in>L'. same_entry (dentries v' c) (dentries ?v2 c)" by blast
      have "\<forall>c\<in>L'. same_entry (dentries v' c) (?ds c)" using *(6) same2 by (simp add: same_entry_def)
      then show ?thesis
        using run * False p0 last(1) v2(2) release_keeps [OF ops]
        by (intro exI [of _ "release_dentry ops d v'"] exI [of _ L']) auto
    qed
  qed
qed

lemma above_same:
  assumes "above ds c x" and "x \<in> L" and "\<forall>d\<in>L. d_parent (ds' d) \<in> L" and "\<forall>d\<in>L. d_parent (ds' d) = d_parent (ds d)"
  shows "c \<in> L \<and> above ds' c x"
  using assms(1,2)
proof (induction rule: above.induct)
  case (above_parent c x)
  then have "c \<in> L" "above ds' c x" by simp_all
  then show ?case using above.above_parent [of ds' c x] assms(3,4) by metis
qed (auto intro: above.intros)


definition ex_tree :: vfs where
  "ex_tree = \<lparr>vheap = heap_example, inodes = \<lambda>_. empty_inode,
     dentries = (\<lambda>_. \<lparr>d_name = [], d_inode = 0, d_parent = 0, d_sb = 0, d_subdirs = [], d_count = 0, d_flags = 0\<rparr>)
       (0x1000 := \<lparr>d_name = [0x2F], d_inode = 0, d_parent = 0x1000, d_sb = 0, d_subdirs = [0x2000], d_count = 2, d_flags = 0\<rparr>,
        0x2000 := \<lparr>d_name = [0x61], d_inode = 0, d_parent = 0x1000, d_sb = 0, d_subdirs = [0x3000], d_count = 1, d_flags = 0\<rparr>,
        0x3000 := \<lparr>d_name = [0x62], d_inode = 0, d_parent = 0x2000, d_sb = 0, d_subdirs = [], d_count = 1, d_flags = 0\<rparr>),
     filps = \<lambda>_. empty_file, supers = \<lambda>_. \<lparr>s_dev = 0, s_blocksize = 0, s_root = 0\<rparr>, inode_hashtable = [], inode_cache_initialized = False,
     inode_cache = 0, dentry_cache = 0, file_cache = 0\<rparr>"

definition ex_refs :: "u64 \<Rightarrow> nat" where "ex_refs = (\<lambda>_. 0)(0x1000 := 1, 0x3000 := 1)"

lemma ex_tree_ok: "refs_ok {0x1000, 0x2000, 0x3000} ex_refs (dentries ex_tree)"
proof -
  have "ranked {0x1000, 0x2000, 0x3000} (dentries ex_tree) (\<lambda>d. unat d)" by (simp add: ranked_def ex_tree_def)
  moreover have "kids {0x1000, 0x2000, 0x3000} (dentries ex_tree) 0x1000 = {0x2000}"
    "kids {0x1000, 0x2000, 0x3000} (dentries ex_tree) 0x2000 = {0x3000}" "kids {0x1000, 0x2000, 0x3000} (dentries ex_tree) 0x3000 = {}"
    by (auto simp: kids_def ex_tree_def)
  ultimately show ?thesis by (auto simp: refs_ok_def) (simp_all add: ex_tree_def ex_refs_def)
qed


end
