(* ===== verification/Fd_Refs.thy ===== *)
theory Fd_Refs
  imports Fdtable Dcache_Refs
begin

text \<open>
  Reference counting of open files: the count of a file is the number of descriptors that hold it, over
  all tables, plus the references kernel code holds; a file is freed with the last of them, and then
  gives up its directory entry.
\<close>

section \<open>The invariant\<close>

definition holds :: "u64 \<Rightarrow> fd_table \<Rightarrow> nat" where
  "holds f x = length (filter (\<lambda>e. fd_file e = f) (fds x))"

definition fd_refs :: "u64 set \<Rightarrow> (u64 \<Rightarrow> fd_table) \<Rightarrow> u64 \<Rightarrow> nat" where
  "fd_refs T tabs f = (\<Sum>t\<in>T. holds f (tabs t))"

definition entry_refs :: "u64 set \<Rightarrow> (u64 \<Rightarrow> filp) \<Rightarrow> (u64 \<Rightarrow> nat) \<Rightarrow> u64 \<Rightarrow> nat" where
  "entry_refs F fl kd = (\<lambda>d. kd d + card {f \<in> F. f_dentry (fl f) = d})"

definition tables_ok :: "u64 set \<Rightarrow> u64 set \<Rightarrow> (u64 \<Rightarrow> fd_table) \<Rightarrow> bool" where
  "tables_ok T F tabs \<longleftrightarrow> finite T \<and> 0 \<notin> T \<and> (\<forall>t\<in>T. length (fds (tabs t)) = max_fds (tabs t) \<and>
     next_fd (tabs t) \<le> max_fds (tabs t) \<and> 3 \<le> max_fds (tabs t) \<and>
     (\<forall>e\<in>set (fds (tabs t)). fd_file e = 0 \<or> fd_file e \<in> F))"

definition files_ok :: "u64 set \<Rightarrow> u64 set \<Rightarrow> (u64 \<Rightarrow> nat) \<Rightarrow> (u64 \<Rightarrow> nat) \<Rightarrow> fdstate \<Rightarrow> bool" where
  "files_ok T F kd kf s \<longleftrightarrow> tables_ok T F (tables s) \<and> finite F \<and> 0 \<notin> F \<and>
     (\<forall>f\<in>F. 0 < f_count (filps (fs s) f) \<and> f_count (filps (fs s) f) = int (kf f) + int (fd_refs T (tables s) f)) \<and>
     (\<exists>L. refs_ok L (entry_refs F (filps (fs s)) kd) (dentries (fs s)) \<and> (\<forall>f\<in>F. f_dentry (filps (fs s) f) \<in> L))"

lemma files_okD:
  assumes "files_ok T F kd kf s"
  shows "tables_ok T F (tables s)" "finite F" "0 \<notin> F"
    "f \<in> F \<Longrightarrow> 0 < f_count (filps (fs s) f)" "f \<in> F \<Longrightarrow> f_count (filps (fs s) f) = int (kf f) + int (fd_refs T (tables s) f)"
  using assms unfolding files_ok_def by blast+

lemma files_okI:
  assumes "tables_ok T F (tables s)" and "finite F" and "0 \<notin> F"
    and "\<And>f. f \<in> F \<Longrightarrow> 0 < f_count (filps (fs s) f) \<and> f_count (filps (fs s) f) = int (kf f) + int (fd_refs T (tables s) f)"
    and "refs_ok L (entry_refs F (filps (fs s)) kd) (dentries (fs s))" and "\<And>f. f \<in> F \<Longrightarrow> f_dentry (filps (fs s) f) \<in> L"
  shows "files_ok T F kd kf s"
  using assms unfolding files_ok_def by blast

lemma files_ok_entries:
  assumes "files_ok T F kd kf s"
  obtains L where "refs_ok L (entry_refs F (filps (fs s)) kd) (dentries (fs s))" and "\<And>f. f \<in> F \<Longrightarrow> f_dentry (filps (fs s) f) \<in> L"
  using assms unfolding files_ok_def by blast

text \<open>The descriptors alone changed, and the references they hold with them.\<close>

lemma files_ok_tables:
  assumes ok: "files_ok T F kd kf s" and "tables_ok T' F (tables s')" and "filps (fs s') = filps (fs s)" "dentries (fs s') = dentries (fs s)"
    and "\<And>f. f \<in> F \<Longrightarrow> kf f + fd_refs T (tables s) f = kf' f + fd_refs T' (tables s') f"
  shows "files_ok T' F kd kf' s'"
proof -
  obtain L where L: "refs_ok L (entry_refs F (filps (fs s)) kd) (dentries (fs s))" "\<And>f. f \<in> F \<Longrightarrow> f_dentry (filps (fs s) f) \<in> L"
    by (rule files_ok_entries [OF ok]) (rule that)
  show ?thesis
    by (rule files_okI [where L = L])
      (use L assms(2) files_okD [OF ok] assms(5) in \<open>simp_all add: assms(3,4) of_nat_add [symmetric] del: of_nat_add\<close>)
qed

section \<open>Changing one descriptor\<close>

lemma filter_update:
  assumes "i < length xs"
  shows "length (filter P (xs[i := e])) + (if P (xs ! i) then 1 else 0) = length (filter P xs) + (if P e then 1 else 0)"
  using assms
proof (induction xs arbitrary: i)
  case (Cons x xs)
  then show ?case by (cases i) auto
qed simp

lemma set_fd_tables: "tables (set_fd t i e s) = (tables s)(t := (tables s t)\<lparr>fds := (fds (tables s t))[i := e]\<rparr>)" "fs (set_fd t i e s) = fs s"
  by (simp_all add: set_fd_def upd_table_def)

lemma set_fd_fs: "(set_fd t i e s)\<lparr>fs := v\<rparr> = set_fd t i e (s\<lparr>fs := v\<rparr>)"
  by (simp add: set_fd_def upd_table_def)

lemma fd_refs_set:
  assumes "finite T" "t \<in> T" "i < length (fds (tabs t))"
  shows "fd_refs T (tabs(t := (tabs t)\<lparr>fds := (fds (tabs t))[i := e]\<rparr>)) f + (if fd_file (fds (tabs t) ! i) = f then 1 else 0) =
    fd_refs T tabs f + (if fd_file e = f then 1 else 0)"
proof -
  let ?tabs = "tabs(t := (tabs t)\<lparr>fds := (fds (tabs t))[i := e]\<rparr>)"
  have T: "fd_refs T g f = holds f (g t) + (\<Sum>u\<in>T - {t}. holds f (g u))" for g
    unfolding fd_refs_def using assms(1,2) by (rule sum.remove)
  have "(\<Sum>u\<in>T - {t}. holds f (?tabs u)) = (\<Sum>u\<in>T - {t}. holds f (tabs u))" by (rule sum.cong) auto
  moreover have "holds f (?tabs t) + (if fd_file (fds (tabs t) ! i) = f then 1 else 0) = holds f (tabs t) + (if fd_file e = f then 1 else 0)"
    using filter_update [OF assms(3), of "\<lambda>e. fd_file e = f" e] by (simp add: holds_def)
  ultimately show ?thesis using T [of ?tabs] T [of tabs] by simp
qed

lemma tables_ok_set:
  assumes "tables_ok T F tabs" and "fd_file e = 0 \<or> fd_file e \<in> F"
  shows "tables_ok T F (tabs(t := (tabs t)\<lparr>fds := (fds (tabs t))[i := e]\<rparr>))"
  unfolding tables_ok_def
proof (intro conjI ballI)
  fix u x assume u: "u \<in> T" "x \<in> set (fds ((tabs(t := (tabs t)\<lparr>fds := (fds (tabs t))[i := e]\<rparr>)) u))"
  have "x \<in> insert e (set (fds (tabs u)))" using u(2) set_update_subset_insert [of "fds (tabs t)" i e] by (auto split: if_splits)
  then show "fd_file x = 0 \<or> fd_file x \<in> F" using assms u(1) unfolding tables_ok_def by blast
qed (use assms(1) in \<open>auto simp: tables_ok_def\<close>)

text \<open>Moving a reference from a descriptor to the kernel and back.\<close>

lemma files_ok_clear:
  assumes ok: "files_ok T F kd kf s" and t: "t \<in> T" "i < max_fds (tables s t)" and f: "f = fd_file (fds (tables s t) ! i)" "f \<noteq> 0"
  shows "files_ok T F kd (kf(f := kf f + 1)) (set_fd t i no_fd s)" and "f \<in> F"
proof -
  note d = files_okD [OF ok]
  have len: "i < length (fds (tables s t))" and fin: "finite T" using d(1) t by (simp_all add: tables_ok_def)
  then have "fds (tables s t) ! i \<in> set (fds (tables s t))" by simp
  then show fF: "f \<in> F" using d(1) t(1) f by (auto simp: tables_ok_def)
  have tk: "tables_ok T F (tables (set_fd t i no_fd s))"
    unfolding set_fd_tables by (rule tables_ok_set [OF d(1)]) (simp add: no_fd_def)
  have "fd_refs T (tables s) x = fd_refs T (tables (set_fd t i no_fd s)) x + (if f = x then 1 else 0)" if "x \<in> F" for x
    using fd_refs_set [of T t i "tables s" no_fd x] fin t(1) len d(3) that f(1) by (auto simp: set_fd_tables no_fd_def)
  then show "files_ok T F kd (kf(f := kf f + 1)) (set_fd t i no_fd s)"
    by (intro files_ok_tables [OF ok tk]) (auto simp: set_fd_tables(2) split: if_splits)
qed

lemma files_ok_install:
  assumes ok: "files_ok T F kd kf s" and t: "t \<in> T" "i < max_fds (tables s t)" "fd_file (fds (tables s t) ! i) = 0"
    and f: "f \<in> F" "0 < kf f"
  shows "files_ok T F kd (kf(f := kf f - 1)) (set_fd t i \<lparr>fd_file = f, fd_flags = fl\<rparr> s)"
proof -
  let ?e = "\<lparr>fd_file = f, fd_flags = fl\<rparr>"
  note d = files_okD [OF ok]
  have len: "i < length (fds (tables s t))" and fin: "finite T" using d(1) t by (simp_all add: tables_ok_def)
  have tk: "tables_ok T F (tables (set_fd t i ?e s))" unfolding set_fd_tables by (rule tables_ok_set [OF d(1)]) (simp add: f(1))
  have f0: "x \<noteq> 0" if "x \<in> F" for x using d(3) that by blast
  have "fd_refs T (tables (set_fd t i ?e s)) x = fd_refs T (tables s) x + (if f = x then 1 else 0)" if "x \<in> F" for x
    using fd_refs_set [of T t i "tables s" ?e x] fin t(1) len f0 [OF that] t(3) by (simp add: set_fd_tables)
  then show ?thesis using f(2) by (intro files_ok_tables [OF ok tk]) (auto simp: set_fd_tables(2) split: if_splits)
qed

section \<open>Taking and dropping a reference\<close>

lemma files_ok_get:
  assumes ok: "files_ok T F kd kf s" and f: "f \<in> F"
  shows "files_ok T F kd (kf(f := kf f + 1)) (s\<lparr>fs := get_file f (fs s)\<rparr>)"
proof -
  note d = files_okD [OF ok]
  have f0: "f \<noteq> 0" using d(3) f by blast
  let ?v = "get_file f (fs s)"
  have v: "dentries ?v = dentries (fs s)" "f_dentry (filps ?v x) = f_dentry (filps (fs s) x)"
    "f_count (filps ?v x) = f_count (filps (fs s) x) + (if x = f then 1 else 0)" for x
    using f0 by (simp_all add: get_file_def)
  have "entry_refs F (filps ?v) kd = entry_refs F (filps (fs s)) kd" unfolding entry_refs_def v(2) ..
  moreover obtain L where "refs_ok L (entry_refs F (filps (fs s)) kd) (dentries (fs s))" "\<And>f. f \<in> F \<Longrightarrow> f_dentry (filps (fs s) f) \<in> L"
    by (rule files_ok_entries [OF ok]) (rule that)
  ultimately show ?thesis
  proof (intro files_okI [where L = L], goal_cases)
    case (4 x)
    then show ?case using d(4,5) [of x] v(3) [of x] by simp
  qed (use d(1-3) v(1,2) in simp_all)
qed

lemma fd_refs_zero:
  assumes "finite T" and "fd_refs T tabs f = 0" and "t \<in> T" and "e \<in> set (fds (tabs t))"
  shows "fd_file e \<noteq> f"
proof -
  have "holds f (tabs t) = 0" using assms(1-3) by (simp add: fd_refs_def)
  then have "filter (\<lambda>e. fd_file e = f) (fds (tabs t)) = []" by (simp add: holds_def)
  then show ?thesis using assms(4) by (auto simp: filter_empty_conv)
qed

lemma put_file_ok:
  assumes ops: "ops_keep_dentries ops" and ok: "files_ok T F kd kf s" and f: "f \<in> F" "0 < kf f"
  obtains v where "put_file ops f (fs s) = Some v"
    and "files_ok T (if f_count (filps (fs s) f) = 1 then F - {f} else F) kd (kf(f := kf f - 1)) (s\<lparr>fs := v\<rparr>)"
proof -
  note d = files_okD [OF ok]
  let ?v1 = "upd_file f (\<lambda>x. x\<lparr>f_count := f_count x - 1\<rparr>) (fs s)" and ?kf = "kf(f := kf f - 1)"
  have f0: "f \<noteq> 0" using d(3) f by blast
  obtain L where L: "refs_ok L (entry_refs F (filps (fs s)) kd) (dentries (fs s))" "\<And>f. f \<in> F \<Longrightarrow> f_dentry (filps (fs s) f) \<in> L"
    by (rule files_ok_entries [OF ok]) (rule that)
  have v1: "dentries ?v1 = dentries (fs s)" "f_dentry (filps ?v1 x) = f_dentry (filps (fs s) x)" for x by simp_all
  show thesis
  proof (cases "f_count (filps (fs s) f) = 1")
    case False
    have "entry_refs F (filps ?v1) kd = entry_refs F (filps (fs s)) kd" unfolding entry_refs_def v1(2) ..
    then have "files_ok T F kd ?kf (s\<lparr>fs := ?v1\<rparr>)"
    proof (intro files_okI [where L = L], goal_cases)
      case (4 x)
      then show ?case using d(4,5) [of x] False f(2) by (cases "x = f") (simp_all add: of_nat_diff)
    qed (use d(1-3) L v1 in simp_all)
    moreover have "put_file ops f (fs s) = Some ?v1" using False f0 by (simp add: put_file_def Let_def)
    ultimately show thesis using that False by simp
  next
    case True
    then have one: "kf f = 1" "fd_refs T (tables s) f = 0" using d(5) [OF f(1)] f(2) by linarith+
    let ?d = "f_dentry (filps (fs s) f)" and ?F = "F - {f}"
    have dL: "?d \<in> L" using L(2) f(1) by blast
    have card: "card {x \<in> F. f_dentry (filps (fs s) x) = ?d} = Suc (card {x \<in> ?F. f_dentry (filps (fs s) x) = ?d})"
    proof -
      have "{x \<in> F. f_dentry (filps (fs s) x) = ?d} = insert f {x \<in> ?F. f_dentry (filps (fs s) x) = ?d}" using f(1) by auto
      then show ?thesis using d(2) by simp
    qed
    have pos: "0 < entry_refs F (filps (fs s)) kd ?d" using card by (simp add: entry_refs_def)
    have e: "(entry_refs F (filps (fs s)) kd)(?d := entry_refs F (filps (fs s)) kd ?d - 1) = entry_refs ?F (filps (fs s)) kd"
    proof
      fix x
      show "((entry_refs F (filps (fs s)) kd)(?d := entry_refs F (filps (fs s)) kd ?d - 1)) x = entry_refs ?F (filps (fs s)) kd x"
      proof (cases "x = ?d")
        case True
        then show ?thesis using card by (simp add: entry_refs_def)
      next
        case False
        then have "{y \<in> F. f_dentry (filps (fs s) y) = x} = {y \<in> ?F. f_dentry (filps (fs s) y) = x}" by auto
        then show ?thesis using False by (simp add: entry_refs_def)
      qed
    qed
    have "\<exists>rank. ranked L (dentries (fs s)) rank" using L(1) by (simp add: refs_ok_def)
    then obtain v' L' where *: "dput ops ?d ?v1 = Some v'" "L' \<subseteq> L" "refs_ok L' (entry_refs ?F (filps (fs s)) kd) (dentries v')"
      "filps v' = filps ?v1" "\<forall>c\<in>L - L'. entry_refs ?F (filps (fs s)) kd c = 0"
      using dput_effect [OF ops, of L "dentries (fs s)" _ L "entry_refs F (filps (fs s)) kd" ?v1 ?d] L(1) dL pos unfolding v1(1) e by blast
    have fd: "f_dentry (filps v' x) = f_dentry (filps (fs s) x)" for x using *(4) v1(2) by simp
    have live: "f_dentry (filps v' x) \<in> L'" if "x \<in> ?F" for x
    proof (rule ccontr)
      assume n: "f_dentry (filps v' x) \<notin> L'"
      have "x \<in> {y \<in> ?F. f_dentry (filps (fs s) y) = f_dentry (filps (fs s) x)}" using that by simp
      then have "0 < entry_refs ?F (filps (fs s)) kd (f_dentry (filps (fs s) x))"
        using d(2) by (auto simp: entry_refs_def card_gt_0_iff)
      then show False using *(5) n L(2) that unfolding fd by force
    qed
    have d0: "?d \<noteq> 0" using L(1) dL by (auto simp: refs_ok_def)
    let ?v = "v'\<lparr>vheap := kmem_cache_free (file_cache v') f (vheap v')\<rparr>"
    have run: "put_file ops f (fs s) = Some ?v"
      using True f0 d0 *(1) by (simp add: put_file_def free_file_def Let_def)
    have "tables_ok T ?F (tables s)"
      using d(1) fd_refs_zero [OF _ one(2)] unfolding tables_ok_def by blast
    moreover have "entry_refs ?F (filps ?v) kd = entry_refs ?F (filps (fs s)) kd" using fd by (simp add: entry_refs_def)
    ultimately have "files_ok T ?F kd ?kf (s\<lparr>fs := ?v\<rparr>)"
    proof (intro files_okI [where L = L'], goal_cases)
      case (4 x)
      then show ?case using d(4,5) [of x] *(4) by simp
    qed (use d(2,3) *(3) live in simp_all)
    then show thesis using that run True by simp
  qed
qed

section \<open>The operations\<close>

lemma tables_ok_fd:
  assumes "tables_ok T F tabs" and "t \<in> T"
  shows "length (fds (tabs t)) = max_fds (tabs t)" "next_fd (tabs t) \<le> max_fds (tabs t)" "3 \<le> max_fds (tabs t)" "finite T" "t \<noteq> 0"
  using assms by (auto simp: tables_ok_def)

lemma files_ok_upd:
  assumes ok: "files_ok T F kd kf s" and g: "fds (g (tables s t)) = fds (tables s t)" "max_fds (g (tables s t)) = max_fds (tables s t)"
      "t \<in> T \<Longrightarrow> next_fd (g (tables s t)) \<le> max_fds (tables s t)"
  shows "files_ok T F kd kf (upd_table t g s)"
proof (rule files_ok_tables [OF ok])
  show "tables_ok T F (tables (upd_table t g s))" using files_okD(1) [OF ok] g by (auto simp: tables_ok_def upd_table_def)
  have "holds f (tables (upd_table t g s) u) = holds f (tables s u)" for f u using g(1) by (simp add: upd_table_def holds_def)
  then show "kf f + fd_refs T (tables s) f = kf f + fd_refs T (tables (upd_table t g s)) f" for f by (simp add: fd_refs_def)
qed (simp_all add: upd_table_def)

lemma files_ok_lower:
  assumes "files_ok T F kd kf s" shows "files_ok T F kd kf (lower_next t i s)"
  unfolding lower_next_def using tables_ok_fd [OF files_okD(1) [OF assms], of t] by (intro files_ok_upd [OF assms]) auto

lemma first_free_Some:
  assumes "first_free x is = Some i" shows "i \<in> set is" "fd_file (fds x ! i) = 0"
  using assms by (auto simp: first_free_def find_Some_iff)

lemma fd_alloc_cases:
  assumes ok: "files_ok T F kd kf s" and t: "t \<in> T" and f: "f \<in> F" and r: "fd_alloc t f fl s = (s', r)"
  obtains e s1 where "r = Inl e" "s' = s1" "files_ok T F kd kf s1" "fs s1 = fs s"
  | i s1 where "r = Inr i" "3 \<le> i" "i < max_fds (tables s t)" "fd_file (fds (tables s t) ! i) = 0" "fds (tables s1 t) = fds (tables s t)"
      "max_fds (tables s1 t) = max_fds (tables s t)" "files_ok T F kd kf s1" "fs s1 = fs s"
      "s' = upd_table t (\<lambda>x. x\<lparr>next_fd := i + 1\<rparr>) (set_fd t i \<lparr>fd_file = f, fd_flags = fl\<rparr> s1)"
proof -
  define s1 where "s1 = (if next_fd (tables s t) < 3 then upd_table t (\<lambda>x. x\<lparr>next_fd := 3\<rparr>) s else s)"
  note tk = tables_ok_fd [OF files_okD(1) [OF ok] t]
  have s1: "files_ok T F kd kf s1" "fs s1 = fs s" "fds (tables s1 t) = fds (tables s t)" "max_fds (tables s1 t) = max_fds (tables s t)"
    "3 \<le> next_fd (tables s1 t)" "next_fd (tables s1 t) \<le> max_fds (tables s t)"
    using ok tk by (auto simp: s1_def upd_table_def intro!: files_ok_upd [unfolded upd_table_def])
  have nz: "t \<noteq> 0" "f \<noteq> 0" using tk(5) files_okD(3) [OF ok] f by auto
  let ?x = "tables s1 t"
  show thesis
  proof (cases "first_free ?x [next_fd ?x..<max_fds ?x]")
    case (Some i)
    then have "r = Inr i" "s' = upd_table t (\<lambda>x. x\<lparr>next_fd := i + 1\<rparr>) (set_fd t i \<lparr>fd_file = f, fd_flags = fl\<rparr> s1)"
      using r nz by (simp_all add: fd_alloc_def s1_def [symmetric] Let_def)
    then show thesis using that(2) [of i s1] s1 first_free_Some [OF Some] by auto
  next
    case N: None
    show thesis
    proof (cases "first_free ?x [3..<next_fd ?x]")
      case (Some i)
      then have "r = Inr i" "s' = upd_table t (\<lambda>x. x\<lparr>next_fd := i + 1\<rparr>) (set_fd t i \<lparr>fd_file = f, fd_flags = fl\<rparr> s1)"
        using N r nz by (simp_all add: fd_alloc_def s1_def [symmetric] Let_def)
      then show thesis using that(2) [of i s1] s1 first_free_Some [OF Some] by auto
    next
      case None
      then have "r = Inl EMFILE" "s' = s1" using N r nz by (simp_all add: fd_alloc_def s1_def [symmetric] Let_def)
      then show thesis using that(1) s1(1,2) by blast
    qed
  qed
qed

lemma fd_alloc_ok:
  assumes ok: "files_ok T F kd kf s" and t: "t \<in> T" and f: "f \<in> F" "0 < kf f" and r: "fd_alloc t f fl s = (s', Inr i)"
  shows "files_ok T F kd (kf(f := kf f - 1)) s'"
  using ok t f(1) r
proof (cases rule: fd_alloc_cases)
  case (2 i s1)
  have "files_ok T F kd (kf(f := kf f - 1)) (set_fd t i \<lparr>fd_file = f, fd_flags = fl\<rparr> s1)"
    using 2 t f by (intro files_ok_install) auto
  then show ?thesis unfolding 2(9) by (rule files_ok_upd) (use 2(3,6) in \<open>auto simp: set_fd_tables\<close>)
qed simp

lemma fd_alloc_error:
  assumes "files_ok T F kd kf s" "t \<in> T" "f \<in> F" "fd_alloc t f fl s = (s', Inl e)"
  shows "files_ok T F kd kf s'"
  using assms by (cases rule: fd_alloc_cases) simp_all

lemma fd_alloc_get: "fd_alloc t f fl (s\<lparr>fs := v\<rparr>) = (case fd_alloc t f fl s of (s', r) \<Rightarrow> (s'\<lparr>fs := v\<rparr>, r))"
  by (simp add: fd_alloc_def upd_table_def set_fd_def Let_def split: option.split)

lemma fd_get_in:
  assumes ok: "files_ok T F kd kf s" and t: "t \<in> T" and n: "fd_get t fd s \<noteq> 0"
  shows "0 \<le> fd" "nat fd < max_fds (tables s t)" "fd_get t fd s = fd_file (fds (tables s t) ! nat fd)" "fd_get t fd s \<in> F"
proof -
  show *: "0 \<le> fd" "nat fd < max_fds (tables s t)" "fd_get t fd s = fd_file (fds (tables s t) ! nat fd)"
    using n by (auto simp: fd_get_def split: if_splits)
  then have "fds (tables s t) ! nat fd \<in> set (fds (tables s t))" using tables_ok_fd(1) [OF files_okD(1) [OF ok] t] by simp
  then show "fd_get t fd s \<in> F" using files_okD(1) [OF ok] t n *(3) unfolding tables_ok_def by metis
qed

lemma sys_dup_ok:
  assumes ok: "files_ok T F kd kf s" and t: "t \<in> T"
  shows "files_ok T F kd kf (fst (sys_dup t fd s))"
proof (cases "t = 0 \<or> fd < 0 \<or> int (max_fds (tables s t)) \<le> fd \<or> fd_get t fd s = 0")
  case True
  then show ?thesis using ok by (auto simp: sys_dup_def)
next
  case False
  let ?f = "fd_get t fd s" and ?fl = "fd_flags (fds (tables s t) ! nat fd)"
  have f: "?f \<in> F" using fd_get_in [OF ok t] False by blast
  obtain s' r where a: "fd_alloc t ?f ?fl s = (s', r)" by fastforce
  note g = files_ok_get [OF ok f]
  show ?thesis
  proof (cases r)
    case (Inl e)
    then show ?thesis using False a fd_alloc_error [OF ok t f] by (simp add: sys_dup_def Let_def)
  next
    case (Inr i)
    have "fs s' = fs s" using a by (auto simp: fd_alloc_def upd_table_def set_fd_def Let_def split: option.splits if_splits)
    moreover have "files_ok T F kd ((kf(?f := kf ?f + 1))(?f := kf ?f + 1 - 1)) (s'\<lparr>fs := get_file ?f (fs s)\<rparr>)"
      using fd_alloc_ok [OF g t f, of ?fl "s'\<lparr>fs := get_file ?f (fs s)\<rparr>" i] a Inr by (simp add: fd_alloc_get)
    ultimately show ?thesis using False a Inr by (simp add: sys_dup_def Let_def)
  qed
qed

text \<open>Closing a descriptor: its reference goes to the kernel, which drops it.\<close>

lemma put_fd_ok:
  assumes ops: "ops_keep_dentries ops" and ok: "files_ok T F kd kf s" and t: "t \<in> T" "i < max_fds (tables s t)"
    and f: "f = fd_file (fds (tables s t) ! i)" "f \<noteq> 0"
  obtains v F' where "put_file ops f (fs s) = Some v" and "files_ok T F' kd kf (set_fd t i no_fd (s\<lparr>fs := v\<rparr>))"
    and "F' \<subseteq> F" and "\<forall>x\<in>F - F'. kf x = 0" and "f_count (filps (fs s) f) \<noteq> 1 \<Longrightarrow> F' = F"
proof -
  note c = files_ok_clear [OF ok t f]
  have "0 < (kf(f := kf f + 1)) f" by simp
  then obtain v where v: "put_file ops f (fs s) = Some v"
    "files_ok T (if f_count (filps (fs s) f) = 1 then F - {f} else F) kd kf (set_fd t i no_fd s\<lparr>fs := v\<rparr>)"
    by (rule put_file_ok [OF ops c]) (rule that, simp_all add: set_fd_tables)
  have "kf f = 0" if "f_count (filps (fs s) f) = 1"
    using files_okD(5) [OF c(1) c(2)] that by (simp add: set_fd_tables)
  then show thesis using that [OF v(1)] v(2) [unfolded set_fd_fs] by (cases "f_count (filps (fs s) f) = 1") auto
qed

lemma kept_files:
  assumes "files_ok T F' kd kf s" and "F' \<subseteq> F" and "\<forall>x\<in>F - F'. kf x = 0" and "0 \<notin> F"
  shows "F' = {f \<in> F. 0 < kf f + fd_refs T (tables s) f}"
proof (intro set_eqI iffI)
  fix f assume "f \<in> F'"
  then show "f \<in> {f \<in> F. 0 < kf f + fd_refs T (tables s) f}" using files_okD(4,5) [OF assms(1), of f] assms(2) by auto
next
  fix f assume f: "f \<in> {f \<in> F. 0 < kf f + fd_refs T (tables s) f}"
  show "f \<in> F'"
  proof (rule ccontr)
    assume n: "f \<notin> F'"
    then have "fd_refs T (tables s) f \<noteq> 0" using f assms(3) by auto
    then obtain t where "t \<in> T" "holds f (tables s t) \<noteq> 0" unfolding fd_refs_def by (auto elim: sum.not_neutral_contains_not_neutral)
    then obtain e where "t \<in> T" "e \<in> set (fds (tables s t))" "fd_file e = f" by (auto simp: holds_def filter_empty_conv)
    moreover have "f \<noteq> 0" using f assms(4) by auto
    ultimately show False using files_okD(1) [OF assms(1)] n unfolding tables_ok_def by blast
  qed
qed

lemma sys_close_ok:
  assumes ops: "ops_keep_dentries ops" and ok: "files_ok T F kd kf s" and t: "t \<in> T"
  shows "\<exists>s' r. sys_close ops t fd s = Some (s', r) \<and> files_ok T {f \<in> F. 0 < kf f + fd_refs T (tables s') f} kd kf s'"
proof (cases "t = 0 \<or> fd < 0 \<or> int (max_fds (tables s t)) \<le> fd \<or> fd_get t fd s = 0")
  case True
  then show ?thesis using ok kept_files [OF ok subset_refl] files_okD(3) [OF ok] by (auto simp: sys_close_def)
next
  case False
  note g = fd_get_in [OF ok t, of fd]
  obtain v F' where v: "put_file ops (fd_get t fd s) (fs s) = Some v" "files_ok T F' kd kf (set_fd t (nat fd) no_fd (s\<lparr>fs := v\<rparr>))"
    "F' \<subseteq> F" "\<forall>x\<in>F - F'. kf x = 0"
    by (rule put_fd_ok [OF ops ok t, of "nat fd" "fd_get t fd s"]) (use g False in auto)
  let ?s = "set_fd t (nat fd) no_fd (s\<lparr>fs := v\<rparr>)"
  let ?s' = "if 3 \<le> fd then lower_next t (nat fd) ?s else ?s"
  have "sys_close ops t fd s = Some (?s', Inr ())"
    using False v(1) by (simp add: sys_close_def Let_def set_fd_def upd_table_def lower_next_def)
  moreover have k: "files_ok T F' kd kf ?s'" using v(2) files_ok_lower by auto
  ultimately show ?thesis using kept_files [OF k v(3,4) files_okD(3) [OF ok]] by auto
qed

lemma fd_get_set:
  "fd_get t fd (set_fd t i e s) =
     (if 0 \<le> fd \<and> nat fd = i \<and> i < max_fds (tables s t) \<and> i < length (fds (tables s t)) then fd_file e else fd_get t fd s)"
  by (cases "i < length (fds (tables s t))") (auto simp: fd_get_def set_fd_tables nth_list_update list_update_beyond)

lemma dup_onto_ok:
  assumes ok: "files_ok T F kd kf s" and t: "t \<in> T" and f: "fd_get t old s = f" "f \<noteq> 0" and n: "i < max_fds (tables s t)"
    and free: "fd_file (fds (tables s t) ! i) = 0"
  shows "files_ok T F kd kf (set_fd t i \<lparr>fd_file = f, fd_flags = fl\<rparr> (s\<lparr>fs := get_file f (fs s)\<rparr>))"
proof -
  have fF: "f \<in> F" using fd_get_in(4) [OF ok t, of old] f by simp
  have "files_ok T F kd ((kf(f := kf f + 1))(f := (kf(f := kf f + 1)) f - 1)) (set_fd t i \<lparr>fd_file = f, fd_flags = fl\<rparr> (s\<lparr>fs := get_file f (fs s)\<rparr>))"
    by (rule files_ok_install [OF files_ok_get [OF ok fF] t]) (use n free fF in simp_all)
  then show ?thesis by simp
qed

lemma sys_dup2_ok:
  assumes ops: "ops_keep_dentries ops" and ok: "files_ok T F kd kf s" and t: "t \<in> T"
  shows "\<exists>s' r. sys_dup2 ops t old new s = Some (s', r) \<and> files_ok T {f \<in> F. 0 < kf f + fd_refs T (tables s') f} kd kf s'"
proof (cases "t = 0 \<or> old < 0 \<or> int (max_fds (tables s t)) \<le> old \<or> new < 0 \<or> int (max_fds (tables s t)) \<le> new \<or> fd_get t old s = 0 \<or> old = new")
  case True
  then have "\<exists>r. sys_dup2 ops t old new s = Some (s, r)"
    unfolding sys_dup2_def by (elim disjE) (simp_all add: Let_def cong: if_cong)
  then show ?thesis using ok kept_files [OF ok subset_refl] files_okD(3) [OF ok] by auto
next
  case False
  let ?f = "fd_get t old s"
  have n: "nat new < max_fds (tables s t)" "nat old \<noteq> nat new" using False by auto
  show ?thesis
  proof (cases "fd_get t new s = 0")
    case True
    then have fr: "fd_file (fds (tables s t) ! nat new) = 0" using False by (simp add: fd_get_def)
    let ?s' = "set_fd t (nat new) \<lparr>fd_file = ?f, fd_flags = fd_flags (fds (tables s t) ! nat old)\<rparr> (s\<lparr>fs := get_file ?f (fs s)\<rparr>)"
    have "sys_dup2 ops t old new s = Some (?s', Inr new)" using False True by (simp add: sys_dup2_def Let_def)
    moreover have k: "files_ok T F kd kf ?s'" using dup_onto_ok [OF ok t refl _ n(1) fr] False by simp
    ultimately show ?thesis using kept_files [OF k subset_refl] files_okD(3) [OF ok] by auto
  next
    case g: False
    obtain v F' where v: "put_file ops (fd_get t new s) (fs s) = Some v" "files_ok T F' kd kf (set_fd t (nat new) no_fd (s\<lparr>fs := v\<rparr>))"
      "F' \<subseteq> F" "\<forall>x\<in>F - F'. kf x = 0"
      by (rule put_fd_ok [OF ops ok t, of "nat new" "fd_get t new s"]) (use fd_get_in [OF ok t g] g in auto)
    let ?s1 = "set_fd t (nat new) no_fd (s\<lparr>fs := v\<rparr>)"
    have "fd_get t old ?s1 = ?f" using n by (simp add: fd_get_set) (simp add: fd_get_def)
    let ?s' = "set_fd t (nat new) \<lparr>fd_file = ?f, fd_flags = fd_flags (fds (tables s t) ! nat old)\<rparr> (?s1\<lparr>fs := get_file ?f v\<rparr>)"
    have len: "length (fds (tables s t)) = max_fds (tables s t)" by (rule tables_ok_fd(1) [OF files_okD(1) [OF ok] t])
    have "sys_dup2 ops t old new s = Some (?s', Inr new)"
      using False g v(1) n by (simp add: sys_dup2_def Let_def set_fd_def upd_table_def)
    moreover have k: "files_ok T F' kd kf ?s'"
      using dup_onto_ok [OF v(2) t \<open>fd_get t old ?s1 = ?f\<close>, of "nat new"] False n(1) len by (simp add: set_fd_tables no_fd_def)
    ultimately show ?thesis using kept_files [OF k v(3,4) files_okD(3) [OF ok]] by auto
  qed
qed

section \<open>Tables that come and go\<close>

lemma holds_empty: "f \<noteq> 0 \<Longrightarrow> holds f x = 0" if "\<forall>e\<in>set (fds x). fd_file e = 0"
  using that by (auto simp: holds_def filter_empty_conv)

lemma files_ok_new:
  assumes ok: "files_ok T F kd kf s" and n: "new \<notin> T" "new \<noteq> 0"
    and s': "tables s' = (tables s)(new := x)" "filps (fs s') = filps (fs s)" "dentries (fs s') = dentries (fs s)"
    and x: "fds x = replicate (max_fds x) no_fd" "next_fd x \<le> max_fds x" "3 \<le> max_fds x"
  shows "files_ok (insert new T) F kd kf s'"
proof (rule files_ok_tables [OF ok _ s'(2,3)])
  note d = files_okD [OF ok]
  have T: "tables s' u = tables s u" if "u \<in> T" for u using n(1) that by (auto simp: s'(1))
  show "tables_ok (insert new T) F (tables s')"
    using d(1) n x unfolding tables_ok_def by (auto simp: s'(1) no_fd_def)
  fix f assume "f \<in> F"
  then have "holds f x = 0" using d(3) x(1) by (intro holds_empty) (auto simp: no_fd_def)
  moreover have "(\<Sum>u\<in>T. holds f (tables s' u)) = (\<Sum>u\<in>T. holds f (tables s u))" using T by simp
  ultimately show "kf f + fd_refs T (tables s) f = kf f + fd_refs (insert new T) (tables s') f"
    using d(1) n(1) by (simp add: fd_refs_def tables_ok_def s'(1))
qed

lemma files_ok_gone:
  assumes ok: "files_ok T F kd kf s" and e: "\<forall>e\<in>set (fds (tables s t)). fd_file e = 0" and t: "t \<in> T"
    and s': "tables s' = tables s" "filps (fs s') = filps (fs s)" "dentries (fs s') = dentries (fs s)"
  shows "files_ok (T - {t}) F kd kf s'"
proof (rule files_ok_tables [OF ok _ s'(2,3)])
  note d = files_okD [OF ok]
  show "tables_ok (T - {t}) F (tables s')" using d(1) by (auto simp: s'(1) tables_ok_def)
  fix f assume "f \<in> F"
  then have "holds f (tables s t) = 0" using d(3) e by (intro holds_empty) auto
  moreover have "fd_refs T (tables s) f = holds f (tables s t) + fd_refs (T - {t}) (tables s) f"
    unfolding fd_refs_def using d(1) t by (intro sum.remove) (simp add: tables_ok_def)
  ultimately show "kf f + fd_refs T (tables s) f = kf f + fd_refs (T - {t}) (tables s') f" by (simp add: s'(1))
qed

lemma fd_table_create_effect:
  assumes "fd_table_create s = (s', new)"
  shows "filps (fs s') = filps (fs s)" "dentries (fs s') = dentries (fs s)"
    "new = 0 \<Longrightarrow> tables s' = tables s"
    "new \<noteq> 0 \<Longrightarrow> \<exists>x. tables s' = (tables s)(new := x) \<and> fds x = replicate PROC_MAX_FDS no_fd \<and> max_fds x = PROC_MAX_FDS \<and>
       next_fd x = 3 \<and> fdt_refcount x = 1"
  using assms by (auto simp: fd_table_create_def upd_table_def Let_def split: prod.splits if_splits)

lemma clone_fds_ok:
  assumes "files_ok T F kd kf s" and "old \<in> T" "new \<in> T" "old \<noteq> new"
    and "set js \<subseteq> {..<max_fds (tables s old)}" "distinct js" "max_fds (tables s old) \<le> max_fds (tables s new)"
    and "\<forall>i\<in>set js. fd_file (fds (tables s new) ! i) = 0"
  shows "files_ok T F kd kf (clone_fds old new js s) \<and> tables (clone_fds old new js s) old = tables s old \<and>
    max_fds (tables (clone_fds old new js s) new) = max_fds (tables s new) \<and>
    (\<forall>i<max_fds (tables s new). fd_file (fds (tables (clone_fds old new js s) new) ! i) =
      (if i \<in> set js then fd_file (fds (tables s old) ! i) else fd_file (fds (tables s new) ! i)))"
  using assms
proof (induction js arbitrary: s)
  case (Cons i js)
  let ?e = "fds (tables s old) ! i"
  note ln = tables_ok_fd(1) [OF files_okD(1) [OF Cons.prems(1)] Cons.prems(3)]
  show ?case
  proof (cases "fd_file ?e = 0")
    case True
    then show ?thesis using Cons.IH [of s] Cons.prems by (auto simp: Let_def)
  next
    case False
    define s1 where "s1 = set_fd new i ?e (s\<lparr>fs := get_file (fd_file ?e) (fs s)\<rparr>)"
    have r: "clone_fds old new (i # js) s = clone_fds old new js s1" using False by (simp add: s1_def Let_def set_fd_fs set_fd_tables(2))
    have i: "i < max_fds (tables s old)" "i < max_fds (tables s new)" "fd_file (fds (tables s new) ! i) = 0" using Cons.prems by auto
    have "fd_get old (int i) s = fd_file ?e" using i(1) by (simp add: fd_get_def)
    then have "fd_file ?e \<in> F" using fd_get_in(4) [OF Cons.prems(1,2), of "int i"] False by simp
    from files_ok_install [OF files_ok_get [OF Cons.prems(1) this] Cons.prems(3), of i "fd_file ?e" "fd_flags ?e"]
    have "files_ok T F kd kf (set_fd new i \<lparr>fd_file = fd_file ?e, fd_flags = fd_flags ?e\<rparr> (s\<lparr>fs := get_file (fd_file ?e) (fs s)\<rparr>))"
      using \<open>fd_file ?e \<in> F\<close> i(2,3) by simp
    moreover have "\<lparr>fd_file = fd_file ?e, fd_flags = fd_flags ?e\<rparr> = ?e" by simp
    ultimately have ok: "files_ok T F kd kf s1" by (simp only: s1_def)
    have s1: "tables s1 old = tables s old" "max_fds (tables s1 new) = max_fds (tables s new)"
      "fds (tables s1 new) = (fds (tables s new))[i := ?e]" using Cons.prems(4) by (simp_all add: s1_def set_fd_tables)
    have j: "fd_file (fds (tables s1 new) ! j) = (if j = i then fd_file ?e else fd_file (fds (tables s new) ! j))" if "j < max_fds (tables s new)" for j
      unfolding s1(3) using that i(2) ln by (auto simp: nth_list_update)
    have "\<forall>j\<in>set js. fd_file (fds (tables s1 new) ! j) = 0" 
    proof
      fix k assume k: "k \<in> set js"
      then have "k \<noteq> i" using Cons.prems(6) by auto
      then show "fd_file (fds (tables s1 new) ! k) = 0" unfolding s1(3) using Cons.prems(8) k by simp
    qed
    then show ?thesis
      unfolding r using Cons.IH [OF ok Cons.prems(2-4)] Cons.prems(5-7) s1(1,2) j by auto
  qed
qed simp

lemma fd_table_clone_ok:
  assumes ok: "files_ok T F kd kf s" and old: "old \<in> T" "max_fds (tables s old) \<le> PROC_MAX_FDS"
    and r: "fd_table_clone old s = (s', new)" and n: "new \<notin> T"
  shows "new = 0 \<Longrightarrow> files_ok T F kd kf s'"
    and "new \<noteq> 0 \<Longrightarrow> files_ok (insert new T) F kd kf s'"
    and "new \<noteq> 0 \<Longrightarrow> \<forall>i<max_fds (tables s old). fd_file (fds (tables s' new) ! i) = fd_file (fds (tables s old) ! i)"
    and "new \<noteq> 0 \<Longrightarrow> next_fd (tables s' new) = next_fd (tables s old)"
proof -
  obtain s1 where c: "fd_table_create s = (s1, new)" using r by (auto simp: fd_table_clone_def Let_def split: prod.splits if_splits)
  note e = fd_table_create_effect [OF c]
  have tk: "tables_ok T F (tables s)" by (rule files_okD(1) [OF ok])
  have on: "old \<noteq> new" using old n by auto
  {
    assume z: "new = 0"
    then have "s' = s1" using r c by (simp add: fd_table_clone_def)
    then show "files_ok T F kd kf s'" using files_ok_tables [OF ok _ e(1,2)] e(3) [OF z] tk by simp
  }
  assume nz: "new \<noteq> 0"
  obtain x where x: "tables s1 = (tables s)(new := x)" "fds x = replicate PROC_MAX_FDS no_fd" "max_fds x = PROC_MAX_FDS" "next_fd x = 3"
    using e(4) [OF nz] by blast
  let ?c = "clone_fds old new [0..<max_fds (tables s1 old)] s1"
  have s': "s' = upd_table new (\<lambda>x. x\<lparr>next_fd := next_fd (tables s old)\<rparr>) ?c"
    using r c nz x(1) on by (simp add: fd_table_clone_def)
  have ok1: "files_ok (insert new T) F kd kf s1"
    by (rule files_ok_new [OF ok n nz x(1) e(1,2)]) (simp_all add: x(2-4) PROC_MAX_FDS_def)
  have s1: "tables s1 old = tables s old" "tables s1 new = x" using on by (simp_all add: x(1))
  have cl: "files_ok (insert new T) F kd kf ?c" "max_fds (tables ?c new) = PROC_MAX_FDS"
    "\<forall>i<max_fds (tables s old). fd_file (fds (tables ?c new) ! i) = fd_file (fds (tables s old) ! i)"
    using clone_fds_ok [OF ok1, of old new "[0..<max_fds (tables s1 old)]"] old on by (auto simp: s1 x no_fd_def lessThan_atLeast0)
  have nx: "next_fd (tables s old) \<le> PROC_MAX_FDS" using tables_ok_fd(2) [OF tk old(1)] old(2) by simp
  show "files_ok (insert new T) F kd kf s'" unfolding s' by (rule files_ok_upd [OF cl(1)]) (use cl(2) nx in simp_all)
  show "\<forall>i<max_fds (tables s old). fd_file (fds (tables s' new) ! i) = fd_file (fds (tables s old) ! i)"
    "next_fd (tables s' new) = next_fd (tables s old)"
    using cl(3) by (simp_all add: s' upd_table_def)
qed

lemma free_fds_ok:
  assumes "ops_keep_dentries ops" and "files_ok T F kd kf s" and "t \<in> T" "set js \<subseteq> {..<max_fds (tables s t)}"
  shows "\<exists>s' F'. free_fds ops t js s = Some s' \<and> files_ok T F' kd kf s' \<and> F' \<subseteq> F \<and> (\<forall>x\<in>F - F'. kf x = 0) \<and>
    (\<forall>i. i \<in> set js \<or> fd_file (fds (tables s t) ! i) = 0 \<longrightarrow> fd_file (fds (tables s' t) ! i) = 0) \<and>
    max_fds (tables s' t) = max_fds (tables s t) \<and> (\<forall>u. u \<noteq> t \<longrightarrow> tables s' u = tables s u)"
  using assms
proof (induction js arbitrary: s F)
  case (Cons i js)
  let ?f = "fd_file (fds (tables s t) ! i)"
  show ?case
  proof (cases "?f = 0")
    case True
    then show ?thesis using Cons.IH [of F s] Cons.prems by (auto simp: Let_def)
  next
    case False
    have i: "i < max_fds (tables s t)" using Cons.prems by simp
    note ln = tables_ok_fd(1) [OF files_okD(1) [OF Cons.prems(2)] Cons.prems(3)]
    obtain v F1 where v: "put_file ops ?f (fs s) = Some v" "files_ok T F1 kd kf (set_fd t i no_fd (s\<lparr>fs := v\<rparr>))"
      "F1 \<subseteq> F" "\<forall>x\<in>F - F1. kf x = 0"
      by (rule put_fd_ok [OF Cons.prems(1-3) i refl False])
    let ?s1 = "set_fd t i no_fd (s\<lparr>fs := v\<rparr>)"
    have t1: "fds (tables ?s1 t) = (fds (tables s t))[i := no_fd]" "max_fds (tables ?s1 t) = max_fds (tables s t)"
      "\<forall>u. u \<noteq> t \<longrightarrow> tables ?s1 u = tables s u" by (simp_all add: set_fd_tables)
    have z: "fd_file (fds (tables ?s1 t) ! j) = 0" if "j = i \<or> fd_file (fds (tables s t) ! j) = 0" for j
      unfolding t1(1) using that i ln by (cases "j = i") (auto simp: no_fd_def)
    obtain s' F' where s': "free_fds ops t js ?s1 = Some s'" "files_ok T F' kd kf s'" "F' \<subseteq> F1" "\<forall>x\<in>F1 - F'. kf x = 0"
      "\<forall>i. i \<in> set js \<or> fd_file (fds (tables ?s1 t) ! i) = 0 \<longrightarrow> fd_file (fds (tables s' t) ! i) = 0"
      "max_fds (tables s' t) = max_fds (tables ?s1 t)" "\<forall>u. u \<noteq> t \<longrightarrow> tables s' u = tables ?s1 u"
      using Cons.IH [OF Cons.prems(1) v(2) Cons.prems(3)] Cons.prems(4) t1(2) by auto
    have "free_fds ops t (i # js) s = Some s'" using s'(1) v(1) False by (simp add: Let_def)
    moreover have "F' \<subseteq> F" "\<forall>x\<in>F - F'. kf x = 0" using s'(3,4) v(3,4) by blast+
    ultimately show ?thesis using s'(2,5-7) t1(2,3) z by (intro exI [of _ s'] exI [of _ F']) auto
  qed
qed auto

lemma fd_table_free_ok:
  assumes ops: "ops_keep_dentries ops" and ok: "files_ok T F kd kf s" and t: "t \<in> T"
  shows "\<exists>s'. fd_table_free ops t s = Some s' \<and>
    (let T' = (if fdt_refcount (tables s t) = 1 then T - {t} else T)
     in files_ok T' {f \<in> F. 0 < kf f + fd_refs T' (tables s') f} kd kf s' \<and> (\<forall>u. u \<noteq> t \<longrightarrow> tables s' u = tables s u))"
proof -
  let ?s1 = "upd_table t (\<lambda>x. x\<lparr>fdt_refcount := fdt_refcount x - 1\<rparr>) s"
  note d = files_okD [OF ok] and tk = tables_ok_fd [OF files_okD(1) [OF ok] t]
  have ok1: "files_ok T F kd kf ?s1" by (rule files_ok_upd [OF ok]) (simp_all add: tk)
  have s1: "tables ?s1 t = (tables s t)\<lparr>fdt_refcount := fdt_refcount (tables s t) - 1\<rparr>" "\<forall>u. u \<noteq> t \<longrightarrow> tables ?s1 u = tables s u"
    by (simp_all add: upd_table_def)
  show ?thesis
  proof (cases "fdt_refcount (tables s t) = 1")
    case False
    then have "fd_table_free ops t s = Some ?s1" using tk(5) s1(1) by (simp add: fd_table_free_def Let_def)
    then show ?thesis using False ok1 s1(2) kept_files [OF ok1 subset_refl _ d(3)] by auto
  next
    case True
    obtain s2 F' where s2: "free_fds ops t [0..<max_fds (tables ?s1 t)] ?s1 = Some s2" "files_ok T F' kd kf s2" "F' \<subseteq> F"
      "\<forall>x\<in>F - F'. kf x = 0" "\<forall>i<max_fds (tables s t). fd_file (fds (tables s2 t) ! i) = 0"
      "max_fds (tables s2 t) = max_fds (tables s t)" "\<forall>u. u \<noteq> t \<longrightarrow> tables s2 u = tables s u"
      using free_fds_ok [OF ops ok1 t, of "[0..<max_fds (tables ?s1 t)]"] s1 by (auto simp: lessThan_atLeast0)
    let ?s' = "s2\<lparr>fs := (fs s2)\<lparr>vheap := kfree t (kfree (fds_addr (tables s2 t)) (vheap (fs s2)))\<rparr>\<rparr>"
    have run: "fd_table_free ops t s = Some ?s'" using True tk(5) s1(1) s2(1) by (simp add: fd_table_free_def Let_def)
    have "length (fds (tables s2 t)) = max_fds (tables s t)" using tables_ok_fd(1) [OF files_okD(1) [OF s2(2)] t] s2(6) by simp
    then have "\<forall>e\<in>set (fds (tables s2 t)). fd_file e = 0" using s2(5) by (auto simp: in_set_conv_nth)
    then have k: "files_ok (T - {t}) F' kd kf ?s'" by (rule files_ok_gone [OF s2(2) _ t]) simp_all
    then show ?thesis using True run s2(7) kept_files [OF k s2(3,4) d(3)] by (simp add: Let_def)
  qed
qed

end
