(* ===== verification/Fd_Props.thy ===== *)
theory Fd_Props
  imports Fd_Refs
begin

text \<open>
  What the descriptor operations promise: the reference counts of open files stay exact across
  closing, copying, forking and exiting, a new table never is one that is in use, and a new descriptor
  is the lowest free one.
\<close>

section \<open>The new table comes from the heap\<close>

definition caches_ready :: "heap \<Rightarrow> bool" where
  "caches_ready h \<longleftrightarrow> heap_inv h \<and> slab_initialized h \<and> length (size_caches h) = length size_classes \<and>
     set (size_caches h) \<subseteq> set (cache_list h)"

lemma fd_table_create_fresh:
  assumes "caches_ready (vheap (fs s))" and "fd_table_create s = (s', new)" and "new \<noteq> 0"
  shows "new \<notin> live (vheap (fs s))"
proof -
  let ?h = "vheap (fs s)"
  obtain h1 where k: "kzalloc sizeof_fd_table ?h = (h1, new)"
    using assms(2,3) by (auto simp: fd_table_create_def Let_def split: prod.splits if_splits)
  have "find_size_class sizeof_fd_table = Some 2" by (simp add: find_size_class_def size_classes_def sizeof_fd_table_def)
  then obtain h2 where a: "kmem_cache_alloc (size_caches ?h ! 2) ?h = (h2, new)"
    using k assms(1,3) by (auto simp: kzalloc_def kmalloc_def caches_ready_def sizeof_fd_table_def Let_def split: prod.splits if_splits)
  have "size_caches ?h ! 2 \<in> set (cache_list ?h)" using assms(1) by (auto simp: caches_ready_def size_classes_def)
  then show ?thesis using kmem_cache_alloc_effect [OF _ _ a] assms(1,3) by (simp add: caches_ready_def)
qed

section \<open>The lowest free descriptor\<close>

definition dense :: "fd_table \<Rightarrow> bool" where
  "dense x \<longleftrightarrow> (\<forall>i. 3 \<le> i \<and> i < next_fd x \<longrightarrow> fd_file (fds x ! i) \<noteq> 0)"

lemma first_free_None: "first_free x is = None \<longleftrightarrow> (\<forall>i\<in>set is. fd_file (fds x ! i) \<noteq> 0)"
  by (auto simp: first_free_def find_None_iff)

lemma first_free_least:
  assumes "first_free x [a..<b] = Some i"
  shows "a \<le> i" "i < b" "fd_file (fds x ! i) = 0" "\<And>j. a \<le> j \<Longrightarrow> j < i \<Longrightarrow> fd_file (fds x ! j) \<noteq> 0"
proof -
  obtain n where n: "n < b - a" "fd_file (fds x ! (a + n)) = 0" "i = a + n" "\<forall>j<n. fd_file (fds x ! (a + j)) \<noteq> 0"
    using assms by (auto simp: first_free_def find_Some_iff)
  then show "a \<le> i" "i < b" "fd_file (fds x ! i) = 0" by simp_all
  fix j assume "a \<le> j" "j < i"
  then have "j - a < n" "a + (j - a) = j" using n(3) by auto
  then show "fd_file (fds x ! j) \<noteq> 0" using n(4) by metis
qed

lemma dense_set:
  assumes "dense x" and "i < length (fds x)" and "fd_file e \<noteq> 0"
  shows "dense (x\<lparr>fds := (fds x)[i := e]\<rparr>)"
  using assms by (auto simp: dense_def nth_list_update)

lemma dense_clear:
  assumes "dense x"
  shows "dense (if i < next_fd x then x\<lparr>fds := (fds x)[i := no_fd], next_fd := max i 3\<rparr> else x\<lparr>fds := (fds x)[i := no_fd]\<rparr>)"
  using assms by (auto simp: dense_def)

lemma fd_alloc_first:
  assumes d: "dense (tables s t)" and t: "t \<noteq> 0" "f \<noteq> 0" and n: "next_fd (tables s t) \<le> max_fds (tables s t)" "3 \<le> max_fds (tables s t)"
    and r: "fd_alloc t f fl s = (s', r)"
  shows "(case first_free (tables s t) [3..<max_fds (tables s t)] of None \<Rightarrow> r = Inl EMFILE
    | Some i \<Rightarrow> r = Inr i \<and> tables s' t = (tables s t)\<lparr>fds := (fds (tables s t))[i := \<lparr>fd_file = f, fd_flags = fl\<rparr>], next_fd := i + 1\<rparr>)"
proof -
  let ?x = "tables s t" and ?n = "max (next_fd (tables s t)) 3"
  define s1 where "s1 = (if next_fd ?x < 3 then upd_table t (\<lambda>x. x\<lparr>next_fd := 3\<rparr>) s else s)"
  have s1: "fds (tables s1 t) = fds ?x" "max_fds (tables s1 t) = max_fds ?x" "next_fd (tables s1 t) = ?n"
    "\<And>g. (tables s1 t)\<lparr>fds := g, next_fd := m\<rparr> = ?x\<lparr>fds := g, next_fd := m\<rparr>" for m
    by (auto simp: s1_def upd_table_def)
  have ff: "first_free (tables s1 t) is = first_free ?x is" for "is" by (simp add: first_free_def s1(1))
  have used: "first_free ?x [3..<?n] = None" using d by (auto simp: first_free_None dense_def)
  have app: "[3..<max_fds ?x] = [3..<?n] @ [?n..<max_fds ?x]"
    using n upt_add_eq_append [of 3 ?n "max_fds ?x - ?n"] by simp
  have "find P (xs @ ys) = (case find P xs of None \<Rightarrow> find P ys | Some y \<Rightarrow> Some y)" for P xs and ys :: "nat list"
    by (induction xs) auto
  then have "first_free ?x [3..<max_fds ?x] = first_free ?x [?n..<max_fds ?x]"
    unfolding app using used by (simp add: first_free_def)
  then show ?thesis
    using r t used unfolding fd_alloc_def s1_def [symmetric] Let_def s1(2,3) ff
    by (auto simp: set_fd_tables upd_table_def s1 split: option.splits)
qed

lemma dense_low: "dense x \<Longrightarrow> i < 3 \<Longrightarrow> dense (x\<lparr>fds := (fds x)[i := e]\<rparr>)"
  by (auto simp: dense_def)

lemma sys_close_dense:
  assumes "dense (tables s t)" and "sys_close ops t fd s = Some (s', r)"
  shows "dense (tables s' t)"
proof -
  let ?x = "tables s t"
  consider "tables s' t = ?x" | "fd < 3" "tables s' t = ?x\<lparr>fds := (fds ?x)[nat fd := no_fd]\<rparr>"
    | "tables s' t = (if nat fd < next_fd ?x then ?x\<lparr>fds := (fds ?x)[nat fd := no_fd], next_fd := max (nat fd) 3\<rparr> else ?x\<lparr>fds := (fds ?x)[nat fd := no_fd]\<rparr>)"
    using assms(2) by (auto simp: sys_close_def lower_next_def upd_table_def set_fd_def Let_def split: if_splits option.splits)
  then show ?thesis
  proof cases
    case 3
    then show ?thesis using dense_clear [OF assms(1)] by simp
  qed (use assms(1) dense_low in \<open>simp_all add: nat_less_iff\<close>)
qed

lemma sys_dup2_dense:
  assumes d: "dense (tables s t)" and l: "length (fds (tables s t)) = max_fds (tables s t)" and r: "sys_dup2 ops t old new s = Some (s', r)"
  shows "dense (tables s' t)"
proof -
  let ?x = "tables s t"
  have "s' = s \<or> (\<exists>e. fd_file e \<noteq> 0 \<and> nat new < length (fds ?x) \<and>
      tables s' t = ?x\<lparr>fds := (fds ?x)[nat new := e]\<rparr>)"
    using r l by (auto simp: sys_dup2_def upd_table_def set_fd_def Let_def split: if_splits option.splits intro!: exI)
  then show ?thesis using d dense_set by auto
qed

section \<open>An example\<close>

definition ex_table :: fd_table where
  "ex_table = \<lparr>fds_addr = 0x6000, fds = [no_fd, no_fd, no_fd, \<lparr>fd_file = 0x4000, fd_flags = 0\<rparr>, no_fd, no_fd], max_fds = 6, next_fd = 4,
     fdt_refcount = 1\<rparr>"

definition ex_fds :: "heap \<Rightarrow> u64 \<Rightarrow> fdstate" where
  "ex_fds h t = \<lparr>fs = ex_tree\<lparr>vheap := h, filps := (filps ex_tree)(0x4000 := empty_file\<lparr>f_dentry := 0x3000, f_count := 1\<rparr>)\<rparr>,
     tables = (\<lambda>_. ex_table)\<rparr>"

lemma ex_table_facts:
  "(fds ex_table)[3 := no_fd] = replicate 6 no_fd" "max_fds ex_table = 6" "next_fd ex_table = 4" "fd_file (fds ex_table ! 3) = 0x4000"
  "fd_file (fds ex_table ! 4) = 0" "fdt_refcount ex_table = 1"
  by (simp_all add: ex_table_def no_fd_def numeral_eq_Suc)

definition ex_root :: "u64 \<Rightarrow> nat" where "ex_root = (\<lambda>_. 0)(0x1000 := 1)"

lemma ex_fds_ok:
  assumes "t \<noteq> 0"
  shows "files_ok {t} {0x4000} ex_root (\<lambda>_. 0) (ex_fds h t)"
proof (rule files_okI [where L = "{0x1000, 0x2000, 0x3000}"])
  have "entry_refs {0x4000} (filps (fs (ex_fds h t))) ex_root d = ex_refs d" for d
  proof -
    have "{f. f = 0x4000 \<and> f_dentry (filps (fs (ex_fds h t)) f) = d} = (if d = 0x3000 then {0x4000} else {})"
      by (auto simp: ex_fds_def)
    then show ?thesis by (simp add: entry_refs_def ex_refs_def ex_root_def)
  qed
  then have "entry_refs {0x4000} (filps (fs (ex_fds h t))) ex_root = ex_refs" by blast
  then show "refs_ok {0x1000, 0x2000, 0x3000} (entry_refs {0x4000} (filps (fs (ex_fds h t))) ex_root) (dentries (fs (ex_fds h t)))"
    using ex_tree_ok by (simp add: ex_fds_def)
qed (use assms in \<open>auto simp: ex_fds_def tables_ok_def ex_table_def no_fd_def fd_refs_def holds_def\<close>)

section \<open>Properties\<close>




lemma heap_example_ready:
  obtains h t where "caches_ready h" "t \<in> live h" "t \<noteq> 0"
proof -
  obtain h' obj where a: "kmem_cache_alloc 0x1000 heap_example = (h', obj)" "obj \<noteq> 0" by (rule heap_example_alloc)
  note e = kmem_cache_alloc_effect [OF heap_example_inv(1) _ a(1)]
  let ?h = "h'\<lparr>size_caches := replicate 11 0x1000, slab_initialized := True\<rparr>"
  have "heap_inv ?h = heap_inv h'" "live ?h = live h'" "cache_list ?h = cache_list h'"
    by (simp_all add: heap_inv_def live_def live_objs_def heap_slabs_def)
  then show thesis using that [of ?h obj] e a(2) heap_example_inv(4) by (simp add: caches_ready_def size_classes_def)
qed


text \<open>C27: a new descriptor is the lowest free one from 3 on, and \<^verbatim>\<open>EMFILE\<close> is returned exactly when
  there is none, as long as no descriptor below the hint \<^verbatim>\<open>next_fd\<close> is free. Allocating, \<^verbatim>\<open>fd_free\<close>, closing
  and \<^verbatim>\<open>dup2\<close> keep it that way.\<close>

theorem fd_alloc_lowest:
  assumes "tables_ok T F (tables s)" and "t \<in> T" and "f \<noteq> 0" and "dense (tables s t)"
  shows "(case fd_alloc t f fl s of
      (s', Inl e) \<Rightarrow> e = EMFILE \<and> (\<forall>i. 3 \<le> i \<and> i < max_fds (tables s t) \<longrightarrow> fd_get t (int i) s \<noteq> 0)
    | (s', Inr i) \<Rightarrow> 3 \<le> i \<and> i < max_fds (tables s t) \<and> fd_get t (int i) s = 0 \<and> (\<forall>j. 3 \<le> j \<and> j < i \<longrightarrow> fd_get t (int j) s \<noteq> 0) \<and>
        fd_get t (int i) s' = f \<and> dense (tables s' t)) \<and>
    dense (tables (fd_free t fd s) t) \<and>
    (\<forall>s' r. sys_close ops t fd s = Some (s', r) \<longrightarrow> dense (tables s' t)) \<and>
    (\<forall>s' r. sys_dup2 ops t fd fd' s = Some (s', r) \<longrightarrow> dense (tables s' t))"
proof -
  note tk = tables_ok_fd [OF assms(1,2)]
  let ?x = "tables s t"
  obtain s' r where r: "fd_alloc t f fl s = (s', r)" by fastforce
  note a = fd_alloc_first [OF assms(4) tk(5) assms(3) tk(2,3) r]
  have get: "fd_get t (int i) s = fd_file (fds ?x ! i)" if "i < max_fds ?x" for i using that by (simp add: fd_get_def)
  have "dense (tables (fd_free t fd s) t)"
    using assms(4) dense_clear [OF assms(4), of "nat fd"] by (auto simp: fd_free_def lower_next_def set_fd_def upd_table_def split: if_splits)
  moreover have "case r of Inl e \<Rightarrow> e = EMFILE \<and> (\<forall>i. 3 \<le> i \<and> i < max_fds ?x \<longrightarrow> fd_get t (int i) s \<noteq> 0)
    | Inr i \<Rightarrow> 3 \<le> i \<and> i < max_fds ?x \<and> fd_get t (int i) s = 0 \<and> (\<forall>j. 3 \<le> j \<and> j < i \<longrightarrow> fd_get t (int j) s \<noteq> 0) \<and>
        fd_get t (int i) s' = f \<and> dense (tables s' t)"
  proof (cases "first_free ?x [3..<max_fds ?x]")
    case None
    then have "\<forall>i. 3 \<le> i \<and> i < max_fds ?x \<longrightarrow> fd_file (fds ?x ! i) \<noteq> 0" by (simp add: first_free_None)
    moreover have "r = Inl EMFILE" using a None by simp
    ultimately show ?thesis using get by simp
  next
    case (Some i)
    note l = first_free_least [OF Some]
    have s': "r = Inr i" "tables s' t = ?x\<lparr>fds := (fds ?x)[i := \<lparr>fd_file = f, fd_flags = fl\<rparr>], next_fd := i + 1\<rparr>" using a Some by simp_all
    moreover have "dense (tables s' t)" unfolding s'(2) using l tk(1) assms(3) by (auto simp: dense_def nth_list_update less_Suc_eq)
    ultimately show ?thesis using l tk(1) get by (auto simp: fd_get_def)
  qed
  ultimately show ?thesis using r sys_close_dense [OF assms(4)] sys_dup2_dense [OF assms(4) tk(1)] by (auto split: sum.splits)
qed

theorem fd_alloc_lowest_witness: "\<exists>s'. fd_alloc 0x5000 0x4000 0 (ex_fds heap_example 0x5000) = (s', Inr 4) \<and> dense (tables s' 0x5000)"
proof -
  let ?s = "ex_fds heap_example 0x5000"
  obtain s' where r: "fd_alloc 0x5000 0x4000 0 ?s = (s', Inr 4)"
    by (simp add: fd_alloc_def ex_fds_def ex_table_facts first_free_def Let_def upt_rec [of 4])
  have "fd_file (fds ex_table ! i) \<noteq> 0" if "3 \<le> i" "i < 4" for i
    using that ex_table_facts(4) by (cases "i = 3") auto
  then have "dense (tables ?s 0x5000)" by (auto simp: dense_def ex_fds_def ex_table_facts)
  then show ?thesis
    using conjunct1 [OF fd_alloc_lowest [OF files_okD(1) [OF ex_fds_ok [of "0x5000" heap_example]],
        where f = "0x4000" and fl = 0 and fd = 0 and fd' = 0 and ops = "\<lambda>_. None" and t = "0x5000"]] r by simp
qed

end
