(* ===== verification/Process.thy ===== *)
theory Process
  imports Fdtable Vmm Sched_Inv List_Head
begin

text \<open>
  Processes: \<^verbatim>\<open>proc/process.c\<close> (process identifiers, credentials, creation and destruction, signals, wait)
  and \<^verbatim>\<open>proc/fork.c\<close>. A process is named by its address and its fields are kept in a store; the fields the
  scheduler works on are those of the run queue, under the same name. Credentials and address spaces are
  kept in stores too. The heap is one: the copies that the memory manager and the file system carry
  are set together. The \<^verbatim>\<open>tasks\<close> and \<^verbatim>\<open>children\<close> lists are the lists of the linked processes; the
  \<^verbatim>\<open>thread_group\<close> ring is kept as pointers. A structure that is being filled in is written to its store
  when it is complete. Addresses the linker chooses are an argument, and so is the tick counter.
\<close>

section \<open>State\<close>

record cred =
  uid :: u32
  euid :: u32
  suid :: u32
  fsuid :: u32
  gid :: u32
  egid :: u32
  sgid :: u32
  fsgid :: u32
  ngroups :: u32
  groups :: "u32 list"
  cred_refcount :: int

record sigaction =
  sa_handler :: u64
  sa_mask :: u64
  sa_flags :: int
  sa_restorer :: u64

record cpu_context =
  ctx_rbx :: u64
  ctx_rbp :: u64
  ctx_r12 :: u64
  ctx_r13 :: u64
  ctx_r14 :: u64
  ctx_r15 :: u64
  ctx_rsp :: u64
  ctx_rip :: u64
  fpu_state :: "u8 list"
  fpu_used :: bool

record process =
  pid :: nat
  tgid :: nat
  pgid :: nat
  sid :: nat
  comm :: name
  exit_code :: int
  cpu_ctx :: cpu_context
  kernel_stack :: u64
  kernel_stack_size :: u64
  fs_base :: u64
  gs_base :: u64
  mm :: u64
  files :: u64
  cwd :: u64
  root :: u64
  umask :: u32
  pcred :: u64
  start_time :: u64
  pending :: u64
  blocked :: u64
  sigactions :: "sigaction list"
  parent :: u64
  children :: "u64 list"

record kstate =
  vm :: vmem
  fdt :: fdstate
  rq :: run_queue
  processes :: "u64 \<Rightarrow> process"
  creds :: "u64 \<Rightarrow> cred"
  spaces :: "u64 \<Rightarrow> address_space"
  pid_table :: "u64 list"
  next_pid :: nat
  all_processes :: "u64 list"
  thread_groups :: list_heap
  init_process :: u64
  idle_process :: u64
  init_exec_path :: name
  process_cache :: u64

record symbols =
  kernel_as :: u64
  fork_return :: u64
  idle_thread :: u64
  init_bootstrap_thread :: u64

definition KERNEL_STACK_SIZE :: u64 where "KERNEL_STACK_SIZE = 16 * 1024"
definition PROC_FLAG_IDLE :: u32 where "PROC_FLAG_IDLE = 2"
definition PROC_FLAG_VFORKED :: u32 where "PROC_FLAG_VFORKED = 16"
definition PROC_FLAG_SIGNALED :: u32 where "PROC_FLAG_SIGNALED = 32"
definition SCHED_NORMAL :: int where "SCHED_NORMAL = 0"
definition NSIG :: nat where "NSIG = 32"
definition SIGINT :: nat where "SIGINT = 2"
definition SIG_DFL :: u64 where "SIG_DFL = 0"
definition SIG_IGN :: u64 where "SIG_IGN = 1"
definition NGROUPS_MAX :: nat where "NGROUPS_MAX = 65536"
definition CLONE_VM :: u32 where "CLONE_VM = 0x100"
definition CLONE_FILES :: u32 where "CLONE_FILES = 0x400"
definition CLONE_VFORK :: u32 where "CLONE_VFORK = 0x4000"
definition CLONE_PARENT :: u32 where "CLONE_PARENT = 0x8000"
definition CLONE_THREAD :: u32 where "CLONE_THREAD = 0x10000"

text \<open>The sizes of \<^verbatim>\<open>struct process\<close>, \<^verbatim>\<open>struct cred\<close> and \<^verbatim>\<open>struct cpu_regs\<close>.\<close>

definition sizeof_process :: u64 where "sizeof_process = 6096"
definition sizeof_cred :: u64 where "sizeof_cred = 262184"
definition sizeof_cpu_regs :: u64 where "sizeof_cpu_regs = 176"

definition zero_context :: cpu_context where
  "zero_context = \<lparr>ctx_rbx = 0, ctx_rbp = 0, ctx_r12 = 0, ctx_r13 = 0, ctx_r14 = 0, ctx_r15 = 0, ctx_rsp = 0, ctx_rip = 0,
     fpu_state = replicate 512 0, fpu_used = False\<rparr>"

definition upd_process :: "u64 \<Rightarrow> (process \<Rightarrow> process) \<Rightarrow> kstate \<Rightarrow> kstate" where
  "upd_process p f k = k\<lparr>processes := (processes k)(p := f (processes k p))\<rparr>"

definition upd_rq :: "(run_queue \<Rightarrow> run_queue) \<Rightarrow> kstate \<Rightarrow> kstate" where
  "upd_rq f k = k\<lparr>rq := f (rq k)\<rparr>"

definition current :: "kstate \<Rightarrow> u64" where
  "current k = (case curr (rq k) of None \<Rightarrow> 0 | Some n \<Rightarrow> of_nat n)"

definition set_heap :: "heap \<Rightarrow> kstate \<Rightarrow> kstate" where
  "set_heap h k = k\<lparr>vm := (vm k)\<lparr>hp := h\<rparr>, fdt := (fdt k)\<lparr>fs := (fs (fdt k))\<lparr>vheap := h\<rparr>\<rparr>\<rparr>"

definition with_heap :: "(heap \<Rightarrow> heap \<times> 'a) \<Rightarrow> kstate \<Rightarrow> kstate \<times> 'a" where
  "with_heap f k = (let (h, r) = f (hp (vm k)) in (set_heap h k, r))"

definition with_vm :: "(vmem \<Rightarrow> vmem \<times> 'a) \<Rightarrow> kstate \<Rightarrow> kstate \<times> 'a" where
  "with_vm f k = (let (v, r) = f (vm k) in (set_heap (hp v) (k\<lparr>vm := v\<rparr>), r))"

definition with_fd :: "(fdstate \<Rightarrow> fdstate \<times> 'a) \<Rightarrow> kstate \<Rightarrow> kstate \<times> 'a" where
  "with_fd f k = (let (s, r) = f (fdt k) in (set_heap (vheap (fs s)) (k\<lparr>fdt := s\<rparr>), r))"

definition free_mem :: "u64 \<Rightarrow> kstate \<Rightarrow> kstate" where
  "free_mem p k = set_heap (kfree p (hp (vm k))) k"

definition free_files :: "s_ops \<Rightarrow> u64 \<Rightarrow> kstate \<Rightarrow> kstate option" where
  "free_files ops t k = map_option (\<lambda>s. set_heap (vheap (fs s)) (k\<lparr>fdt := s\<rparr>)) (fd_table_free ops t (fdt k))"

definition free_space :: "u64 \<Rightarrow> kstate \<Rightarrow> kstate" where
  "free_space a k = fst (with_vm (\<lambda>v. (vmm_destroy_address_space (spaces k a) v, ())) k)"

definition upd_memory :: "(mem \<Rightarrow> mem) \<Rightarrow> kstate \<Rightarrow> kstate" where
  "upd_memory f k = set_heap ((hp (vm k))\<lparr>memory := f (memory (hp (vm k)))\<rparr>) k"

section \<open>Process identifiers and credentials\<close>

definition alloc_pid :: "kstate \<Rightarrow> kstate \<times> nat option" where
  "alloc_pid k =
     (case find (\<lambda>i. pid_table k ! i = 0) ([next_pid k..<PID_MAX] @ [1..<next_pid k]) of
        Some i \<Rightarrow> (k\<lparr>next_pid := i + 1\<rparr>, Some i)
      | None \<Rightarrow> (k, None))"

definition free_pid :: "nat \<Rightarrow> kstate \<Rightarrow> kstate" where
  "free_pid n k = (if 0 < n \<and> n < PID_MAX then k\<lparr>pid_table := (pid_table k)[n := 0]\<rparr> else k)"

definition cred_create :: "kstate \<Rightarrow> kstate \<times> u64" where
  "cred_create k =
     (let (k, c) = with_heap (kzalloc sizeof_cred) k
      in if c = 0 then (k, 0)
         else (k\<lparr>creds := (creds k)(c := \<lparr>uid = 0, euid = 0, suid = 0, fsuid = 0, gid = 0, egid = 0, sgid = 0, fsgid = 0,
                 ngroups = 0, groups = replicate NGROUPS_MAX 0, cred_refcount = 1\<rparr>)\<rparr>, c))"

definition cred_clone :: "u64 \<Rightarrow> kstate \<Rightarrow> kstate \<times> u64" where
  "cred_clone old k =
     (let (k, c) = with_heap (kmalloc sizeof_cred) k
      in if c = 0 then (k, 0) else (k\<lparr>creds := (creds k)(c := (creds k old)\<lparr>cred_refcount := 1\<rparr>)\<rparr>, c))"

definition cred_free :: "u64 \<Rightarrow> kstate \<Rightarrow> kstate" where
  "cred_free c k =
     (if c = 0 then k
      else let k = k\<lparr>creds := (creds k)(c := (creds k c)\<lparr>cred_refcount := cred_refcount (creds k c) - 1\<rparr>)\<rparr>
        in if cred_refcount (creds k c) = 0 then free_mem c k else k)"

section \<open>Creation and destruction\<close>

text \<open>The thread information at the bottom of a new kernel stack.\<close>

definition init_thread_info :: "u64 \<Rightarrow> u64 \<Rightarrow> mem \<Rightarrow> mem" where
  "init_thread_info stack proc mem0 =
     (let mem0 = store64 mem0 stack proc;
          mem0 = memset mem0 (stack + 8) 0 4;
          mem0 = memset mem0 (stack + 12) 0 4;
          mem0 = memset mem0 (stack + 16) 0 4
      in store64 mem0 (stack + 24) (stack + KERNEL_STACK_SIZE))"

text \<open>The address space of a new process, 0 when there is no memory for one.\<close>

definition new_space :: "symbols \<Rightarrow> u32 \<Rightarrow> kstate \<Rightarrow> kstate \<times> u64" where
  "new_space sy flgs k =
     (if flgs AND PROC_FLAG_KERNEL = 0
      then case with_vm vmm_create_address_space k of
          (k, None) \<Rightarrow> (k, 0)
        | (k, Some as) \<Rightarrow> (k\<lparr>spaces := (spaces k)(as_addr as := as)\<rparr>, as_addr as)
      else (k, kernel_as sy))"

text \<open>The part of \<^verbatim>\<open>process_create\<close> that cannot fail: the fields, the process table and the lists.\<close>

definition publish :: "u64 \<Rightarrow> u64 \<Rightarrow> nat \<Rightarrow> name \<Rightarrow> u32 \<Rightarrow> u64 \<Rightarrow> u64 \<Rightarrow> u64 \<Rightarrow> u64 \<Rightarrow> kstate \<Rightarrow> kstate" where
  "publish ticks proc n nm flgs stack as fdtab c k =
     (let par = current k;
          k = upd_rq (upd_proc (unat proc) (\<lambda>_. \<lparr>state = PROC_STATE_CREATED, flags = flgs, priority = DEFAULT_PRIO, nice = 0, runtime = 0,
                last_run = 0, time_slice = DEF_TIMESLICE, policy = SCHED_NORMAL, utime = 0, stime = 0, wakeup_tick = 0\<rparr>)) k;
          k = upd_process proc (\<lambda>_. \<lparr>pid = n, tgid = n, pgid = n, sid = n, comm = take 15 nm, exit_code = 0,
                cpu_ctx = zero_context\<lparr>ctx_rsp := stack + KERNEL_STACK_SIZE - 8\<rparr>, kernel_stack = stack,
                kernel_stack_size = KERNEL_STACK_SIZE, fs_base = 0, gs_base = 0, mm = as, files = fdtab, cwd = 0, root = 0, umask = 0,
                pcred = c, start_time = ticks, pending = 0, blocked = 0,
                sigactions = replicate NSIG \<lparr>sa_handler = SIG_DFL, sa_mask = 0, sa_flags = 0, sa_restorer = 0\<rparr>,
                parent = par, children = []\<rparr>) k;
          k = k\<lparr>thread_groups := INIT_LIST_HEAD proc (thread_groups k), pid_table := (pid_table k)[n := proc],
                all_processes := proc # all_processes k\<rparr>
      in if par \<noteq> 0 then upd_process par (\<lambda>q. q\<lparr>children := proc # children q\<rparr>) k else k)"

definition process_create :: "s_ops \<Rightarrow> symbols \<Rightarrow> u64 \<Rightarrow> name \<Rightarrow> u32 \<Rightarrow> kstate \<Rightarrow> (kstate \<times> u64) option" where
  "process_create ops sy ticks nm flgs k =
     (let (k, proc) = with_heap (if process_cache k \<noteq> 0 then kmem_cache_zalloc (process_cache k) else kzalloc sizeof_process) k
      in if proc = 0 then Some (k, 0)
         else case alloc_pid k of
             (k, None) \<Rightarrow> Some (free_mem proc k, 0)
           | (k, Some n) \<Rightarrow>
               (let (k, stack) = with_heap (kmalloc KERNEL_STACK_SIZE) k
                in if stack = 0 then Some (free_mem proc (free_pid n k), 0)
                   else
                     let k = upd_memory (init_thread_info stack proc) k;
                         (k, as) = new_space sy flgs k;
                         undo = (\<lambda>k. free_mem proc (free_pid n (free_mem stack k)))
                     in if as = 0 \<and> flgs AND PROC_FLAG_KERNEL = 0 then Some (undo k, 0)
                        else
                          let undo = (\<lambda>k. undo (if flgs AND PROC_FLAG_KERNEL = 0 then free_space as k else k));
                              (k, fdtab) = with_fd fd_table_create k
                          in if fdtab = 0 then Some (undo k, 0)
                             else
                               let (k, c) = cred_create k
                               in if c = 0 then map_option (\<lambda>k. (undo k, 0)) (free_files ops fdtab k)
                                  else Some (publish ticks proc n nm flgs stack as fdtab c k, proc)))"

definition unlink_process :: "u64 \<Rightarrow> kstate \<Rightarrow> kstate" where
  "unlink_process proc k =
     (let k = k\<lparr>all_processes := remove1 proc (all_processes k),
                processes := (\<lambda>q. (processes k q)\<lparr>children := remove1 proc (children (processes k q))\<rparr>)\<rparr>
      in upd_rq (\<lambda>r. sleep_list_del (unat proc) (run_list_del (unat proc) r)) k)"

text \<open>Dropping one reference to the address space of a user process.\<close>

definition drop_space :: "u64 \<Rightarrow> kstate \<Rightarrow> kstate" where
  "drop_space proc k =
     (let a = mm (processes k proc)
      in if flags (procs (rq k) (unat proc)) AND PROC_FLAG_KERNEL = 0 \<and> a \<noteq> 0
         then let k = k\<lparr>spaces := (spaces k)(a := (spaces k a)\<lparr>as_refcount := as_refcount (spaces k a) - 1\<rparr>)\<rparr>
           in if as_refcount (spaces k a) = 0 then free_space a k else k
         else k)"

definition process_destroy :: "s_ops \<Rightarrow> u64 \<Rightarrow> kstate \<Rightarrow> kstate option" where
  "process_destroy ops proc k =
     (if proc = 0 then Some k
      else
        let k = unlink_process proc k;
            k = free_pid (pid (processes k proc)) k;
            k = cred_free (pcred (processes k proc)) k
        in map_option (\<lambda>k.
             let k = free_mem (kernel_stack (processes k proc)) (drop_space proc k)
             in if process_cache k \<noteq> 0 then set_heap (kmem_cache_free (process_cache k) proc (hp (vm k))) k else free_mem proc k)
             (free_files ops (files (processes k proc)) k))"

definition process_find :: "int \<Rightarrow> kstate \<Rightarrow> u64" where
  "process_find n k = (if n \<le> 0 \<or> int PID_MAX \<le> n then 0 else pid_table k ! nat n)"

section \<open>The first processes\<close>

definition enter_at :: "u64 \<Rightarrow> u64 \<Rightarrow> kstate \<Rightarrow> kstate" where
  "enter_at proc entry k =
     (let rsp = kernel_stack (processes k proc) + kernel_stack_size (processes k proc) - 8;
          k = upd_memory (\<lambda>mem0. store64 mem0 rsp entry) k
      in upd_process proc (\<lambda>q. q\<lparr>cpu_ctx := (cpu_ctx q)\<lparr>ctx_rsp := rsp, ctx_rip := entry\<rparr>\<rparr>) k)"

definition set_state :: "u64 \<Rightarrow> process_state \<Rightarrow> kstate \<Rightarrow> kstate" where
  "set_state proc st = upd_rq (upd_proc (unat proc) (\<lambda>q. q\<lparr>state := st\<rparr>))"

text \<open>\<^const>\<open>None\<close> is the panic when the process cannot be created.\<close>

definition create_idle_process :: "s_ops \<Rightarrow> symbols \<Rightarrow> u64 \<Rightarrow> kstate \<Rightarrow> kstate option" where
  "create_idle_process ops sy ticks k =
     (case process_create ops sy ticks [0x69, 0x64, 0x6C, 0x65] (PROC_FLAG_KERNEL OR PROC_FLAG_IDLE) k of None \<Rightarrow> None
      | Some (k, proc) \<Rightarrow>
          if proc = 0 then None
          else Some (enter_at proc (idle_thread sy) (set_state proc PROC_STATE_READY (k\<lparr>idle_process := proc\<rparr>))))"

definition create_init_process :: "s_ops \<Rightarrow> symbols \<Rightarrow> u64 \<Rightarrow> kstate \<Rightarrow> kstate option" where
  "create_init_process ops sy ticks k =
     (case process_create ops sy ticks [0x69, 0x6E, 0x69, 0x74] PROC_FLAG_KERNEL k of None \<Rightarrow> None
      | Some (k, proc) \<Rightarrow>
          if proc = 0 then None
          else
            let k = upd_process proc (\<lambda>q. q\<lparr>parent := 0\<rparr>) (k\<lparr>init_process := proc\<rparr>);
                c = pcred (processes k proc)
            in Some (k\<lparr>creds := (creds k)(c := (creds k c)\<lparr>uid := 0, euid := 0, gid := 0, egid := 0\<rparr>)\<rparr>))"

definition process_set_init_path :: "symbols \<Rightarrow> name \<Rightarrow> kstate \<Rightarrow> kstate" where
  "process_set_init_path sy path k =
     (if path = [] then k
      else
        let k = k\<lparr>init_exec_path := take 127 path\<rparr>
        in if init_process k \<noteq> 0
           then set_state (init_process k) PROC_STATE_READY (enter_at (init_process k) (init_bootstrap_thread sy) k) else k)"

definition process_init :: "s_ops \<Rightarrow> symbols \<Rightarrow> u64 \<Rightarrow> kstate \<Rightarrow> kstate option" where
  "process_init ops sy ticks k =
     (let k = k\<lparr>pid_table := replicate PID_MAX 0\<rparr>;
          (k, cache) = with_heap (kmem_cache_create sizeof_process 8 0 None) k;
          k = k\<lparr>process_cache := cache\<rparr>
      in case create_idle_process ops sy ticks k of None \<Rightarrow> None
         | Some k \<Rightarrow>
             (case create_init_process ops sy ticks k of None \<Rightarrow> None
              | Some k \<Rightarrow> Some (set_state (init_process k) PROC_STATE_READY (enter_at (init_process k) (init_bootstrap_thread sy) k))))"

section \<open>Fork\<close>

definition copy_mm :: "u64 \<Rightarrow> u64 \<Rightarrow> u32 \<Rightarrow> kstate \<Rightarrow> kstate \<times> unit res" where
  "copy_mm child par flgs k =
     (let a = mm (processes k par)
      in if a = 0 then (k, Inl ENOMEM)
         else if flgs AND CLONE_VM \<noteq> 0
         then (upd_process child (\<lambda>q. q\<lparr>mm := a\<rparr>)
                 (k\<lparr>spaces := (spaces k)(a := (spaces k a)\<lparr>as_refcount := as_refcount (spaces k a) + 1\<rparr>)\<rparr>), Inr ())
         else case with_vm (vmm_clone_address_space (spaces k a)) k of
             (k, None) \<Rightarrow> (upd_process child (\<lambda>q. q\<lparr>mm := 0\<rparr>) k, Inl ENOMEM)
           | (k, Some as) \<Rightarrow>
               (upd_process child (\<lambda>q. q\<lparr>mm := as_addr as\<rparr>) (k\<lparr>spaces := (spaces k)(as_addr as := as)\<rparr>), Inr ()))"

definition copy_files :: "u64 \<Rightarrow> u64 \<Rightarrow> u32 \<Rightarrow> kstate \<Rightarrow> kstate \<times> unit res" where
  "copy_files child par flgs k =
     (let t = files (processes k par)
      in if t = 0 then (k, Inl ENOMEM)
         else if flgs AND CLONE_FILES \<noteq> 0
         then (upd_process child (\<lambda>q. q\<lparr>files := t\<rparr>)
                 (k\<lparr>fdt := upd_table t (\<lambda>x. x\<lparr>fdt_refcount := fdt_refcount x + 1\<rparr>) (fdt k)\<rparr>), Inr ())
         else let (k, new) = with_fd (fd_table_clone t) k; k = upd_process child (\<lambda>q. q\<lparr>files := new\<rparr>) k
           in if new = 0 then (k, Inl ENOMEM) else (k, Inr ()))"

definition copy_cred :: "u64 \<Rightarrow> u64 \<Rightarrow> kstate \<Rightarrow> kstate \<times> unit res" where
  "copy_cred child par k =
     (if pcred (processes k par) = 0 then (k, Inl ENOMEM)
      else let (k, c) = cred_clone (pcred (processes k par)) k; k = upd_process child (\<lambda>q. q\<lparr>pcred := c\<rparr>) k
        in if c = 0 then (k, Inl ENOMEM) else (k, Inr ()))"

definition copy_sighand :: "u64 \<Rightarrow> u64 \<Rightarrow> kstate \<Rightarrow> kstate" where
  "copy_sighand child par k =
     upd_process child (\<lambda>q. q\<lparr>sigactions := sigactions (processes k par), blocked := blocked (processes k par), pending := 0\<rparr>) k"

definition setup_child_context :: "symbols \<Rightarrow> u64 \<Rightarrow> u64 \<Rightarrow> u64 \<Rightarrow> kstate \<Rightarrow> kstate" where
  "setup_child_context sy child stack regs k =
     (let top = kernel_stack (processes k child) + kernel_stack_size (processes k child);
          frame_rsp = top - 8 - sizeof_cpu_regs;
          child_regs = frame_rsp + 8;
          k = upd_process child (\<lambda>q. q\<lparr>cpu_ctx := zero_context\<lparr>ctx_rsp := frame_rsp\<rparr>\<rparr>) k
      in upd_memory (\<lambda>mem0.
           let mem0 = store64 mem0 frame_rsp (fork_return sy);
               mem0 = memcpy mem0 child_regs regs (unat sizeof_cpu_regs);
               mem0 = store64 mem0 (child_regs + 112) 0
           in if stack \<noteq> 0 then store64 mem0 (child_regs + 160) stack else mem0) k)"

text \<open>The default resources of the child are given back before the parent's are copied.\<close>

definition drop_defaults :: "s_ops \<Rightarrow> u64 \<Rightarrow> kstate \<Rightarrow> kstate option" where
  "drop_defaults ops child k =
     (let k = (if mm (processes k child) \<noteq> 0 \<and> flags (procs (rq k) (unat child)) AND PROC_FLAG_KERNEL = 0
               then upd_process child (\<lambda>q. q\<lparr>mm := 0\<rparr>) (free_space (mm (processes k child)) k) else k)
      in case (if files (processes k child) \<noteq> 0
               then map_option (upd_process child (\<lambda>q. q\<lparr>files := 0\<rparr>)) (free_files ops (files (processes k child)) k) else Some k) of
          None \<Rightarrow> None
        | Some k \<Rightarrow>
            Some (if pcred (processes k child) \<noteq> 0
                  then upd_process child (\<lambda>q. q\<lparr>pcred := 0\<rparr>) (cred_free (pcred (processes k child)) k) else k))"

definition copy_fs_info :: "u64 \<Rightarrow> u64 \<Rightarrow> kstate \<Rightarrow> kstate" where
  "copy_fs_info child par k =
     (let q0 = processes k par
      in upd_process child (\<lambda>q. q\<lparr>cwd := cwd q0, root := root q0, umask := umask q0, fs_base := fs_base q0, gs_base := gs_base q0,
           pgid := pgid q0, sid := sid q0\<rparr>) k)"

text \<open>\<^verbatim>\<open>CLONE_PARENT\<close>: the child becomes a sibling of its creator. \<^verbatim>\<open>CLONE_THREAD\<close>: it joins the thread group.\<close>

definition reparent :: "u64 \<Rightarrow> u64 \<Rightarrow> kstate \<Rightarrow> kstate" where
  "reparent child par k =
     (let k = (if parent (processes k child) \<noteq> 0
               then k\<lparr>processes := (\<lambda>q. (processes k q)\<lparr>children := remove1 child (children (processes k q))\<rparr>)\<rparr> else k);
          g = parent (processes k par);
          k = upd_process child (\<lambda>q. q\<lparr>parent := g\<rparr>) k
      in if g \<noteq> 0 then upd_process g (\<lambda>q. q\<lparr>children := child # children q\<rparr>) k else k)"

definition join_group :: "u64 \<Rightarrow> u64 \<Rightarrow> kstate \<Rightarrow> kstate" where
  "join_group child par k =
     upd_process child (\<lambda>q. q\<lparr>tgid := tgid (processes k par)\<rparr>) (k\<lparr>thread_groups := list_add child par (thread_groups k)\<rparr>)"

text \<open>What \<^verbatim>\<open>do_fork\<close> does after the copies that can fail.\<close>

definition start_child :: "symbols \<Rightarrow> u32 \<Rightarrow> u64 \<Rightarrow> u64 \<Rightarrow> u64 \<Rightarrow> u64 \<Rightarrow> kstate \<Rightarrow> kstate" where
  "start_child sy flgs stack regs child par k =
     (let k = copy_fs_info child par (copy_sighand child par k);
          k = setup_child_context sy child stack regs k;
          k = (if flgs AND CLONE_PARENT \<noteq> 0 then reparent child par k else k);
          k = (if flgs AND CLONE_THREAD \<noteq> 0 then join_group child par k else k);
          k = upd_rq (scheduler_enqueue (unat child)) k
      in if flgs AND CLONE_VFORK \<noteq> 0
         then upd_rq (upd_proc (unat par) (\<lambda>q. q\<lparr>flags := flags q OR PROC_FLAG_VFORKED\<rparr>)) k else k)"

definition do_fork :: "s_ops \<Rightarrow> symbols \<Rightarrow> u64 \<Rightarrow> u32 \<Rightarrow> u64 \<Rightarrow> u64 \<Rightarrow> kstate \<Rightarrow> (kstate \<times> nat res) option" where
  "do_fork ops sy ticks flgs stack regs k =
     (let par = current k
      in case process_create ops sy ticks (comm (processes k par)) 0 k of
          None \<Rightarrow> None
        | Some (k, child) \<Rightarrow>
            if child = 0 then Some (k, Inl ENOMEM)
            else case drop_defaults ops child k of
                None \<Rightarrow> None
              | Some k \<Rightarrow>
                  (let fail = (\<lambda>e k. map_option (\<lambda>k. (k, Inl e)) (process_destroy ops child k))
                   in case copy_mm child par flgs k of
                       (k, Inl e) \<Rightarrow> fail e k
                     | (k, Inr _) \<Rightarrow>
                         (case copy_files child par flgs k of
                            (k, Inl e) \<Rightarrow> fail e k
                          | (k, Inr _) \<Rightarrow>
                              (case copy_cred child par k of
                                 (k, Inl e) \<Rightarrow> fail e k
                               | (k, Inr _) \<Rightarrow>
                                   let k = start_child sy flgs stack regs child par k
                                   in Some (k, Inr (pid (processes k child)))))))"

definition sys_fork :: "s_ops \<Rightarrow> symbols \<Rightarrow> u64 \<Rightarrow> u64 \<Rightarrow> kstate \<Rightarrow> (kstate \<times> nat res) option" where
  "sys_fork ops sy ticks regs = do_fork ops sy ticks 0 0 regs"

definition sys_vfork :: "s_ops \<Rightarrow> symbols \<Rightarrow> u64 \<Rightarrow> u64 \<Rightarrow> kstate \<Rightarrow> (kstate \<times> nat res) option" where
  "sys_vfork ops sy ticks regs = do_fork ops sy ticks (CLONE_VFORK OR CLONE_VM) 0 regs"

definition sys_clone :: "s_ops \<Rightarrow> symbols \<Rightarrow> u64 \<Rightarrow> u32 \<Rightarrow> u64 \<Rightarrow> u64 \<Rightarrow> kstate \<Rightarrow> (kstate \<times> nat res) option" where
  "sys_clone ops sy ticks flgs stack regs = do_fork ops sy ticks flgs stack regs"

section \<open>Exit and signals\<close>

text \<open>A process that exits does not come back to its caller: \<^verbatim>\<open>Gone\<close> stands for the state in which another
  process runs. \<^const>\<open>None\<close> is the panic of \<^verbatim>\<open>scheduler_exit\<close> without a current process.\<close>

datatype 'a outcome = Returns 'a | Gone

definition do_exit :: "u64 \<Rightarrow> int \<Rightarrow> kstate \<Rightarrow> (kstate \<times> 'a outcome) option" where
  "do_exit ticks code k =
     (let p = current k; k = (if p \<noteq> 0 then upd_process p (\<lambda>q. q\<lparr>exit_code := code\<rparr>) k else k)
      in map_option (\<lambda>r. (k\<lparr>rq := r\<rparr>, Gone)) (scheduler_exit ticks (rq k)))"

definition sig_bit :: "nat \<Rightarrow> u64" where "sig_bit sig = push_bit sig 1"

definition take_signal :: "u64 \<Rightarrow> nat \<Rightarrow> kstate \<Rightarrow> kstate" where
  "take_signal proc sig k =
     upd_rq (upd_proc (unat proc) (\<lambda>q. q\<lparr>flags := flags q OR PROC_FLAG_SIGNALED\<rparr>))
       (upd_process proc (\<lambda>q. q\<lparr>pending := pending q AND NOT (sig_bit sig)\<rparr>) k)"

fun deliver_signals :: "u64 \<Rightarrow> u64 \<Rightarrow> u64 \<Rightarrow> nat list \<Rightarrow> kstate \<Rightarrow> (kstate \<times> unit outcome) option" where
  "deliver_signals ticks proc deliverable [] k = Some (k, Returns ())"
| "deliver_signals ticks proc deliverable (sig # sigs) k =
     (if deliverable AND sig_bit sig = 0 then deliver_signals ticks proc deliverable sigs k
      else
        let k = take_signal proc sig k
        in if sa_handler (sigactions (processes k proc) ! sig) = SIG_IGN then deliver_signals ticks proc deliverable sigs k
           else do_exit ticks (128 + int sig) k)"

definition do_signal_deliver :: "u64 \<Rightarrow> u64 \<Rightarrow> kstate \<Rightarrow> (kstate \<times> unit outcome) option" where
  "do_signal_deliver ticks proc k =
     (if proc = 0 \<or> proc \<noteq> current k then Some (k, Returns ())
      else if pending (processes k proc) AND sig_bit SIGINT \<noteq> 0 then do_exit ticks (128 + int SIGINT) (take_signal proc SIGINT k)
      else
        let deliverable = pending (processes k proc) AND NOT (blocked (processes k proc))
        in if deliverable = 0 then Some (k, Returns ()) else deliver_signals ticks proc deliverable [0..<NSIG] k)"

definition do_kill :: "u64 \<Rightarrow> int \<Rightarrow> int \<Rightarrow> kstate \<Rightarrow> (kstate \<times> unit res outcome) option" where
  "do_kill ticks n sig k =
     (if current k = 0 then Some (k, Returns (Inl ESRCH))
      else
        let target = (if n = 0 \<or> n = int (pid (processes k (current k))) then current k else process_find n k)
        in if target = 0 then Some (k, Returns (Inl ESRCH))
           else if sig \<le> 0 \<or> int NSIG \<le> sig then Some (k, Returns (Inl EINVAL))
           else
             let k = upd_process target (\<lambda>q. q\<lparr>pending := pending q OR sig_bit (nat sig)\<rparr>) k
             in if target = current k
                then map_option (\<lambda>(k, r). (k, case r of Gone \<Rightarrow> Gone | Returns _ \<Rightarrow> Returns (Inr ()))) (do_signal_deliver ticks target k)
                else Some (k, Returns (Inr ())))"

section \<open>Wait\<close>

definition WNOHANG :: u32 where "WNOHANG = 1"

definition find_zombie :: "int \<Rightarrow> u64 \<Rightarrow> kstate \<Rightarrow> u64 option" where
  "find_zombie n par k =
     find (\<lambda>c. (n = -1 \<or> int (pid (processes k c)) = n) \<and> state (procs (rq k) (unat c)) = PROC_STATE_ZOMBIE) (children (processes k par))"

text \<open>Reaping: the process identifier and the status word of the child.\<close>

definition reap :: "s_ops \<Rightarrow> u64 \<Rightarrow> kstate \<Rightarrow> (kstate \<times> (nat \<times> u32) option res) option" where
  "reap ops z k =
     (let reaped = pid (processes k z); code = exit_code (processes k z)
      in map_option (\<lambda>k. (k, Inr (Some (reaped, push_bit 8 (word_of_int code))))) (process_destroy ops z k))"

text \<open>The loop of \<^verbatim>\<open>do_wait\<close>. After the yield other processes run, which the argument \<open>others\<close> stands for,
  until the waiting one is chosen again. A result without a child is the 0 of \<^verbatim>\<open>WNOHANG\<close>; \<^const>\<open>None\<close> is waiting
  for ever.\<close>

partial_function (option) wait_loop ::
  "s_ops \<Rightarrow> u64 \<Rightarrow> (kstate \<Rightarrow> kstate) \<Rightarrow> int \<Rightarrow> u32 \<Rightarrow> u64 \<Rightarrow> kstate \<Rightarrow> (kstate \<times> (nat \<times> u32) option res) option" where
  "wait_loop ops ticks others n opts par k =
     (if find_zombie n par k \<noteq> None then reap ops (the (find_zombie n par k)) k
      else if children (processes k par) = [] then Some (k, Inl ECHILD)
      else if opts AND WNOHANG \<noteq> 0 then Some (k, Inr None)
      else wait_loop ops ticks others n opts par (others (upd_rq (scheduler_yield ticks) k)))"

definition do_wait :: "s_ops \<Rightarrow> u64 \<Rightarrow> (kstate \<Rightarrow> kstate) \<Rightarrow> int \<Rightarrow> u32 \<Rightarrow> kstate \<Rightarrow> (kstate \<times> (nat \<times> u32) option res) option" where
  "do_wait ops ticks others n opts k =
     (if current k = 0 then Some (k, Inl ECHILD) else wait_loop ops ticks others n opts (current k) k)"

end
