(* ===== verification/Process_Table.thy ===== *)
theory Process_Table
  imports Process Fd_Refs
begin

text \<open>
  The process table: every live process is once in the list of all processes and under its own
  identifier in the table, children lists hold live children of their parent, and the scheduler's lists
  hold live processes only. What creation, destruction and fork do to it.
\<close>

section \<open>The invariant\<close>

definition lists_ok :: "run_queue \<Rightarrow> nat set \<Rightarrow> bool" where
  "lists_ok r A \<longleftrightarrow> (\<forall>q\<in>set (queues r). distinct q \<and> set q \<subseteq> A) \<and> distinct (sleep_queue r) \<and> set (sleep_queue r) \<subseteq> A"

definition ptab_ok :: "kstate \<Rightarrow> bool" where
  "ptab_ok k \<longleftrightarrow> length (pid_table k) = PID_MAX \<and> 0 < next_pid k \<and> next_pid k \<le> PID_MAX \<and>
     distinct (all_processes k) \<and> 0 \<notin> set (all_processes k) \<and>
     (\<forall>p\<in>set (all_processes k). 0 < pid (processes k p) \<and> pid (processes k p) < PID_MAX \<and> pid_table k ! pid (processes k p) = p) \<and>
     (\<forall>n<PID_MAX. pid_table k ! n \<noteq> 0 \<longrightarrow> pid_table k ! n \<in> set (all_processes k) \<and> pid (processes k (pid_table k ! n)) = n) \<and>
     (\<forall>p\<in>set (all_processes k). distinct (children (processes k p)) \<and>
        (\<forall>c\<in>set (children (processes k p)). c \<in> set (all_processes k) \<and> parent (processes k c) = p)) \<and>
     lists_ok (rq k) (unat ` set (all_processes k))"

lemma ptab_okD:
  assumes "ptab_ok k"
  shows "length (pid_table k) = PID_MAX" "0 < next_pid k" "next_pid k \<le> PID_MAX" "distinct (all_processes k)" "0 \<notin> set (all_processes k)"
    "p \<in> set (all_processes k) \<Longrightarrow> 0 < pid (processes k p) \<and> pid (processes k p) < PID_MAX \<and> pid_table k ! pid (processes k p) = p"
    "n < PID_MAX \<Longrightarrow> pid_table k ! n \<noteq> 0 \<Longrightarrow> pid_table k ! n \<in> set (all_processes k) \<and> pid (processes k (pid_table k ! n)) = n"
    "p \<in> set (all_processes k) \<Longrightarrow> distinct (children (processes k p))"
    "p \<in> set (all_processes k) \<Longrightarrow> c \<in> set (children (processes k p)) \<Longrightarrow> c \<in> set (all_processes k) \<and> parent (processes k c) = p"
    "lists_ok (rq k) (unat ` set (all_processes k))"
  using assms unfolding ptab_ok_def by blast+

text \<open>What the allocations of a process operation leave alone.\<close>

definition core :: "kstate \<Rightarrow> u64 list \<times> nat \<times> u64 list \<times> (u64 \<Rightarrow> process) \<times> run_queue \<times> u64" where
  "core k = (pid_table k, next_pid k, all_processes k, processes k, rq k, process_cache k)"

lemma core_fields:
  assumes "core k' = core k"
  shows "pid_table k' = pid_table k" "next_pid k' = next_pid k" "all_processes k' = all_processes k" "processes k' = processes k"
    "rq k' = rq k" "process_cache k' = process_cache k"
  using assms by (simp_all add: core_def)

lemma core_heap [simp]: "core (set_heap h k) = core k" "core (free_mem p k) = core k" "core (upd_memory f k) = core k"
  by (simp_all add: core_def set_heap_def free_mem_def upd_memory_def)

lemma core_vm [simp]: "core (k\<lparr>vm := v\<rparr>) = core k" "core (k\<lparr>fdt := s\<rparr>) = core k" "core (k\<lparr>spaces := sp\<rparr>) = core k" "core (k\<lparr>creds := cr\<rparr>) = core k"
  by (simp_all add: core_def)

lemma core_with:
  "with_heap f k = (k', r) \<Longrightarrow> core k' = core k" "with_vm g k = (k', r') \<Longrightarrow> core k' = core k" "with_fd h k = (k', r'') \<Longrightarrow> core k' = core k"
  by (auto simp: with_heap_def with_vm_def with_fd_def split: prod.splits)

lemma core_space [simp]: "core (free_space a k) = core k"
  by (simp add: free_space_def with_vm_def)

lemma core_drop_space [simp]: "core (drop_space p k) = core k"
  by (simp add: drop_space_def Let_def)

lemma core_cred:
  "cred_create k = (k', c) \<Longrightarrow> core k' = core k" "cred_clone old k = (k', c) \<Longrightarrow> core k' = core k"
  by (auto simp: cred_create_def cred_clone_def Let_def split: prod.splits if_splits dest: core_with(1))

lemma core_cred_free [simp]: "core (cred_free c k) = core k"
  by (simp add: cred_free_def Let_def)

lemma core_free_files: "free_files ops t k = Some k' \<Longrightarrow> core k' = core k"
  by (auto simp: free_files_def)

lemma core_new_space: "new_space sy flgs k = (k', a) \<Longrightarrow> core k' = core k"
  by (auto simp: new_space_def split: if_splits prod.splits option.splits dest!: core_with(2))

section \<open>Tables that can be freed\<close>

definition releasable :: "fdstate \<Rightarrow> u64 \<Rightarrow> nat list \<Rightarrow> bool" where
  "releasable s t js \<longleftrightarrow> (\<forall>f. f \<noteq> 0 \<longrightarrow>
     0 < length (filter (\<lambda>i. fd_file (fds (tables s t) ! i) = f) js) \<longrightarrow>
     int (length (filter (\<lambda>i. fd_file (fds (tables s t) ! i) = f) js)) < f_count (filps (fs s) f))"

lemma free_fds_total:
  assumes "releasable s t js" and "distinct js" and "\<forall>i\<in>set js. i < length (fds (tables s t))"
  shows "\<exists>s'. free_fds ops t js s = Some s'"
  using assms
proof (induction js arbitrary: s)
  case (Cons i js)
  let ?f = "fd_file (fds (tables s t) ! i)"
  show ?case
  proof (cases "?f = 0")
    case True
    have "releasable s t js" unfolding releasable_def
    proof (intro allI impI)
      fix f assume "f \<noteq> 0" and p: "0 < length (filter (\<lambda>i. fd_file (fds (tables s t) ! i) = f) js)"
      then show "int (length (filter (\<lambda>i. fd_file (fds (tables s t) ! i) = f) js)) < f_count (filps (fs s) f)"
        using Cons.prems(1) True unfolding releasable_def by (auto dest!: spec [of _ f])
    qed
    then show ?thesis using Cons True by (simp add: Let_def)
  next
    case False
    have cnt: "int (length (filter (\<lambda>j. fd_file (fds (tables s t) ! j) = ?f) js)) + 1 < f_count (filps (fs s) ?f)"
      using Cons.prems(1) False unfolding releasable_def by (auto dest!: spec [of _ ?f])
    let ?v = "upd_file ?f (\<lambda>x. x\<lparr>f_count := f_count x - 1\<rparr>) (fs s)"
    have put: "put_file ops ?f (fs s) = Some ?v" using False cnt by (auto simp: put_file_def Let_def)
    let ?s = "set_fd t i no_fd (s\<lparr>fs := ?v\<rparr>)"
    have same: "fds (tables ?s t) ! j = fds (tables s t) ! j" if "j \<in> set js" for j
      using that Cons.prems(2) by (simp add: set_fd_tables nth_list_update_neq[symmetric]) (metis nth_list_update_neq)
    then have fil: "filter (\<lambda>j. fd_file (fds (tables ?s t) ! j) = f) js = filter (\<lambda>j. fd_file (fds (tables s t) ! j) = f) js" for f
      by (intro filter_cong) auto
    have "releasable ?s t js" unfolding releasable_def fil
    proof (intro allI impI)
      fix f assume f: "f \<noteq> 0" and p: "0 < length (filter (\<lambda>j. fd_file (fds (tables s t) ! j) = f) js)"
      show "int (length (filter (\<lambda>j. fd_file (fds (tables s t) ! j) = f) js)) < f_count (filps (fs ?s) f)"
      proof (cases "f = ?f")
        case True
        then show ?thesis using cnt by (simp add: set_fd_tables)
      next
        case False
        then show ?thesis using Cons.prems(1) f p unfolding releasable_def by (auto simp: set_fd_tables dest!: spec [of _ f])
      qed
    qed
    then have "\<exists>s'. free_fds ops t js ?s = Some s'" using Cons.IH [of ?s] Cons.prems by (simp add: set_fd_tables)
    then show ?thesis using put False by (simp add: Let_def)
  qed
qed simp

definition freeable :: "fdstate \<Rightarrow> u64 \<Rightarrow> bool" where
  "freeable s t \<longleftrightarrow> t = 0 \<or> fdt_refcount (tables s t) \<noteq> 1 \<or>
     (max_fds (tables s t) \<le> length (fds (tables s t)) \<and> releasable s t [0..<max_fds (tables s t)])"

lemma freeable_total:
  assumes "freeable s t" shows "\<exists>s'. fd_table_free ops t s = Some s'"
proof -
  let ?s = "upd_table t (\<lambda>x. x\<lparr>fdt_refcount := fdt_refcount x - 1\<rparr>) s"
  have "releasable ?s t js = releasable s t js" for js by (simp add: releasable_def upd_table_def)
  then show ?thesis
    using assms free_fds_total [of ?s t "[0..<max_fds (tables s t)]" ops]
    by (auto simp: fd_table_free_def freeable_def upd_table_def Let_def)
qed

lemma freeable_cong:
  assumes "tables s' = tables s" and "filps (fs s') = filps (fs s)" shows "freeable s' t = freeable s t"
  using assms by (simp add: freeable_def releasable_def)

lemma releasable_empty: "\<forall>i\<in>set js. fd_file (fds (tables s t) ! i) = 0 \<Longrightarrow> releasable s t js"
  by (auto simp: releasable_def filter_empty_conv)

text \<open>A table without descriptors, and a table whose files are all open.\<close>

definition empty_table :: "fdstate \<Rightarrow> u64 \<Rightarrow> bool" where
  "empty_table s t \<longleftrightarrow> length (fds (tables s t)) = max_fds (tables s t) \<and> (\<forall>e\<in>set (fds (tables s t)). fd_file e = 0)"

definition table_sound :: "fdstate \<Rightarrow> u64 \<Rightarrow> bool" where
  "table_sound s t \<longleftrightarrow> empty_table s t \<or>
     (length (fds (tables s t)) = max_fds (tables s t) \<and> 0 < fdt_refcount (tables s t) \<and>
      (\<forall>e\<in>set (fds (tables s t)). fd_file e \<noteq> 0 \<longrightarrow> 0 < f_count (filps (fs s) (fd_file e))))"

lemma empty_freeable: "empty_table s t \<Longrightarrow> freeable s t"
  by (auto simp: empty_table_def freeable_def intro!: releasable_empty)

lemma free_empty:
  assumes "empty_table s t"
  obtains s' where "fd_table_free ops t s = Some s'" "filps (fs s') = filps (fs s)"
    "t = 0 \<and> tables s' = tables s \<or> tables s' = (tables s)(t := (tables s t)\<lparr>fdt_refcount := fdt_refcount (tables s t) - 1\<rparr>)"
proof -
  have "free_fds ops t js u = Some u" if "\<forall>i\<in>set js. fd_file (fds (tables u t) ! i) = 0" for js u
    using that by (induction js) (simp_all add: Let_def)
  moreover let ?s = "upd_table t (\<lambda>x. x\<lparr>fdt_refcount := fdt_refcount x - 1\<rparr>) s"
  have "\<forall>i\<in>set [0..<max_fds (tables ?s t)]. fd_file (fds (tables ?s t) ! i) = 0"
    using assms by (auto simp: upd_table_def empty_table_def)
  ultimately have "free_fds ops t [0..<max_fds (tables ?s t)] ?s = Some ?s" by blast
  then have "\<exists>s'. fd_table_free ops t s = Some s' \<and> filps (fs s') = filps (fs s) \<and>
      (t = 0 \<and> tables s' = tables s \<or> tables s' = tables ?s)"
    by (simp add: fd_table_free_def Let_def) (simp add: upd_table_def)
  then show thesis using that by (auto simp: upd_table_def)
qed

text \<open>The part of the file system state that decides about freeing a table, and the operations that keep it.\<close>

definition fd_view :: "kstate \<Rightarrow> (u64 \<Rightarrow> fd_table) \<times> (u64 \<Rightarrow> filp)" where
  "fd_view k = (tables (fdt k), filps (fs (fdt k)))"

lemma fd_view_heap [simp]: "fd_view (set_heap h k) = fd_view k" "fd_view (free_mem p k) = fd_view k" "fd_view (upd_memory f k) = fd_view k"
  "fd_view (k\<lparr>vm := v\<rparr>) = fd_view k" "fd_view (k\<lparr>spaces := sp\<rparr>) = fd_view k" "fd_view (k\<lparr>creds := cr\<rparr>) = fd_view k"
  "fd_view (upd_process p g k) = fd_view k" "fd_view (upd_rq r k) = fd_view k" "fd_view (free_pid n k) = fd_view k" "fd_view (unlink_process p k) = fd_view k"
  by (simp_all add: fd_view_def set_heap_def free_mem_def upd_memory_def upd_process_def upd_rq_def free_pid_def unlink_process_def Let_def)

lemma fd_view_with: "with_heap f k = (k', r) \<Longrightarrow> fd_view k' = fd_view k" "with_vm g k = (k', r') \<Longrightarrow> fd_view k' = fd_view k"
  by (auto simp: with_heap_def with_vm_def split: prod.splits)

lemma fd_view_free [simp]: "fd_view (free_space a k) = fd_view k" "fd_view (cred_free c k) = fd_view k" "fd_view (drop_space p k) = fd_view k"
  by (simp_all add: free_space_def with_vm_def cred_free_def drop_space_def Let_def)

lemma freeable_view: "fd_view k' = fd_view k \<Longrightarrow> freeable (fdt k') t = freeable (fdt k) t"
  by (rule freeable_cong) (simp_all add: fd_view_def)

lemma sound_view:
  assumes "fd_view k' = fd_view k"
  shows "empty_table (fdt k') t = empty_table (fdt k) t" "table_sound (fdt k') t = table_sound (fdt k) t"
  using assms by (simp_all add: fd_view_def empty_table_def table_sound_def)

lemma free_files_empty:
  assumes "empty_table (fdt k) t"
  obtains k' where "free_files ops t k = Some k'" "\<And>u. table_sound (fdt k) u \<Longrightarrow> table_sound (fdt k') u"
proof -
  obtain s' where s': "fd_table_free ops t (fdt k) = Some s'" "filps (fs s') = filps (fs (fdt k))"
    "t = 0 \<and> tables s' = tables (fdt k) \<or> tables s' = (tables (fdt k))(t := (tables (fdt k) t)\<lparr>fdt_refcount := fdt_refcount (tables (fdt k) t) - 1\<rparr>)"
    by (rule free_empty [OF assms])
  let ?k = "set_heap (vheap (fs s')) (k\<lparr>fdt := s'\<rparr>)"
  have "tables (fdt ?k) = tables s'" "filps (fs (fdt ?k)) = filps (fs s')" by (simp_all add: set_heap_def)
  then have "table_sound (fdt ?k) u" if "table_sound (fdt k) u" for u
    using that s'(2,3) assms by (cases "u = t") (auto simp: table_sound_def empty_table_def)
  then show thesis using that [of ?k] s'(1) by (simp add: free_files_def)
qed

lemma free_files_total: "freeable (fdt k) t \<Longrightarrow> \<exists>k'. free_files ops t k = Some k'"
  using freeable_total [of "fdt k" t ops] by (auto simp: free_files_def)

section \<open>Creation\<close>

lemma find_upt:
  assumes "0 < a" "a \<le> N"
  shows "find P ([a..<N] @ [1..<a]) = Some n \<Longrightarrow> 0 < n \<and> n < N \<and> P n"
    and "find P ([a..<N] @ [1..<a]) = None \<Longrightarrow> 0 < n \<Longrightarrow> n < N \<Longrightarrow> \<not> P n"
proof -
  assume "find P ([a..<N] @ [1..<a]) = Some n"
  then have "n \<in> set ([a..<N] @ [1..<a])" "P n" by (auto simp: find_Some_iff simp del: set_append)
  then show "0 < n \<and> n < N \<and> P n" using assms by auto
next
  assume f: "find P ([a..<N] @ [1..<a]) = None" and "0 < n" "n < N"
  then have "n \<in> set ([a..<N] @ [1..<a])" using assms by auto
  then show "\<not> P n" using f unfolding find_None_iff by blast
qed

lemma alloc_pid_cases:
  assumes "ptab_ok k" and "alloc_pid k = (k', r)"
  obtains (full) "r = None" "k' = k" "\<And>n. 0 < n \<Longrightarrow> n < PID_MAX \<Longrightarrow> pid_table k ! n \<noteq> 0"
  | (got) n where "r = Some n" "k' = k\<lparr>next_pid := n + 1\<rparr>" "0 < n" "n < PID_MAX" "pid_table k ! n = 0"
proof (cases "find (\<lambda>i. pid_table k ! i = 0) ([next_pid k..<PID_MAX] @ [1..<next_pid k])")
  case None
  then show thesis using full assms find_upt(2) [of "next_pid k" PID_MAX "\<lambda>i. pid_table k ! i = 0"]
    by (simp add: alloc_pid_def ptab_ok_def del: find.simps)
next
  case (Some n)
  then show thesis using got [of n] assms find_upt(1) [of "next_pid k" PID_MAX "\<lambda>i. pid_table k ! i = 0" n]
    by (simp add: alloc_pid_def ptab_ok_def)
qed

lemma free_pid_core:
  assumes "pid_table k ! n = 0" shows "core (free_pid n k) = core k"
  using assms by (simp add: free_pid_def core_def list_update_same_conv) (metis list_update_id)

lemma new_space_view: "new_space sy flgs k = (k', a) \<Longrightarrow> fd_view k' = fd_view k"
  by (auto simp: new_space_def split: if_splits prod.splits option.splits dest!: fd_view_with(2))

lemma created_table:
  assumes "with_fd fd_table_create k5 = (k6, fdtab)" and "cred_create k6 = (k7, c)"
  shows "fdtab \<noteq> 0 \<Longrightarrow> empty_table (fdt k7) fdtab" and "table_sound (fdt k5) t \<Longrightarrow> table_sound (fdt k7) t"
proof -
  obtain s1 where s1: "fd_table_create (fdt k5) = (s1, fdtab)" "tables (fdt k6) = tables s1" "filps (fs (fdt k6)) = filps (fs s1)"
    using assms(1) by (auto simp: with_fd_def set_heap_def split: prod.splits)
  have "fd_view k7 = fd_view k6"
    using assms(2) by (auto simp: cred_create_def Let_def split: prod.splits if_splits dest: fd_view_with)
  then have t: "tables (fdt k7) = tables s1" "filps (fs (fdt k7)) = filps (fs s1)" using s1 by (simp_all add: fd_view_def)
  note e = fd_table_create_effect [OF s1(1)]
  show ne: "empty_table (fdt k7) fdtab" if "fdtab \<noteq> 0"
    using e(4) [OF that] t by (auto simp: empty_table_def no_fd_def)
  assume "table_sound (fdt k5) t"
  then show "table_sound (fdt k7) t"
    using e t ne by (cases "t = fdtab"; cases "fdtab = 0") (auto simp: table_sound_def empty_table_def)
qed

definition proc_alloc :: "kstate \<Rightarrow> kstate \<times> u64" where
  "proc_alloc k = with_heap (if process_cache k \<noteq> 0 then kmem_cache_zalloc (process_cache k) else kzalloc sizeof_process) k"

lemma process_create_cases:
  assumes ok: "ptab_ok k"
  obtains (fail) k' where "process_create ops sy ticks nm flgs k = Some (k', 0)" "core k' = core (k\<lparr>next_pid := next_pid k'\<rparr>)"
      "0 < next_pid k'" "next_pid k' \<le> PID_MAX"
  | (made) k1 p n stack as fdtab c k2 where "process_create ops sy ticks nm flgs k = Some (publish ticks p n nm flgs stack as fdtab c k2, p)"
      "proc_alloc k = (k1, p)" "p \<noteq> 0" "0 < n" "n < PID_MAX" "pid_table k ! n = 0" "core k2 = core (k\<lparr>next_pid := n + 1\<rparr>)"
      "empty_table (fdt k2) fdtab" "\<And>t. table_sound (fdt k) t \<Longrightarrow> table_sound (fdt k2) t" "c \<noteq> 0" "stack \<noteq> 0" "fdtab \<noteq> 0"
proof -
  have np: "0 < next_pid k" "next_pid k \<le> PID_MAX" using ok by (simp_all add: ptab_ok_def)
  obtain k1 p where a: "proc_alloc k = (k1, p)" by fastforce
  have c1: "core k1 = core k" using a by (auto simp: proc_alloc_def dest: core_with)
  have ok1: "ptab_ok k1" using ok core_fields [OF c1] by (simp add: ptab_ok_def)
  note cr = process_create_def [of ops sy ticks nm flgs k, folded proc_alloc_def, unfolded Let_def a prod.case]
  show thesis
  proof (cases "p = 0")
    case True
    then show thesis using fail [of k1] np core_fields [OF c1] by (simp add: cr core_def)
  next
    case p: False
    obtain k2 r where b: "alloc_pid k1 = (k2, r)" by fastforce
    from ok1 b show thesis
    proof (cases rule: alloc_pid_cases)
      case full
      then show thesis using fail [of "free_mem p k1"] p b np core_fields [OF c1] by (simp add: cr Let_def) (simp add: core_def free_mem_def set_heap_def)
    next
      case (got n)
      have base: "core k2 = core (k\<lparr>next_pid := n + 1\<rparr>)" "pid_table k ! n = 0"
        using got core_fields [OF c1] by (simp_all add: core_def)
      have z: "pid_table x ! n = 0" if "core x = core k2" for x using base core_fields(1) [OF that] core_fields(1) [OF base(1)] by simp
      have failed: thesis if "process_create ops sy ticks nm flgs k = Some (x, 0)" "core x = core k2" for x
        using fail [of x] that core_fields [OF that(2)] core_fields [OF base(1)] base(1) got(4) by (simp add: core_def)
      obtain k3 stack where d: "with_heap (kmalloc KERNEL_STACK_SIZE) k2 = (k3, stack)" by fastforce
      have c3: "core k3 = core k2" by (rule core_with(1) [OF d])
      note cr2 = cr [unfolded b prod.case got(1) option.case d, simplified p if_False if_True simp_thms]
      show thesis
      proof (cases "stack = 0")
        case True
        then show thesis using failed [of "free_mem p (free_pid n k3)"] free_pid_core [OF z [OF c3]] c3 by (simp add: cr2)
      next
        case stack: False
        let ?k4 = "upd_memory (init_thread_info stack p) k3"
        obtain k5 as where e: "new_space sy flgs ?k4 = (k5, as)" by fastforce
        have c5: "core k5 = core k2" using core_new_space [OF e] c3 by simp
        obtain k6 fdtab where f: "with_fd fd_table_create k5 = (k6, fdtab)" by fastforce
        have c6: "core k6 = core k2" using core_with(3) [OF f] c5 by simp
        obtain k7 c where g: "cred_create k6 = (k7, c)" by fastforce
        have c7: "core k7 = core k2" using core_cred(1) [OF g] c6 by simp
        have undo: "core (free_mem p (free_pid n (free_mem stack x))) = core k2" if "core x = core k2" for x
          using free_pid_core [of "free_mem stack x" n] z [of "free_mem stack x"] that by simp
        note cr3 = cr2 [unfolded e f g prod.case, simplified stack if_False]
        have "fd_view k1 = fd_view k" using a fd_view_with(1) by (auto simp: proc_alloc_def)
        moreover have "fd_view k2 = fd_view k1" using got(2) by (simp add: fd_view_def)
        ultimately have vw: "fd_view k5 = fd_view k" using new_space_view [OF e] fd_view_with(1) [OF d] by simp
        have sound: "table_sound (fdt k7) t" if "table_sound (fdt k) t" for t
          using created_table(2) [OF f g] sound_view(2) [OF vw] that by blast
        have fd0: "empty_table (fdt k7) fdtab" if "fdtab \<noteq> 0" using created_table(1) [OF f g that] .
        show thesis
        proof (cases "(as = 0 \<and> flgs AND PROC_FLAG_KERNEL = 0) \<or> fdtab = 0")
          case True
          let ?x = "if flgs AND PROC_FLAG_KERNEL = 0 then free_space as k6 else k6"
          have "core ?x = core k2" using c6 by simp
          then show thesis
            using failed [of "free_mem p (free_pid n (free_mem stack ?x))"] failed [of "free_mem p (free_pid n (free_mem stack k5))"]
              undo [of ?x] undo [OF c5] True by (cases "as = 0 \<and> flgs AND PROC_FLAG_KERNEL = 0") (simp_all add: cr3 cong: if_cong)
        next
          case nf: False
          show thesis
          proof (cases "c = 0")
            case True
            obtain x where x: "free_files ops fdtab k7 = Some x"
              using free_files_total [OF empty_freeable [OF fd0]] nf by blast
            let ?x = "if flgs AND PROC_FLAG_KERNEL = 0 then free_space as x else x"
            have "core ?x = core k2" using core_free_files [OF x] c7 by simp
            then show thesis using failed [of "free_mem p (free_pid n (free_mem stack ?x))"] undo [of ?x] nf True x
              by (cases "flgs AND PROC_FLAG_KERNEL = 0") (simp_all add: cr3)
          next
            case False
            then show thesis
              using made [of p n stack as fdtab c k7 k1] nf a p got base c7 fd0 stack sound by (auto simp: cr3)
          qed
        qed
      qed
    qed
  qed
qed

section \<open>The lists after creation and destruction\<close>

lemma core_upd_process:
  "pid_table (upd_process p f k) = pid_table k" "all_processes (upd_process p f k) = all_processes k" "next_pid (upd_process p f k) = next_pid k"
  "rq (upd_process p f k) = rq k" "process_cache (upd_process p f k) = process_cache k"
  "processes (upd_process p f k) = (processes k)(p := f (processes k p))"
  by (simp_all add: upd_process_def)

lemma core_upd_rq:
  "pid_table (upd_rq f k) = pid_table k" "all_processes (upd_rq f k) = all_processes k" "next_pid (upd_rq f k) = next_pid k"
  "rq (upd_rq f k) = f (rq k)" "process_cache (upd_rq f k) = process_cache k" "processes (upd_rq f k) = processes k"
  by (simp_all add: upd_rq_def)

definition new_process :: "u64 \<Rightarrow> nat \<Rightarrow> name \<Rightarrow> u64 \<Rightarrow> u64 \<Rightarrow> u64 \<Rightarrow> u64 \<Rightarrow> u64 \<Rightarrow> process" where
  "new_process ticks n nm stack as fdtab c par = \<lparr>pid = n, tgid = n, pgid = n, sid = n, comm = take 15 nm, exit_code = 0,
     cpu_ctx = zero_context\<lparr>ctx_rsp := stack + KERNEL_STACK_SIZE - 8\<rparr>, kernel_stack = stack,
     kernel_stack_size = KERNEL_STACK_SIZE, fs_base = 0, gs_base = 0, mm = as, files = fdtab, cwd = 0, root = 0, umask = 0,
     pcred = c, start_time = ticks, pending = 0, blocked = 0,
     sigactions = replicate NSIG \<lparr>sa_handler = SIG_DFL, sa_mask = 0, sa_flags = 0, sa_restorer = 0\<rparr>, parent = par, children = []\<rparr>"

lemma publish_fields:
  fixes ticks p n nm flgs stack as fdtab c k
  defines "k' \<equiv> publish ticks p n nm flgs stack as fdtab c k"
  assumes "current k \<noteq> p"
  shows "pid_table k' = (pid_table k)[n := p]" "all_processes k' = p # all_processes k" "next_pid k' = next_pid k"
    "process_cache k' = process_cache k" "fd_view k' = fd_view k" "queues (rq k') = queues (rq k)" "sleep_queue (rq k') = sleep_queue (rq k)"
    "curr (rq k') = curr (rq k)" "idle (rq k') = idle (rq k)" "\<And>q. q \<noteq> unat p \<Longrightarrow> procs (rq k') q = procs (rq k) q"
    "state (procs (rq k') (unat p)) = PROC_STATE_CREATED" "flags (procs (rq k') (unat p)) = flgs"
    "priority (procs (rq k') (unat p)) = DEFAULT_PRIO"
    "processes k' p = new_process ticks n nm stack as fdtab c (current k)"
    "\<And>q. q \<noteq> p \<Longrightarrow> q \<noteq> current k \<Longrightarrow> processes k' q = processes k q"
    "current k \<noteq> 0 \<Longrightarrow> processes k' (current k) = (processes k (current k))\<lparr>children := p # children (processes k (current k))\<rparr>"
    "processes k' 0 = processes k 0 \<or> p = 0"
  using assms(2) unfolding k'_def
  by (simp_all add: publish_def new_process_def upd_rq_def upd_process_def upd_proc_def Let_def fd_view_def)

lemma lists_ok_fields: "queues r' = queues r \<Longrightarrow> sleep_queue r' = sleep_queue r \<Longrightarrow> lists_ok r' = lists_ok r"
  by (intro ext) (simp add: lists_ok_def)

lemma lists_ok_mono: "lists_ok r A \<Longrightarrow> A \<subseteq> B \<Longrightarrow> lists_ok r B"
  by (auto simp: lists_ok_def)

lemma lists_ok_remove: "lists_ok r A \<Longrightarrow> lists_ok (sleep_list_del x (run_list_del x r)) (A - {x})"
  by (auto simp: lists_ok_def sleep_list_del_def run_list_del_def)

lemma lists_ok_absent:
  assumes "lists_ok r A" and "x \<notin> A"
  shows "queues (sleep_list_del x (run_list_del x r)) = queues r" "sleep_queue (sleep_list_del x (run_list_del x r)) = sleep_queue r"
proof -
  have "remove1 x q = id q" if "q \<in> set (queues r)" for q
  proof -
    have "x \<notin> set q" using assms that by (auto simp: lists_ok_def)
    then show ?thesis by (simp add: remove1_idem)
  qed
  then have "map (remove1 x) (queues r) = map id (queues r)" by (rule map_cong [OF refl])
  then show "queues (sleep_list_del x (run_list_del x r)) = queues r" by (simp add: sleep_list_del_def run_list_del_def)
  have "x \<notin> set (sleep_queue r)" using assms by (auto simp: lists_ok_def)
  then show "sleep_queue (sleep_list_del x (run_list_del x r)) = sleep_queue r" by (simp add: sleep_list_del_def run_list_del_def remove1_idem)
qed

text \<open>The state in which a child has its place in the table and nothing else has changed.\<close>

definition newborn :: "kstate \<Rightarrow> u64 \<Rightarrow> nat \<Rightarrow> kstate \<Rightarrow> bool" where
  "newborn k p n k1 \<longleftrightarrow> pid_table k1 = (pid_table k)[n := p] \<and> all_processes k1 = p # all_processes k \<and> next_pid k1 = n + 1 \<and>
     pid (processes k1 p) = n \<and> tgid (processes k1 p) = n \<and> children (processes k1 p) = [] \<and> parent (processes k1 p) = current k \<and>
     (\<forall>q\<in>set (all_processes k). processes k1 q =
        (if q = current k then (processes k q)\<lparr>children := p # children (processes k q)\<rparr> else processes k q)) \<and>
     queues (rq k1) = queues (rq k) \<and> sleep_queue (rq k1) = sleep_queue (rq k) \<and> idle (rq k1) = idle (rq k) \<and>
     state (procs (rq k1) (unat p)) = PROC_STATE_CREATED \<and> flags (procs (rq k1) (unat p)) = 0 \<and> priority (procs (rq k1) (unat p)) = DEFAULT_PRIO"

lemma newborn_publish:
  assumes ok: "ptab_ok k" and p: "p \<notin> set (all_processes k)" "p \<noteq> 0"
    and c2: "core k2 = core (k\<lparr>next_pid := n + 1\<rparr>)" and cur: "current k \<in> insert 0 (set (all_processes k))"
  shows "newborn k p n (publish ticks p n nm 0 stack as fdtab c k2)"
proof -
  have k2: "pid_table k2 = pid_table k" "all_processes k2 = all_processes k" "processes k2 = processes k" "rq k2 = rq k" "next_pid k2 = n + 1"
    using core_fields [OF c2] by simp_all
  have cu: "current k2 = current k" by (simp add: current_def k2)
  have "current k2 \<noteq> p" using cur p cu by auto
  note f = publish_fields [OF this, where ticks = ticks and n = n and nm = nm and flgs = 0 and stack = stack and as = as and
      fdtab = fdtab and c = c, unfolded k2 cu]
  have "processes (publish ticks p n nm 0 stack as fdtab c k2) q =
      (if q = current k then (processes k q)\<lparr>children := p # children (processes k q)\<rparr> else processes k q)" if "q \<in> set (all_processes k)" for q
  proof -
    have "q \<noteq> p" "q \<noteq> 0" using that p(1) ptab_okD(5) [OF ok] by auto
    then show ?thesis using f(15) [of q] f(16) by auto
  qed
  then show ?thesis unfolding newborn_def using f by (simp add: new_process_def)
qed

lemma newborn_upd:
  assumes "newborn k p n k1" and "core k3 = core (upd_process p f k1)" and "p \<notin> set (all_processes k)"
    and "\<And>q. pid (f q) = pid q \<and> children (f q) = children q \<and> parent (f q) = parent q \<and> tgid (f q) = tgid q"
  shows "newborn k p n k3"
  using assms(1,3,4) core_fields [OF assms(2), unfolded core_upd_process] unfolding newborn_def by auto

lemma newborn_ok:
  assumes ok: "ptab_ok k" and p: "p \<notin> set (all_processes k)" "p \<noteq> 0" and n: "0 < n" "n < PID_MAX" "pid_table k ! n = 0"
    and new: "newborn k p n k1"
  shows "ptab_ok k1"
proof -
  note d = ptab_okD [OF ok]
  have f: "pid_table k1 = (pid_table k)[n := p]" "all_processes k1 = p # all_processes k" "next_pid k1 = n + 1" "pid (processes k1 p) = n"
    "children (processes k1 p) = []" "parent (processes k1 p) = current k" "queues (rq k1) = queues (rq k)" "sleep_queue (rq k1) = sleep_queue (rq k)"
    and pr: "\<And>q. q \<in> set (all_processes k) \<Longrightarrow> processes k1 q =
      (if q = current k then (processes k q)\<lparr>children := p # children (processes k q)\<rparr> else processes k q)"
    using new unfolding newborn_def by blast+
  have other: "n \<noteq> pid (processes k q)" if "q \<in> set (all_processes k)" for q using d(6) [OF that] n(3) that d(5) by auto
  show ?thesis unfolding ptab_ok_def f(1-3) lists_ok_fields [OF f(7,8)]
  proof (intro conjI ballI allI impI)
    fix m assume m: "m < PID_MAX" "(pid_table k)[n := p] ! m \<noteq> 0"
    have "(pid_table k)[n := p] ! m = (if m = n then p else pid_table k ! m)" using n(2) d(1) by (simp add: nth_list_update)
    then show "(pid_table k)[n := p] ! m \<in> set (p # all_processes k)" "pid (processes k1 ((pid_table k)[n := p] ! m)) = m"
      using m d(7) [of m] f(4) pr by (auto split: if_splits)
  next
    fix q assume q: "q \<in> set (p # all_processes k)"
    have "pid (processes k1 q) = (if q = p then n else pid (processes k q))" "q \<noteq> p \<Longrightarrow> q \<in> set (all_processes k)"
      using q f(4) pr p(1) by auto
    then show "0 < pid (processes k1 q)" "pid (processes k1 q) < PID_MAX" "(pid_table k)[n := p] ! pid (processes k1 q) = q"
      using d(6) [of q] n d(1) other by auto
    show "distinct (children (processes k1 q))" using q d(8,9) [of q] f(5) pr [of q] p(1) by (cases "q = p") auto
    fix x assume x: "x \<in> set (children (processes k1 q))"
    have qa: "q \<in> set (all_processes k)" using q x f(5) by auto
    then have "x = p \<and> q = current k \<or> x \<in> set (children (processes k q))" using x pr [of q] by (auto split: if_splits)
    then show "x \<in> set (p # all_processes k)" "parent (processes k1 x) = q" using d(9) [OF qa] f(6) pr by auto
  next
    show "lists_ok (rq k) (unat ` set (p # all_processes k))" by (rule lists_ok_mono [OF d(10)]) auto
  qed (use d p n in auto)
qed

definition without :: "u64 \<Rightarrow> process \<Rightarrow> process" where
  "without p q = q\<lparr>children := remove1 p (children q)\<rparr>"

lemma process_destroy_effect:
  assumes p: "p \<noteq> 0" and fr: "freeable (fdt k) (files (processes k p))"
  obtains k' where "process_destroy ops p k = Some k'" "pid_table k' = pid_table (free_pid (pid (processes k p)) k)"
    "all_processes k' = remove1 p (all_processes k)" "processes k' = (\<lambda>q. without p (processes k q))"
    "rq k' = sleep_list_del (unat p) (run_list_del (unat p) (rq k))" "next_pid k' = next_pid k" "process_cache k' = process_cache k"
proof -
  let ?k1 = "unlink_process p k"
  have k1: "pid (processes ?k1 p) = pid (processes k p)" "pcred (processes ?k1 p) = pcred (processes k p)" "files (processes ?k1 p) = files (processes k p)"
    "pid_table ?k1 = pid_table k" "all_processes ?k1 = remove1 p (all_processes k)" "processes ?k1 = (\<lambda>q. without p (processes k q))"
    "rq ?k1 = sleep_list_del (unat p) (run_list_del (unat p) (rq k))" "next_pid ?k1 = next_pid k" "process_cache ?k1 = process_cache k"
    by (simp_all add: unlink_process_def upd_rq_def without_def Let_def)
  let ?k2 = "cred_free (pcred (processes k p)) (free_pid (pid (processes k p)) ?k1)"
  have f2: "processes (free_pid n x) = processes x" for n x by (simp add: free_pid_def)
  obtain k3 where k3: "free_files ops (files (processes k p)) ?k2 = Some k3"
    using free_files_total [of ?k2 "files (processes k p)" ops] freeable_view [of ?k2 k "files (processes k p)"] fr by auto
  have c3: "core k3 = core (free_pid (pid (processes k p)) ?k1)" using core_free_files [OF k3] by simp
  define fin where "fin = (\<lambda>x. if process_cache x \<noteq> 0 then set_heap (kmem_cache_free (process_cache x) p (hp (vm x))) x else free_mem p x)"
  have fin: "core (fin x) = core x" for x by (simp add: fin_def)
  let ?k' = "fin (free_mem (kernel_stack (processes (drop_space p k3) p)) (drop_space p k3))"
  have c2: "processes ?k2 = processes ?k1" using core_fields(4) [of ?k2 "free_pid (pid (processes k p)) ?k1"] by (simp add: f2)
  have kst: "kernel_stack (processes (drop_space p k3) p) = kernel_stack (processes k3 p)" using core_fields(4) [of "drop_space p k3" k3] by simp
  have "process_destroy ops p k = Some ?k'"
    using p k3 k1 by (simp add: process_destroy_def Let_def f2 fin_def c2 kst cong: if_cong)
  moreover have "core ?k' = core (free_pid (pid (processes k p)) ?k1)" using c3 fin by simp
  note core_fields [OF this]
  moreover have "all_processes (free_pid n ?k1) = all_processes ?k1" "rq (free_pid n ?k1) = rq ?k1" "next_pid (free_pid n ?k1) = next_pid ?k1"
    "process_cache (free_pid n ?k1) = process_cache ?k1" "pid_table (free_pid n ?k1) = pid_table (free_pid n k)" for n
    by (simp_all add: free_pid_def k1)
  ultimately show thesis using that [of ?k'] k1 f2 by simp
qed

lemma process_destroy_ok:
  assumes ok: "ptab_ok k" and p: "p \<in> set (all_processes k)"
    and k': "pid_table k' = pid_table (free_pid (pid (processes k p)) k)" "all_processes k' = remove1 p (all_processes k)"
      "processes k' = (\<lambda>q. without p (processes k q))" "rq k' = sleep_list_del (unat p) (run_list_del (unat p) (rq k))"
      "next_pid k' = next_pid k"
  shows "ptab_ok k'"
proof -
  note d = ptab_okD [OF ok]
  let ?n = "pid (processes k p)"
  have t: "pid_table k' = (pid_table k)[?n := 0]" using k'(1) d(6) [OF p] by (simp add: free_pid_def)
  have a: "set (all_processes k') = set (all_processes k) - {p}" using d(4) k'(2) by simp
  have w: "pid (processes k' q) = pid (processes k q)" "parent (processes k' q) = parent (processes k q)"
    "children (processes k' q) = remove1 p (children (processes k q))" for q by (simp_all add: k'(3) without_def)
  have other: "pid (processes k q) \<noteq> ?n" if "q \<in> set (all_processes k)" "q \<noteq> p" for q using d(6) [OF that(1)] d(6) [OF p] that(2) by metis
  show ?thesis unfolding ptab_ok_def k'(5) w
  proof (intro conjI ballI allI impI)
    fix m assume m: "m < PID_MAX" "pid_table k' ! m \<noteq> 0"
    then have "m \<noteq> ?n" using d(1) unfolding t by auto
    then have "pid_table k' ! m = pid_table k ! m" "m \<noteq> ?n" unfolding t by auto
    then show "pid_table k' ! m \<in> set (all_processes k')" "pid (processes k (pid_table k' ! m)) = m"
      using d(7) [of m] m d(6) [OF p] unfolding a by auto
  next
    fix q assume "q \<in> set (all_processes k')"
    then have q: "q \<in> set (all_processes k)" "q \<noteq> p" unfolding a by auto
    show "0 < pid (processes k q)" "pid (processes k q) < PID_MAX" "pid_table k' ! pid (processes k q) = q"
      using d(6) [OF q(1)] other [OF q] unfolding t by auto
    show "distinct (remove1 p (children (processes k q)))" using d(8) [OF q(1)] by simp
    fix x assume "x \<in> set (remove1 p (children (processes k q)))"
    then show "x \<in> set (all_processes k')" "parent (processes k x) = q" using d(8,9) [OF q(1)] unfolding a by auto
  next
    have "unat ` set (all_processes k) - {unat p} = unat ` set (all_processes k')" unfolding a by (auto simp: word_unat_eq_iff)
    then show "lists_ok (rq k') (unat ` set (all_processes k'))" using lists_ok_remove [OF d(10), of "unat p"] by (simp add: k'(4))
  qed (use d t a k'(2) in auto)
qed

end
