(* ===== verification/Process_Fork.thy ===== *)
theory Process_Fork
  imports Process_Table Slab_Heap
begin

text \<open>
  Fork: what the copies of the parent's resources do to the child, that a fork which fails leaves the
  process table as it was, and what a fork that succeeds makes.
\<close>

section \<open>The copies\<close>

lemma core_same: "core k' = core k \<Longrightarrow> core (upd_process p f k') = core (upd_process p f k)"
  by (simp add: core_def upd_process_def)

lemma core_idle: "f (processes k p) = processes k p \<Longrightarrow> core (upd_process p f k) = core k"
  by (simp add: core_def upd_process_def fun_upd_idem)

lemma core_twice: "core (upd_process p f (upd_process p g k)) = core (upd_process p (\<lambda>q. f (g q)) k)"
  by (simp add: core_def upd_process_def)

lemma core_clear:
  assumes "core x = core k" and "\<not> b \<Longrightarrow> f (processes k p) = processes k p"
  shows "core (if b then upd_process p f x else k) = core (upd_process p f k)"
  using assms core_same [of x k p f] core_idle [of f k p] by (cases b) simp_all

lemma drop_defaults_effect:
  assumes "flags (procs (rq k) (unat p)) AND PROC_FLAG_KERNEL = 0" and "empty_table (fdt k) (files (processes k p))"
  obtains k' where "drop_defaults ops p k = Some k'"
    "core k' = core (upd_process p (\<lambda>q. q\<lparr>mm := 0, files := 0, pcred := 0\<rparr>) k)"
    "\<And>u. table_sound (fdt k) u \<Longrightarrow> table_sound (fdt k') u"
proof -
  define k1 where "k1 = (if mm (processes k p) \<noteq> 0 then upd_process p (\<lambda>q. q\<lparr>mm := 0\<rparr>) (free_space (mm (processes k p)) k) else k)"
  have c1: "core k1 = core (upd_process p (\<lambda>q. q\<lparr>mm := 0\<rparr>) k)" unfolding k1_def by (rule core_clear) simp_all
  have v1: "fd_view k1 = fd_view k" by (simp add: k1_def)
  have f1: "files (processes k1 p) = files (processes k p)" using core_fields(4) [OF c1] by (simp add: upd_process_def)
  obtain x where x: "free_files ops (files (processes k p)) k1 = Some x" "\<And>u. table_sound (fdt k1) u \<Longrightarrow> table_sound (fdt x) u"
    using free_files_empty [of k1 "files (processes k p)" ops] assms(2) sound_view(1) [OF v1] by blast
  define k2 where "k2 = (if files (processes k1 p) \<noteq> 0 then upd_process p (\<lambda>q. q\<lparr>files := 0\<rparr>) x else k1)"
  have c2: "core k2 = core (upd_process p (\<lambda>q. q\<lparr>files := 0\<rparr>) k1)" unfolding k2_def by (rule core_clear [OF core_free_files [OF x(1)]]) simp
  have s2: "table_sound (fdt k2) u" if "table_sound (fdt k) u" for u
    using x(2) [of u] sound_view(2) [OF v1, of u] sound_view(2) [of "upd_process p (\<lambda>q. q\<lparr>files := 0\<rparr>) x" x u] that by (simp add: k2_def)
  define k3 where "k3 = (if pcred (processes k2 p) \<noteq> 0 then upd_process p (\<lambda>q. q\<lparr>pcred := 0\<rparr>) (cred_free (pcred (processes k2 p)) k2) else k2)"
  have c3: "core k3 = core (upd_process p (\<lambda>q. q\<lparr>pcred := 0\<rparr>) k2)" unfolding k3_def by (rule core_clear) simp_all
  have "drop_defaults ops p k = Some k3"
    using x(1) assms(1) unfolding drop_defaults_def Let_def by (simp add: k1_def [symmetric] f1 [symmetric]) (simp add: k2_def k3_def f1)
  moreover have "core k3 = core (upd_process p (\<lambda>q. q\<lparr>mm := 0, files := 0, pcred := 0\<rparr>) k)"
    using c3 core_same [OF c2, of p "\<lambda>q. q\<lparr>pcred := 0\<rparr>"] core_same [OF core_same [OF c1], of p "\<lambda>q. q\<lparr>pcred := 0\<rparr>" p "\<lambda>q. q\<lparr>files := 0\<rparr>"]
    by (simp add: core_twice)
  moreover have "table_sound (fdt k3) u" if "table_sound (fdt k) u" for u
    using s2 [OF that] sound_view(2) [of k3 k2] by (simp add: k3_def)
  ultimately show thesis using that by blast
qed

section \<open>A copied table can be freed again\<close>

lemma clone_fds_zero:
  assumes "\<forall>i\<in>set js. fd_file (fds (tables s old) ! i) = 0"
  shows "clone_fds old new js s = s"
  using assms by (induction js) (simp_all add: Let_def)

text \<open>One descriptor of the loop.\<close>

definition clone_fd :: "u64 \<Rightarrow> u64 \<Rightarrow> nat \<Rightarrow> fdstate \<Rightarrow> fdstate" where
  "clone_fd old new j s = (let e = fds (tables s old) ! j
     in if fd_file e \<noteq> 0 then let s = set_fd new j e s in s\<lparr>fs := get_file (fd_file e) (fs s)\<rparr> else s)"

lemma clone_fd_fields:
  assumes "old \<noteq> new"
  shows "tables (clone_fd old new j s) old = tables s old" "max_fds (tables (clone_fd old new j s) new) = max_fds (tables s new)"
    "length (fds (tables (clone_fd old new j s) new)) = length (fds (tables s new))"
    "fds (tables (clone_fd old new j s) new) =
      (if fd_file (fds (tables s old) ! j) \<noteq> 0 then (fds (tables s new))[j := fds (tables s old) ! j] else fds (tables s new))"
    "f \<noteq> 0 \<Longrightarrow> f_count (filps (fs (clone_fd old new j s)) f) = f_count (filps (fs s) f) + (if fd_file (fds (tables s old) ! j) = f then 1 else 0)"
  using assms by (auto simp: clone_fd_def Let_def set_fd_tables get_file_def)

lemma clone_fds_counts:
  assumes "old \<noteq> new"
  shows "tables (clone_fds old new js s) old = tables s old \<and>
    max_fds (tables (clone_fds old new js s) new) = max_fds (tables s new) \<and>
    length (fds (tables (clone_fds old new js s) new)) = length (fds (tables s new)) \<and>
    (\<forall>f. f \<noteq> 0 \<longrightarrow> f_count (filps (fs (clone_fds old new js s)) f) =
      f_count (filps (fs s) f) + int (length (filter (\<lambda>i. fd_file (fds (tables s old) ! i) = f) js))) \<and>
    (\<forall>i<length (fds (tables s new)). fds (tables (clone_fds old new js s) new) ! i =
      (if i \<in> set js \<and> fd_file (fds (tables s old) ! i) \<noteq> 0 then fds (tables s old) ! i else fds (tables s new) ! i))"
proof (induction js arbitrary: s)
  case (Cons j js)
  let ?s = "clone_fd old new j s"
  have r: "clone_fds old new (j # js) s = clone_fds old new js ?s" by (simp add: clone_fd_def Let_def)
  note c = clone_fd_fields [OF assms, where j = j and s = s] and IH = Cons.IH [of ?s]
  have "fds (tables ?s new) ! i = (if i = j \<and> fd_file (fds (tables s old) ! i) \<noteq> 0 then fds (tables s old) ! i else fds (tables s new) ! i)"
    if "i < length (fds (tables s new))" for i
    using that unfolding c(4) by (cases "i = j") auto
  then have "\<forall>i<length (fds (tables s new)). fds (tables (clone_fds old new js ?s) new) ! i =
      (if i \<in> set (j # js) \<and> fd_file (fds (tables s old) ! i) \<noteq> 0 then fds (tables s old) ! i else fds (tables s new) ! i)"
    using IH unfolding c(1,3) by simp
  moreover have "\<forall>f. f \<noteq> 0 \<longrightarrow> f_count (filps (fs (clone_fds old new js ?s)) f) =
      f_count (filps (fs s) f) + int (length (filter (\<lambda>i. fd_file (fds (tables s old) ! i) = f) (j # js)))"
    using IH c(5) unfolding c(1) by simp
  ultimately show ?case unfolding r using IH c(1-3) by simp
qed simp

lemma clone_freeable:
  assumes t: "table_sound s t" and r: "fd_table_clone t s = (s', new)"
  shows "freeable s' new"
proof (cases "new = 0")
  case False
  obtain s1 where c: "fd_table_create s = (s1, new)" using r by (auto simp: fd_table_clone_def Let_def split: prod.splits if_splits)
  note e = fd_table_create_effect [OF c]
  obtain x where x: "tables s1 = (tables s)(new := x)" "fds x = replicate PROC_MAX_FDS no_fd" "max_fds x = PROC_MAX_FDS"
    using e(4) [OF False] by blast
  let ?js = "[0..<max_fds (tables s1 t)]" and ?c = "clone_fds t new [0..<max_fds (tables s1 t)] s1"
  have s': "s' = upd_table new (\<lambda>x. x\<lparr>next_fd := next_fd (tables s1 t)\<rparr>) ?c" using r c False by (simp add: fd_table_clone_def)
  have fr: "freeable s' new" if "max_fds (tables ?c new) \<le> length (fds (tables ?c new))" "releasable ?c new [0..<max_fds (tables ?c new)]"
    using that by (simp add: s' freeable_def releasable_def upd_table_def)
  show ?thesis
  proof (cases "t = new")
    case True
    then have "?c = s1" using x by (intro clone_fds_zero) (auto simp: no_fd_def)
    moreover have "releasable s1 new [0..<max_fds (tables s1 new)]" by (rule releasable_empty) (use x in \<open>auto simp: no_fd_def\<close>)
    ultimately show ?thesis using fr x by simp
  next
    case tn: False
    have cc: "max_fds (tables ?c new) = PROC_MAX_FDS" "length (fds (tables ?c new)) = PROC_MAX_FDS"
      "\<And>f. f \<noteq> 0 \<Longrightarrow> f_count (filps (fs ?c) f) = f_count (filps (fs s1) f) + int (length (filter (\<lambda>i. fd_file (fds (tables s1 t) ! i) = f) ?js))"
      "\<And>i. i < PROC_MAX_FDS \<Longrightarrow> fds (tables ?c new) ! i =
        (if i \<in> set ?js \<and> fd_file (fds (tables s1 t) ! i) \<noteq> 0 then fds (tables s1 t) ! i else no_fd)"
      using clone_fds_counts [OF tn, of ?js s1] x by auto
    have s1t: "tables s1 t = tables s t" using tn by (simp add: x(1))
    show ?thesis
    proof (rule fr)
      show "max_fds (tables ?c new) \<le> length (fds (tables ?c new))" using cc(1,2) by simp
      show "releasable ?c new [0..<max_fds (tables ?c new)]" unfolding releasable_def
      proof (intro allI impI)
        fix f :: u64 assume f: "f \<noteq> 0"
        let ?A = "filter (\<lambda>i. fd_file (fds (tables ?c new) ! i) = f) [0..<max_fds (tables ?c new)]"
          and ?B = "filter (\<lambda>i. fd_file (fds (tables s1 t) ! i) = f) ?js"
        assume pos: "0 < length ?A"
        have sub: "set ?A \<subseteq> set ?B"
        proof
          fix i assume "i \<in> set ?A"
          then have i: "i < PROC_MAX_FDS" "fd_file (fds (tables ?c new) ! i) = f" using cc(1) by auto
          then show "i \<in> set ?B" using cc(4) [OF i(1)] f by (auto simp: no_fd_def split: if_splits)
        qed
        then have "length ?A \<le> length ?B"
          by (metis List.finite_set card_mono distinct_card distinct_filter distinct_upt)
        moreover have "0 < f_count (filps (fs s) f)"
        proof -
          have "hd ?A \<in> set ?B" by (rule subsetD [OF sub hd_in_set [OF length_greater_0_conv [THEN iffD1, OF pos]]])
          then obtain i where "i \<in> set ?B" by blast
          then have i: "i < max_fds (tables s t)" "fd_file (fds (tables s t) ! i) = f" using s1t by auto
          then show ?thesis using t f unfolding table_sound_def empty_table_def by (metis nth_mem)
        qed
        ultimately show "int (length ?A) < f_count (filps (fs ?c) f)" using cc(3) [OF f] e(1) by simp
      qed
    qed
  qed
qed (simp add: freeable_def)

section \<open>What the copies do to the child\<close>

lemma copy_mm_effect:
  assumes r: "copy_mm child par flgs k = (k', r)"
  obtains a where "core k' = core (upd_process child (\<lambda>q. q\<lparr>mm := a\<rparr>) k)" "fd_view k' = fd_view k" "r = Inl ENOMEM \<or> r = Inr ()"
proof -
  let ?a = "mm (processes k par)"
  consider "?a = 0" | "?a \<noteq> 0" "flgs AND CLONE_VM \<noteq> 0" | "?a \<noteq> 0" "flgs AND CLONE_VM = 0" by blast
  then show thesis
  proof cases
    case 1
    then show thesis
      using r that [of "mm (processes k child)"] core_idle [of "\<lambda>q. q\<lparr>mm := mm (processes k child)\<rparr>" k child] by (simp add: copy_mm_def)
  next
    case 2
    let ?k1 = "k\<lparr>spaces := (spaces k)(?a := (spaces k ?a)\<lparr>as_refcount := as_refcount (spaces k ?a) + 1\<rparr>)\<rparr>"
    have "k' = upd_process child (\<lambda>q. q\<lparr>mm := ?a\<rparr>) ?k1" "r = Inr ()" using r 2 by (simp_all add: copy_mm_def Let_def)
    then show thesis using that [of ?a] core_same [of ?k1 k] by simp
  next
    case 3
    obtain k1 as where c: "with_vm (vmm_clone_address_space (spaces k ?a)) k = (k1, as)" by fastforce
    note e = core_with(2) [OF c] fd_view_with(2) [OF c]
    show thesis
    proof (cases as)
      case None
      then have "k' = upd_process child (\<lambda>q. q\<lparr>mm := 0\<rparr>) k1" "r = Inl ENOMEM" using r 3 c by (simp_all add: copy_mm_def Let_def)
      then show thesis using that [of 0] core_same [OF e(1)] e(2) by simp
    next
      case (Some x)
      let ?k1 = "k1\<lparr>spaces := (spaces k1)(as_addr x := x)\<rparr>"
      have "k' = upd_process child (\<lambda>q. q\<lparr>mm := as_addr x\<rparr>) ?k1" "r = Inr ()" using r 3 c Some by (simp_all add: copy_mm_def Let_def)
      then show thesis using that [of "as_addr x"] core_same [of ?k1 k] e by simp
    qed
  qed
qed

lemma copy_cred_effect:
  assumes "copy_cred child par k = (k', r)"
  obtains c where "core k' = core (upd_process child (\<lambda>q. q\<lparr>pcred := c\<rparr>) k)" "fd_view k' = fd_view k" "r = Inl ENOMEM \<or> r = Inr ()"
proof (cases "pcred (processes k par) = 0")
  case True
  then show thesis
    using assms that [of "pcred (processes k child)"] core_idle [of "\<lambda>q. q\<lparr>pcred := pcred (processes k child)\<rparr>" k child]
    by (simp add: copy_cred_def)
next
  case False
  obtain k1 c where c: "cred_clone (pcred (processes k par)) k = (k1, c)" by fastforce
  have v: "fd_view k1 = fd_view k"
    using c by (auto simp: cred_clone_def Let_def split: prod.splits if_splits dest: fd_view_with)
  show thesis
    using assms False c v core_same [OF core_cred(2) [OF c]] that [of c]
    by (cases "c = 0") (auto simp: copy_cred_def Let_def)
qed

lemma copy_files_effect:
  assumes t: "table_sound (fdt k) (files (processes k par))" and z: "files (processes k child) = 0" and r: "copy_files child par flgs k = (k', r)"
  obtains t where "core k' = core (upd_process child (\<lambda>q. q\<lparr>files := t\<rparr>) k)" "freeable (fdt k') t" "r = Inl ENOMEM \<or> r = Inr ()"
proof (cases "files (processes k par) = 0")
  case True
  have "core k = core (upd_process child (\<lambda>q. q\<lparr>files := 0\<rparr>) k)" using core_idle [of "\<lambda>q. q\<lparr>files := 0\<rparr>" k child] z by simp
  then show thesis using that [of 0] True r by (simp add: copy_files_def freeable_def)
next
  case nz: False
  let ?t = "files (processes k par)"
  show thesis
  proof (cases "flgs AND CLONE_FILES \<noteq> 0")
    case True
    let ?s = "upd_table ?t (\<lambda>x. x\<lparr>fdt_refcount := fdt_refcount x + 1\<rparr>) (fdt k)"
    have "releasable ?s ?t js = releasable (fdt k) ?t js" for js by (simp add: releasable_def upd_table_def)
    moreover have "fdt_refcount (tables ?s ?t) = fdt_refcount (tables (fdt k) ?t) + 1" by (simp add: upd_table_def)
    moreover have "empty_table (fdt k) ?t \<Longrightarrow> empty_table ?s ?t" by (simp add: empty_table_def upd_table_def)
    ultimately have "freeable ?s ?t" using t empty_freeable [of ?s ?t] unfolding table_sound_def by (auto simp: freeable_def)
    then have "freeable (fdt k') ?t" using r True nz by (auto simp: copy_files_def Let_def upd_process_def)
    then show thesis using that [of ?t] r True nz core_same [of "k\<lparr>fdt := ?s\<rparr>" k] by (auto simp: copy_files_def Let_def)
  next
    case False
    obtain s' new where c: "fd_table_clone ?t (fdt k) = (s', new)" by fastforce
    let ?k1 = "set_heap (vheap (fs s')) (k\<lparr>fdt := s'\<rparr>)"
    have "k' = upd_process child (\<lambda>q. q\<lparr>files := new\<rparr>) ?k1" "r = Inl ENOMEM \<or> r = Inr ()"
      using r False nz c by (auto simp: copy_files_def with_fd_def Let_def split: if_splits)
    moreover have "freeable (fdt ?k1) new" using clone_freeable [OF t c] freeable_cong [of "fdt ?k1" s' new] by (simp add: set_heap_def)
    ultimately show thesis using that [of new] core_same [of ?k1 k] by (simp add: upd_process_def)
  qed
qed

section \<open>A fork that fails\<close>

text \<open>The child's own resources may have changed, its place in the table has not.\<close>

lemma without_absent: "p \<notin> set (children q) \<Longrightarrow> without p q = q"
  by (simp add: without_def remove1_idem)

lemma ptab_ok_same:
  assumes ok: "ptab_ok k" and t: "pid_table k' = pid_table k" "all_processes k' = all_processes k"
    and pr: "\<And>q. q \<in> set (all_processes k) \<Longrightarrow> processes k' q = processes k q"
    and n: "0 < next_pid k'" "next_pid k' \<le> PID_MAX" and q: "queues (rq k') = queues (rq k)" "sleep_queue (rq k') = sleep_queue (rq k)"
  shows "ptab_ok k'"
proof -
  note d = ptab_okD [OF ok]
  show ?thesis unfolding ptab_ok_def t lists_ok_fields [OF q]
  proof (intro conjI ballI allI impI)
    fix m assume "m < PID_MAX" "pid_table k ! m \<noteq> 0"
    note e = d(7) [OF this]
    then show "pid_table k ! m \<in> set (all_processes k)" "pid (processes k' (pid_table k ! m)) = m" using pr by auto
  next
    fix p assume p: "p \<in> set (all_processes k)"
    show "0 < pid (processes k' p)" "pid (processes k' p) < PID_MAX" "pid_table k ! pid (processes k' p) = p"
      using d(6) [OF p] unfolding pr [OF p] by blast+
    show "distinct (children (processes k' p))" using d(8) [OF p] unfolding pr [OF p] .
    fix x assume "x \<in> set (children (processes k' p))"
    then have "x \<in> set (all_processes k) \<and> parent (processes k x) = p" using d(9) [OF p] unfolding pr [OF p] by blast
    then show "x \<in> set (all_processes k)" "parent (processes k' x) = p" using pr [of x] by simp_all
  qed (use d n in blast)+
qed

lemma fork_undone:
  assumes ok: "ptab_ok k" and p: "p \<notin> set (all_processes k)" "p \<noteq> 0" and n: "0 < n" "n < PID_MAX" "pid_table k ! n = 0"
    and new: "newborn k p n k3" and fr: "freeable (fdt k3) (files (processes k3 p))"
  obtains k' where "process_destroy ops p k3 = Some k'" "ptab_ok k'" "pid_table k' = pid_table k" "all_processes k' = all_processes k"
    "\<And>q. q \<in> set (all_processes k) \<Longrightarrow> processes k' q = processes k q" "queues (rq k') = queues (rq k)" "sleep_queue (rq k') = sleep_queue (rq k)"
proof -
  note d = ptab_okD [OF ok]
  obtain k' where k': "process_destroy ops p k3 = Some k'" "pid_table k' = pid_table (free_pid (pid (processes k3 p)) k3)"
    "all_processes k' = remove1 p (all_processes k3)" "processes k' = (\<lambda>q. without p (processes k3 q))"
    "rq k' = sleep_list_del (unat p) (run_list_del (unat p) (rq k3))" "next_pid k' = next_pid k3"
    by (rule process_destroy_effect [OF p(2) fr])
  have f: "pid_table k3 = (pid_table k)[n := p]" "all_processes k3 = p # all_processes k" "next_pid k3 = n + 1" "pid (processes k3 p) = n"
    "queues (rq k3) = queues (rq k)" "sleep_queue (rq k3) = sleep_queue (rq k)"
    and pr: "\<And>q. q \<in> set (all_processes k) \<Longrightarrow> processes k3 q =
      (if q = current k then (processes k q)\<lparr>children := p # children (processes k q)\<rparr> else processes k q)"
    using new unfolding newborn_def by blast+
  have t: "pid_table k' = pid_table k" using k'(2) f n list_update_id [of "pid_table k" n] by (simp add: free_pid_def)
  have a: "all_processes k' = all_processes k" using k'(3) f(2) by simp
  have kept: "processes k' q = processes k q" if q: "q \<in> set (all_processes k)" for q
  proof -
    have "p \<notin> set (children (processes k q))" using d(9) [OF q] p(1) by blast
    then show ?thesis using pr [OF q] without_absent by (cases "q = current k") (simp_all add: k'(4) without_def)
  qed
  have "unat p \<notin> unat ` set (all_processes k)" using p(1) by (auto simp: word_unat_eq_iff [symmetric])
  moreover have "lists_ok (rq k3) (unat ` set (all_processes k))" using d(10) lists_ok_fields [OF f(5,6)] by simp
  ultimately have q: "queues (rq k') = queues (rq k)" "sleep_queue (rq k') = sleep_queue (rq k)"
    using lists_ok_absent [of "rq k3" "unat ` set (all_processes k)" "unat p"] k'(5) f(5,6) by simp_all
  have "ptab_ok k'" using n k'(6) f(3) by (intro ptab_ok_same [OF ok t a kept _ _ q]) simp_all
  then show thesis using that k'(1) t a kept q by blast
qed

section \<open>A fork that succeeds\<close>

definition tab :: "kstate \<Rightarrow> u64 list \<times> u64 list \<times> nat \<times> run_queue" where
  "tab k = (pid_table k, all_processes k, next_pid k, rq k)"

lemma tab_upd [simp]: "tab (upd_process p f k) = tab k" "tab (k\<lparr>processes := ps\<rparr>) = tab k" "tab (k\<lparr>thread_groups := tg\<rparr>) = tab k" "tab (upd_memory g k) = tab k"
  by (simp_all add: tab_def upd_process_def upd_memory_def set_heap_def)

lemma tab_stages [simp]: "tab (copy_sighand p par k) = tab k" "tab (copy_fs_info p par k) = tab k" "tab (setup_child_context sy p stack regs k) = tab k"
  "tab (join_group p par k) = tab k"
  by (simp_all add: copy_sighand_def copy_fs_info_def setup_child_context_def join_group_def Let_def)

lemma tab_reparent [simp]: "tab (reparent p par k) = tab k"
  by (simp add: reparent_def Let_def)

lemma start_child_tab:
  "tab (start_child sy flgs stack regs p par k) = (pid_table k, all_processes k, next_pid k,
     (if flgs AND CLONE_VFORK \<noteq> 0 then upd_proc (unat par) (\<lambda>q. q\<lparr>flags := flags q OR PROC_FLAG_VFORKED\<rparr>) (scheduler_enqueue (unat p) (rq k))
      else scheduler_enqueue (unat p) (rq k)))"
proof -
  define z where "z = (let k = setup_child_context sy p stack regs (copy_fs_info p par (copy_sighand p par k));
      k = (if flgs AND CLONE_PARENT \<noteq> 0 then reparent p par k else k)
    in if flgs AND CLONE_THREAD \<noteq> 0 then join_group p par k else k)"
  have "tab z = tab k" by (simp add: z_def Let_def)
  moreover have "start_child sy flgs stack regs p par k = (if flgs AND CLONE_VFORK \<noteq> 0
      then upd_rq (upd_proc (unat par) (\<lambda>q. q\<lparr>flags := flags q OR PROC_FLAG_VFORKED\<rparr>)) (upd_rq (scheduler_enqueue (unat p)) z)
      else upd_rq (scheduler_enqueue (unat p)) z)"
    unfolding start_child_def Let_def z_def ..
  ultimately show ?thesis by (simp add: tab_def upd_rq_def)
qed

lemma start_child_others:
  assumes "q \<noteq> p" and "p \<noteq> par" and "parent (processes k p) \<noteq> 0"
  shows "processes (start_child sy flgs stack regs p par k) q =
    (if flgs AND CLONE_PARENT = 0 then processes k q
     else if q = parent (processes k par) \<and> q \<noteq> 0 then (without p (processes k q))\<lparr>children := p # remove1 p (children (processes k q))\<rparr>
     else without p (processes k q))" (is "_ = (if _ then _ else ?r)")
proof -
  define x where "x = setup_child_context sy p stack regs (copy_fs_info p par (copy_sighand p par k))"
  define y where "y = (if flgs AND CLONE_PARENT \<noteq> 0 then reparent p par x else x)"
  define z where "z = (if flgs AND CLONE_THREAD \<noteq> 0 then join_group p par y else y)"
  have x: "processes x q = processes k q" "processes x par = processes k par" "parent (processes x p) = parent (processes k p)"
    using assms by (simp_all add: x_def copy_fs_info_def copy_sighand_def setup_child_context_def upd_memory_def set_heap_def upd_process_def Let_def)
  have "processes (reparent p par x) q = ?r"
    using x assms by (cases "q = parent (processes k par)") (auto simp: reparent_def upd_process_def without_def Let_def)
  then have "processes y q = (if flgs AND CLONE_PARENT = 0 then processes k q else ?r)" using x(1) by (cases "flgs AND CLONE_PARENT = 0") (simp_all add: y_def)
  moreover have "processes z q = processes y q" using assms(1) by (simp add: z_def join_group_def upd_process_def)
  moreover have "processes (start_child sy flgs stack regs p par k) = processes z"
    unfolding start_child_def Let_def x_def [symmetric] y_def [symmetric] z_def [symmetric] by (simp add: upd_rq_def)
  ultimately show ?thesis by simp
qed

lemma reparent_fields:
  assumes "p \<noteq> par" and "parent (processes y p) \<noteq> 0" and "parent (processes y par) \<noteq> p" and "children (processes y p) = []"
  shows "processes (reparent p par y) p = (processes y p)\<lparr>parent := parent (processes y par)\<rparr>" "tgid (processes (reparent p par y) par) = tgid (processes y par)"
proof -
  have "(processes y p)\<lparr>children := []\<rparr> = processes y p" using assms(4) by simp
  then show "processes (reparent p par y) p = (processes y p)\<lparr>parent := parent (processes y par)\<rparr>"
    using assms by (simp add: reparent_def upd_process_def Let_def)
  show "tgid (processes (reparent p par y) par) = tgid (processes y par)"
    using assms by (auto simp: reparent_def upd_process_def Let_def)
qed

text \<open>What the child has of its parent.\<close>

definition inherits :: "u32 \<Rightarrow> process \<Rightarrow> process \<Rightarrow> bool" where
  "inherits flgs par c \<longleftrightarrow> sigactions c = sigactions par \<and> blocked c = blocked par \<and> pending c = 0 \<and> cwd c = cwd par \<and> root c = root par \<and>
     umask c = umask par \<and> fs_base c = fs_base par \<and> gs_base c = gs_base par \<and> pgid c = pgid par \<and> sid c = sid par \<and>
     tgid c = (if flgs AND CLONE_THREAD \<noteq> 0 then tgid par else pid c)"

lemma start_child_child:
  fixes sy flgs stack regs p par k
  defines "c \<equiv> processes (start_child sy flgs stack regs p par k) p"
  assumes "p \<noteq> par" and "parent (processes k p) \<noteq> 0" and "children (processes k p) = []" and "tgid (processes k p) = pid (processes k p)"
    and "flgs AND CLONE_PARENT \<noteq> 0 \<Longrightarrow> parent (processes k par) \<noteq> p"
  shows "pid c = pid (processes k p)" "children c = []" "inherits flgs (processes k par) c" "comm c = comm (processes k p)"
    "parent c = (if flgs AND CLONE_PARENT \<noteq> 0 then parent (processes k par) else parent (processes k p))"
    "mm c = mm (processes k p)" "files c = files (processes k p)" "pcred c = pcred (processes k p)" "kernel_stack c = kernel_stack (processes k p)"
    "ctx_rsp (cpu_ctx c) = kernel_stack (processes k p) + kernel_stack_size (processes k p) - 8 - sizeof_cpu_regs"
proof -
  define x where "x = setup_child_context sy p stack regs (copy_fs_info p par (copy_sighand p par k))"
  define y where "y = (if flgs AND CLONE_PARENT \<noteq> 0 then reparent p par x else x)"
  define z where "z = (if flgs AND CLONE_THREAD \<noteq> 0 then join_group p par y else y)"
  have x: "processes x par = processes k par" "parent (processes x p) = parent (processes k p)"
    "pid (processes x p) = pid (processes k p)" "children (processes x p) = []" "sigactions (processes x p) = sigactions (processes k par)"
    "blocked (processes x p) = blocked (processes k par)" "pending (processes x p) = 0" "cwd (processes x p) = cwd (processes k par)"
    "root (processes x p) = root (processes k par)" "umask (processes x p) = umask (processes k par)"
    "fs_base (processes x p) = fs_base (processes k par)" "gs_base (processes x p) = gs_base (processes k par)"
    "pgid (processes x p) = pgid (processes k par)" "sid (processes x p) = sid (processes k par)" "tgid (processes x p) = pid (processes k p)"
    "comm (processes x p) = comm (processes k p)" "mm (processes x p) = mm (processes k p)" "files (processes x p) = files (processes k p)"
    "pcred (processes x p) = pcred (processes k p)" "kernel_stack (processes x p) = kernel_stack (processes k p)"
    "ctx_rsp (cpu_ctx (processes x p)) = kernel_stack (processes k p) + kernel_stack_size (processes k p) - 8 - sizeof_cpu_regs"
    using assms(2-5)
    by (simp_all add: x_def copy_fs_info_def copy_sighand_def setup_child_context_def upd_memory_def set_heap_def upd_process_def Let_def)
  have y: "processes y p = (if flgs AND CLONE_PARENT \<noteq> 0 then (processes x p)\<lparr>parent := parent (processes k par)\<rparr> else processes x p)"
    "tgid (processes y par) = tgid (processes k par)"
    using reparent_fields [of p par x] assms(2,3,6) x(1,2,4) by (auto simp: y_def)
  have "c = processes z p"
    unfolding c_def start_child_def Let_def x_def [symmetric] y_def [symmetric] z_def [symmetric] by (simp add: upd_rq_def)
  moreover have "processes z p = (if flgs AND CLONE_THREAD \<noteq> 0 then (processes y p)\<lparr>tgid := tgid (processes k par)\<rparr> else processes y p)"
    using y(2) by (simp add: z_def join_group_def upd_process_def)
  ultimately have c: "c = (if flgs AND CLONE_THREAD \<noteq> 0 then (processes y p)\<lparr>tgid := tgid (processes k par)\<rparr> else processes y p)" by simp
  show "pid c = pid (processes k p)" "children c = []" "inherits flgs (processes k par) c" "comm c = comm (processes k p)"
    "parent c = (if flgs AND CLONE_PARENT \<noteq> 0 then parent (processes k par) else parent (processes k p))"
    "mm c = mm (processes k p)" "files c = files (processes k p)" "pcred c = pcred (processes k p)" "kernel_stack c = kernel_stack (processes k p)"
    "ctx_rsp (cpu_ctx c) = kernel_stack (processes k p) + kernel_stack_size (processes k p) - 8 - sizeof_cpu_regs"
    unfolding c y(1) inherits_def by (simp_all add: x)
qed

lemma ptab_change:
  assumes ok: "ptab_ok k" and t: "pid_table k' = pid_table k" "all_processes k' = all_processes k" "next_pid k' = next_pid k"
    and pr: "\<And>q. q \<in> set (all_processes k) \<Longrightarrow> pid (processes k' q) = pid (processes k q)"
    and ch: "\<And>q. q \<in> set (all_processes k) \<Longrightarrow> distinct (children (processes k' q))"
    and pa: "\<And>q c. q \<in> set (all_processes k) \<Longrightarrow> c \<in> set (children (processes k' q)) \<Longrightarrow> c \<in> set (all_processes k) \<and> parent (processes k' c) = q"
    and l: "lists_ok (rq k') (unat ` set (all_processes k))"
  shows "ptab_ok k'"
proof -
  note d = ptab_okD [OF ok]
  show ?thesis unfolding ptab_ok_def t
  proof (intro conjI ballI allI impI)
    fix m assume "m < PID_MAX" "pid_table k ! m \<noteq> 0"
    from d(7) [OF this] show "pid_table k ! m \<in> set (all_processes k)" "pid (processes k' (pid_table k ! m)) = m" using pr by auto
  next
    fix p assume p: "p \<in> set (all_processes k)"
    show "0 < pid (processes k' p)" "pid (processes k' p) < PID_MAX" "pid_table k ! pid (processes k' p) = p"
      using d(6) [OF p] unfolding pr [OF p] by blast+
    show "distinct (children (processes k' p))" using ch [OF p] .
    fix x assume "x \<in> set (children (processes k' p))"
    from pa [OF p this] show "x \<in> set (all_processes k)" "parent (processes k' x) = p" by simp_all
  qed (use d l in blast)+
qed

lemma enqueue_new:
  assumes l: "lists_ok r A" and x: "x \<notin> A" and n: "length (queues r) = MAX_PRIO" and i: "idle r \<noteq> Some x"
    and p: "state (procs r x) = PROC_STATE_CREATED" "flags (procs r x) = 0" "priority (procs r x) = DEFAULT_PRIO"
  shows "state (procs (scheduler_enqueue x r) x) = PROC_STATE_READY"
    and "queues (scheduler_enqueue x r) = (queues r)[120 := queues r ! 120 @ [x]]" and "sleep_queue (scheduler_enqueue x r) = sleep_queue r"
    and "lists_ok (scheduler_enqueue x r) (insert x A)"
proof -
  have nl: "\<not> sleep_list_linked r x" using l x by (auto simp: lists_ok_def sleep_list_linked_def)
  have nq: "\<not> run_list_linked r x" using l x by (auto simp: lists_ok_def run_list_linked_def list_ex_iff)
  let ?r = "upd_proc x (\<lambda>q. q\<lparr>state := PROC_STATE_READY, time_slice := rr_time_slice q\<rparr>) r"
  have e: "scheduler_enqueue x r = rr_enqueue x ?r"
    using i p nl by (simp add: scheduler_enqueue_def process_schedulable_def Let_def)
  have "\<not> run_list_linked ?r x" using nq by (simp add: run_list_linked_def)
  then have q: "queues (scheduler_enqueue x r) = (queues r)[120 := queues r ! 120 @ [x]]" "sleep_queue (scheduler_enqueue x r) = sleep_queue r"
    "procs (scheduler_enqueue x r) = procs ?r"
    using p(3) unfolding e by (simp_all add: rr_enqueue_def clamp_prio_def DEFAULT_PRIO_def MAX_PRIO_def Let_def)
  then show "queues (scheduler_enqueue x r) = (queues r)[120 := queues r ! 120 @ [x]]" "sleep_queue (scheduler_enqueue x r) = sleep_queue r"
    "state (procs (scheduler_enqueue x r) x) = PROC_STATE_READY" by (simp_all add: upd_proc_def)
  have "queues r ! 120 \<in> set (queues r)" using n by (simp add: MAX_PRIO_def)
  then have "distinct (queues r ! 120 @ [x])" "set (queues r ! 120 @ [x]) \<subseteq> insert x A" using l x by (auto simp: lists_ok_def)
  then show "lists_ok (scheduler_enqueue x r) (insert x A)"
    using l unfolding lists_ok_def q(1,2) by (auto dest!: set_update_subset_insert [THEN subsetD])
qed

end
