(* ===== verification/Process_Props.thy ===== *)
theory Process_Props
  imports Process_Fork Fd_Props Sched_Props
begin

text \<open>
  What fork, exit and wait promise: the process table stays sound whether a fork succeeds or fails, the
  child returns from its fork with the parent's registers and result 0, and whom a wait reaps.
\<close>

section \<open>Words in memory\<close>

lemma load64_cong: "(\<And>i. i < 8 \<Longrightarrow> m (a + of_nat i) = m' (b + of_nat i)) \<Longrightarrow> load64 m a = load64 m' b"
proof -
  assume e: "\<And>i. i < 8 \<Longrightarrow> m (a + of_nat i) = m' (b + of_nat i)"
  show ?thesis using e [of 0] e [of 1] e [of 2] e [of 3] e [of 4] e [of 5] e [of 6] e [of 7] by (simp add: load64_def)
qed

lemma store64_bytes: "store64 m d v = (\<lambda>a. if unat (a - d) < 8 then ucast (drop_bit (8 * unat (a - d)) v) else m a)"
  by (rule store64_eq) simp

lemma word_bytes_eq:
  fixes v w :: u64
  assumes "\<And>i. i < 8 \<Longrightarrow> (ucast (drop_bit (8 * i) v) :: u8) = ucast (drop_bit (8 * i) w)"
  shows "v = w"
proof (rule bit_word_eqI)
  fix n assume "n < LENGTH(64)"
  then have n: "n div 8 < 8" "n mod 8 < 8" "8 * (n div 8) + n mod 8 = n" by simp_all
  have "bit x n = bit (ucast (drop_bit (8 * (n div 8)) x) :: u8) (n mod 8)" for x :: u64
    using n by (simp add: bit_simps)
  then show "bit v n = bit w n" using assms [OF n(1)] by metis
qed

lemma load64_byte: "i < 8 \<Longrightarrow> ucast (drop_bit (8 * i) (load64 m a)) = m (a + of_nat i)"
proof -
  assume "i < 8"
  then have "i \<in> {0, 1, 2, 3, 4, 5, 6, 7}" by auto
  then show ?thesis by (auto simp: load64_bytes)
qed

lemma load64_store64: "load64 (store64 m d v) d = v"
  by (rule word_bytes_eq) (simp add: load64_byte store64_bytes unat_of_nat)

text \<open>Two places of the same region are told apart by their distances from its start.\<close>

lemma unat_region:
  fixes d :: u64 assumes "x < 2 ^ 63" "y < 2 ^ 63"
  shows "unat (d + of_nat x - (d + of_nat y)) = (if y \<le> x then x - y else 2 ^ 64 - (y - x))"
proof (cases "y \<le> x")
  case True
  then obtain z where z: "x = y + z" by (metis le_add_diff_inverse)
  then have "d + of_nat x - (d + of_nat y) = of_nat z" by simp
  then show ?thesis using z assms by (simp add: unat_of_nat)
next
  case False
  then obtain z where z: "y = x + z" "0 < z" by (metis le_add_diff_inverse less_imp_le not_le zero_less_diff)
  have "(of_nat (2 ^ 64 - z) :: u64) = of_nat (2 ^ 64) - of_nat z" using z assms by (intro of_nat_diff) simp
  also have "of_nat (2 ^ 64) = (0 :: u64)" by (simp add: word_unat_eq_iff unat_of_nat)
  finally have e: "d + of_nat x - (d + of_nat y) = of_nat (2 ^ 64 - z)" using z by simp
  have "unat (of_nat (2 ^ 64 - z) :: u64) = 2 ^ 64 - z" using z(2) unfolding unat_of_nat by simp
  then show ?thesis using False z(1) unfolding e by simp
qed

lemma load64_store64_apart:
  assumes "x + 8 \<le> y \<or> y + 8 \<le> x" and "x < 2 ^ 62" "y < 2 ^ 62"
  shows "load64 (store64 m (d + of_nat y) v) (d + of_nat x) = load64 m (d + of_nat x)"
proof (rule load64_cong)
  fix i :: nat assume i: "i < 8"
  have "unat (d + of_nat (x + i) - (d + of_nat y)) \<ge> 8" using unat_region [of "x + i" y d] assms i by auto
  then show "store64 m (d + of_nat y) v (d + of_nat x + of_nat i) = m (d + of_nat x + of_nat i)"
    by (simp add: store64_bytes add.assoc)
qed

lemma load64_copied:
  assumes "i + 8 \<le> n" and "n < 2 ^ 62"
  shows "load64 (mem_copied m d s n) (d + of_nat i) = load64 m (s + of_nat i)"
proof (rule load64_cong)
  fix j :: nat assume j: "j < 8"
  have "unat (d + of_nat i + of_nat j - d) = i + j" using unat_region [of "i + j" 0 d] assms j by (simp add: add.assoc)
  then show "mem_copied m d s n (d + of_nat i + of_nat j) = m (s + of_nat i + of_nat j)"
    using assms j by (simp add: mem_copied_def algebra_simps)
qed

lemma load64_before_copy:
  assumes "n < 2 ^ 62" shows "load64 (mem_copied m (d + 8) s n) d = load64 m d"
proof (rule load64_cong)
  fix j :: nat assume j: "j < 8"
  have "unat (d + of_nat j - (d + 8)) = 2 ^ 64 - (8 - j)" using unat_region [of j 8 d] j by simp
  then show "mem_copied m (d + 8) s n (d + of_nat j) = m (d + of_nat j)" using assms j by (simp add: mem_copied_def)
qed

section \<open>The frame of a new child\<close>

lemma child_frame:
  fixes sy stack regs d m0
  defines "m \<equiv> (let mem0 = store64 m0 d (fork_return sy); mem0 = memcpy mem0 (d + 8) regs 176; mem0 = store64 mem0 (d + 8 + 112) 0
    in if stack \<noteq> 0 then store64 mem0 (d + 8 + 160) stack else mem0)"
  assumes "fwd_safe (d + 8) regs 176" and sep: "\<And>j. j < 176 \<Longrightarrow> 8 \<le> unat (regs + of_nat j - d)"
  shows "load64 m d = fork_return sy"
    and "i < 22 \<Longrightarrow> load64 m (d + 8 + of_nat (8 * i)) = (if i = 14 then 0 else if i = 20 \<and> stack \<noteq> 0 then stack else load64 m0 (regs + of_nat (8 * i)))"
proof -
  let ?m1 = "store64 m0 d (fork_return sy)" and ?m2 = "mem_copied (store64 m0 d (fork_return sy)) (d + 8) regs 176"
  have cp: "memcpy ?m1 (d + 8) regs 176 = ?m2" using assms(2) by (intro memcpy_correct) simp_all
  have m: "m = (if stack \<noteq> 0 then store64 (store64 ?m2 (d + of_nat 120) 0) (d + of_nat 168) stack else store64 ?m2 (d + of_nat 120) 0)"
    by (simp add: m_def cp Let_def add.assoc)
  have ap: "load64 (store64 x (d + of_nat y) v) (d + of_nat z) = load64 x (d + of_nat z)" if "z + 8 \<le> y \<or> y + 8 \<le> z" "z < 1000" "y < 1000" for x v y z
    using that by (intro load64_store64_apart) auto
  have z0: "d = d + of_nat 0" by simp
  have "load64 m d = load64 ?m2 d" using ap [of 0 120] ap [of 0 168] by (simp add: m)
  also have "\<dots> = fork_return sy" using load64_before_copy [of 176 ?m1 d regs] load64_store64 by simp
  finally show "load64 m d = fork_return sy" .
  assume i: "i < 22"
  have a: "d + 8 + of_nat (8 * i) = d + of_nat (8 + 8 * i)" by simp
  have m0: "load64 ?m2 (d + 8 + of_nat (8 * i)) = load64 m0 (regs + of_nat (8 * i))"
  proof -
    have "load64 ?m1 (regs + of_nat (8 * i)) = load64 m0 (regs + of_nat (8 * i))"
    proof (rule load64_cong)
      fix j :: nat assume "j < 8"
      then have "8 \<le> unat (regs + of_nat (8 * i + j) - d)" using sep [of "8 * i + j"] i by simp
      then show "?m1 (regs + of_nat (8 * i) + of_nat j) = m0 (regs + of_nat (8 * i) + of_nat j)" by (simp add: store64_bytes add.assoc)
    qed
    then show ?thesis using load64_copied [of "8 * i" 176 ?m1 "d + 8" regs] i by simp
  qed
  have st: "load64 (store64 x (d + of_nat (8 + 8 * y)) v) (d + of_nat (8 + 8 * i)) = (if i = y then v else load64 x (d + of_nat (8 + 8 * i)))" if "y < 22" for x v y
  proof (cases "i = y")
    case False
    then have "8 + 8 * i + 8 \<le> 8 + 8 * y \<or> 8 + 8 * y + 8 \<le> 8 + 8 * i" by linarith
    then show ?thesis using ap [of "8 + 8 * i" "8 + 8 * y" x v] that i False by simp
  qed (simp add: load64_store64)
  show "load64 m (d + 8 + of_nat (8 * i)) = (if i = 14 then 0 else if i = 20 \<and> stack \<noteq> 0 then stack else load64 m0 (regs + of_nat (8 * i)))"
  proof -
    define A where "A = d + of_nat (8 + 8 * i)"
    have "load64 (store64 ?m2 (d + of_nat 120) 0) A = (if i = 14 then 0 else load64 ?m2 A)"
      "load64 (store64 (store64 ?m2 (d + of_nat 120) 0) (d + of_nat 168) stack) A = (if i = 20 then stack else load64 (store64 ?m2 (d + of_nat 120) 0) A)"
      using st [of 14 ?m2 0] st [of 20 "store64 ?m2 (d + of_nat 120) 0" stack] by (simp_all add: A_def)
    moreover have "load64 ?m2 A = load64 m0 (regs + of_nat (8 * i))" using m0 unfolding a A_def .
    ultimately show ?thesis unfolding m a A_def [symmetric] by simp
  qed
qed

section \<open>The process structure comes from the heap\<close>

definition proc_cache_ready :: "kstate \<Rightarrow> bool" where
  "proc_cache_ready k \<longleftrightarrow> heap_inv (hp (vm k)) \<and> process_cache k \<in> set (cache_list (hp (vm k))) \<and> set (all_processes k) \<subseteq> live (hp (vm k))"

lemma proc_alloc_fresh:
  assumes "proc_cache_ready k" and "proc_alloc k = (k1, p)" and "p \<noteq> 0"
  shows "p \<notin> set (all_processes k)"
proof -
  let ?h = "hp (vm k)"
  have "process_cache k \<noteq> 0" using assms(1) by (auto simp: proc_cache_ready_def heap_inv_def)
  then obtain h where "kmem_cache_alloc (process_cache k) ?h = (h, p)"
    using assms(2,3) by (auto simp: proc_alloc_def with_heap_def kmem_cache_zalloc_def Let_def split: prod.splits if_splits)
  then show ?thesis using kmem_cache_alloc_effect assms(1,3) unfolding proc_cache_ready_def by blast
qed

section \<open>Fork\<close>

text \<open>What the table looks like after a fork that failed, and after one that made a child.\<close>

definition fork_failed :: "kstate \<Rightarrow> kstate \<Rightarrow> bool" where
  "fork_failed k k' \<longleftrightarrow> pid_table k' = pid_table k \<and> all_processes k' = all_processes k \<and>
     (\<forall>q\<in>set (all_processes k). processes k' q = processes k q) \<and> queues (rq k') = queues (rq k) \<and> sleep_queue (rq k') = sleep_queue (rq k)"

definition fork_made :: "u32 \<Rightarrow> kstate \<Rightarrow> kstate \<Rightarrow> nat \<Rightarrow> u64 \<Rightarrow> bool" where
  "fork_made flgs k k' n c \<longleftrightarrow>
     (let par = processes k (current k); g = (if flgs AND CLONE_PARENT \<noteq> 0 then parent par else current k)
      in c \<notin> set (all_processes k) \<and> 0 < n \<and> n < PID_MAX \<and> pid_table k ! n = 0 \<and>
        pid_table k' = (pid_table k)[n := c] \<and> all_processes k' = c # all_processes k \<and>
        pid (processes k' c) = n \<and> parent (processes k' c) = g \<and> children (processes k' c) = [] \<and> inherits flgs par (processes k' c) \<and>
        (\<forall>q\<in>set (all_processes k). processes k' q =
           (if q = g then (processes k q)\<lparr>children := c # children (processes k q)\<rparr> else processes k q)) \<and>
        state (procs (rq k') (unat c)) = PROC_STATE_READY \<and> queues (rq k') = (queues (rq k))[120 := queues (rq k) ! 120 @ [unat c]])"

lemma start_child_made:
  assumes ok: "ptab_ok k" and par: "current k \<in> set (all_processes k)" and p: "p \<notin> set (all_processes k)" "p \<noteq> 0"
    and n: "0 < n" "n < PID_MAX" "pid_table k ! n = 0" and new: "newborn k p n k3"
    and g: "flgs AND CLONE_PARENT \<noteq> 0 \<Longrightarrow> parent (processes k (current k)) \<in> insert 0 (set (all_processes k))"
    and r: "length (queues (rq k)) = MAX_PRIO" "\<And>i. idle (rq k) = Some i \<Longrightarrow> i \<in> unat ` set (all_processes k)"
  shows "ptab_ok (start_child sy flgs stack regs p (current k) k3)" and "fork_made flgs k (start_child sy flgs stack regs p (current k) k3) n p"
proof -
  let ?par = "current k" and ?k' = "start_child sy flgs stack regs p (current k) k3" and ?A = "unat ` set (all_processes k)"
  define g' where "g' = (if flgs AND CLONE_PARENT \<noteq> 0 then parent (processes k ?par) else ?par)"
  note d = ptab_okD [OF ok] and ok3 = newborn_ok [OF ok p n new]
  have f: "pid_table k3 = (pid_table k)[n := p]" "all_processes k3 = p # all_processes k" "next_pid k3 = n + 1" "pid (processes k3 p) = n"
    "tgid (processes k3 p) = n" "children (processes k3 p) = []" "parent (processes k3 p) = ?par" "queues (rq k3) = queues (rq k)"
    "sleep_queue (rq k3) = sleep_queue (rq k)" "idle (rq k3) = idle (rq k)" "state (procs (rq k3) (unat p)) = PROC_STATE_CREATED"
    "flags (procs (rq k3) (unat p)) = 0" "priority (procs (rq k3) (unat p)) = DEFAULT_PRIO"
    and pr: "\<And>q. q \<in> set (all_processes k) \<Longrightarrow> processes k3 q = (if q = ?par then (processes k q)\<lparr>children := p # children (processes k q)\<rparr> else processes k q)"
    using new unfolding newborn_def by blast+
  have cur0: "?par \<noteq> 0" "p \<noteq> ?par" using par d(5) p by auto
  have pp: "parent (processes k3 ?par) = parent (processes k ?par)" using pr [OF par] by simp
  have gp: "parent (processes k3 ?par) \<noteq> p" if "flgs AND CLONE_PARENT \<noteq> 0" using g [OF that] p pp by auto
  have "parent (processes k3 p) \<noteq> 0" using f(7) cur0 by simp
  note cc = start_child_child [of p ?par k3 flgs sy stack regs, OF cur0(2) this f(6) _ gp]
    and co = start_child_others [OF _ cur0(2) this, of _ sy flgs stack regs]
  have all: "processes ?k' q = (if q = g' then (processes k q)\<lparr>children := p # children (processes k q)\<rparr> else processes k q)"
    if q: "q \<in> set (all_processes k)" for q
  proof -
    have "q \<noteq> p" "q \<noteq> 0" "p \<notin> set (children (processes k q))" using q p(1) d(5) d(9) [OF q] by auto
    then show ?thesis using co [of q] pr [OF q] pp by (auto simp: g'_def without_def remove1_idem)
  qed
  have tb: "pid_table ?k' = pid_table k3" "all_processes ?k' = all_processes k3" "next_pid ?k' = next_pid k3"
    using start_child_tab [of sy flgs stack regs p ?par k3] by (simp_all add: tab_def)
  have up: "unat p \<notin> ?A" using p(1) by (auto simp: word_unat_eq_iff [symmetric])
  have "idle (rq k3) \<noteq> Some (unat p)" "lists_ok (rq k3) ?A" using r(2) up f(10) d(10) lists_ok_fields [OF f(8,9)] by auto
  note en = enqueue_new [OF this(2) up _ this(1) f(11,12,13), unfolded f(8,9), OF r(1)]
  have rq': "queues (rq ?k') = queues (scheduler_enqueue (unat p) (rq k3))" "sleep_queue (rq ?k') = sleep_queue (scheduler_enqueue (unat p) (rq k3))"
    "state (procs (rq ?k') (unat p)) = PROC_STATE_READY"
    using start_child_tab [of sy flgs stack regs p ?par k3] en(1) by (auto simp: tab_def upd_proc_def)
  show "ptab_ok ?k'"
  proof (rule ptab_change [OF ok3 tb])
    fix q assume "q \<in> set (all_processes k3)"
    then have q: "q = p \<or> q \<in> set (all_processes k)" using f(2) by auto
    show "pid (processes ?k' q) = pid (processes k3 q)" using q cc(1) f(4,5) all pr by auto
    show "distinct (children (processes ?k' q))" using q cc(2) f(4,5) d(8) [of q] d(9) [of q] p(1) all by auto
    fix x assume x: "x \<in> set (children (processes ?k' q))"
    then have qa: "q \<in> set (all_processes k)" using q cc(2) f(4,5) by auto
    then have "x = p \<and> q = g' \<or> x \<in> set (children (processes k q))" using x all by (auto split: if_splits)
    then show "x \<in> set (all_processes k3) \<and> parent (processes ?k' x) = q"
      using cc(5) f(2,4,5,7) pp d(9) [OF qa] all by (auto simp: g'_def)
  next
    show "lists_ok (rq ?k') (unat ` set (all_processes k3))" using en(4) lists_ok_fields [OF rq'(1,2)] f(2) by simp
  qed
  show "fork_made flgs k ?k' n p"
    unfolding fork_made_def Let_def g'_def [symmetric]
    using p n tb f cc all rq' en(2) pr [OF par] pp by (auto simp: inherits_def g'_def)
qed

text \<open>The state a fork starts from.\<close>

definition can_fork :: "u32 \<Rightarrow> kstate \<Rightarrow> bool" where
  "can_fork flgs k \<longleftrightarrow> ptab_ok k \<and> proc_cache_ready k \<and> current k \<in> set (all_processes k) \<and> table_sound (fdt k) (files (processes k (current k))) \<and>
     length (queues (rq k)) = MAX_PRIO \<and> (\<forall>i. idle (rq k) = Some i \<longrightarrow> i \<in> unat ` set (all_processes k)) \<and>
     (flgs AND CLONE_PARENT \<noteq> 0 \<longrightarrow> parent (processes k (current k)) \<in> insert 0 (set (all_processes k)))"

text \<open>The rest of \<^verbatim>\<open>do_fork\<close>, once the child exists: either it is undone, or all three copies were made.\<close>

definition copy_all :: "u64 \<Rightarrow> u64 \<Rightarrow> u32 \<Rightarrow> kstate \<Rightarrow> kstate \<times> unit res" where
  "copy_all child par flgs k =
     (case copy_mm child par flgs k of (k, Inl e) \<Rightarrow> (k, Inl e)
      | (k, Inr _) \<Rightarrow> (case copy_files child par flgs k of (k, Inl e) \<Rightarrow> (k, Inl e) | (k, Inr _) \<Rightarrow> copy_cred child par k))"

lemma copy_all_newborn:
  assumes nb: "newborn k p n k4" and p: "p \<notin> set (all_processes k)" and par: "par \<in> set (all_processes k)"
    and z: "files (processes k4 p) = 0" and ts: "table_sound (fdt k4) (files (processes k par))" and c: "copy_all p par flgs k4 = (k', r)"
  shows "newborn k p n k' \<and> freeable (fdt k') (files (processes k' p)) \<and> (r = Inl ENOMEM \<or> r = Inr ())"
proof -
  obtain k5 r5 where c5: "copy_mm p par flgs k4 = (k5, r5)" by fastforce
  obtain a where k5: "core k5 = core (upd_process p (\<lambda>q. q\<lparr>mm := a\<rparr>) k4)" "fd_view k5 = fd_view k4" "r5 = Inl ENOMEM \<or> r5 = Inr ()"
    by (rule copy_mm_effect [OF c5])
  have nb5: "newborn k p n k5" by (rule newborn_upd [OF nb k5(1) p]) simp
  have z5: "files (processes k5 p) = 0" using z core_fields(4) [OF k5(1)] by (simp add: core_upd_process)
  have "files (processes k5 par) = files (processes k par)" using nb5 par unfolding newborn_def by auto
  then have ts5: "table_sound (fdt k5) (files (processes k5 par))" using ts sound_view(2) [OF k5(2)] by simp
  obtain k6 r6 where c6: "copy_files p par flgs k5 = (k6, r6)" by fastforce
  obtain t where k6: "core k6 = core (upd_process p (\<lambda>q. q\<lparr>files := t\<rparr>) k5)" "freeable (fdt k6) t" "r6 = Inl ENOMEM \<or> r6 = Inr ()"
    by (rule copy_files_effect [OF ts5 z5 c6])
  have nb6: "newborn k p n k6" by (rule newborn_upd [OF nb5 k6(1) p]) simp
  have f6: "files (processes k6 p) = t" using core_fields(4) [OF k6(1)] by (simp add: core_upd_process)
  obtain k7 r7 where c7: "copy_cred p par k6 = (k7, r7)" by fastforce
  obtain cr where k7: "core k7 = core (upd_process p (\<lambda>q. q\<lparr>pcred := cr\<rparr>) k6)" "fd_view k7 = fd_view k6" "r7 = Inl ENOMEM \<or> r7 = Inr ()"
    by (rule copy_cred_effect [OF c7])
  have nb7: "newborn k p n k7" by (rule newborn_upd [OF nb6 k7(1) p]) simp
  have "freeable (fdt k5) (files (processes k5 p))" "freeable (fdt k6) (files (processes k6 p))" "freeable (fdt k7) (files (processes k7 p))"
    using z5 f6 k6(2) freeable_view [OF k7(2)] core_fields(4) [OF k7(1)] by (simp_all add: freeable_def core_upd_process)
  then show ?thesis using c c5 c6 c7 nb5 nb6 nb7 k5(3) k6(3) k7(3) by (auto simp: copy_all_def)
qed

lemma do_fork_created:
  assumes "process_create ops sy ticks (comm (processes k (current k))) 0 k = Some (k3, p)" and "p \<noteq> 0" and "drop_defaults ops p k3 = Some k4"
    and "copy_all p (current k) flgs k4 = (k7, r)"
  shows "do_fork ops sy ticks flgs stack regs k = (case r of Inl e \<Rightarrow> map_option (\<lambda>k. (k, Inl e)) (process_destroy ops p k7)
    | Inr _ \<Rightarrow> Some (start_child sy flgs stack regs p (current k) k7, Inr (pid (processes (start_child sy flgs stack regs p (current k) k7) p))))"
  using assms by (auto simp: do_fork_def copy_all_def Let_def split: prod.splits sum.splits)

lemma do_fork_cases:
  assumes "can_fork flgs k"
  shows "\<exists>k' r. do_fork ops sy ticks flgs stack regs k = Some (k', r) \<and> ptab_ok k' \<and>
    (case r of Inl e \<Rightarrow> e = ENOMEM \<and> fork_failed k k' | Inr n \<Rightarrow> \<exists>c. fork_made flgs k k' n c)"
proof -
  let ?par = "current k"
  have ok: "ptab_ok k" and par: "?par \<in> set (all_processes k)" and ts: "table_sound (fdt k) (files (processes k ?par))"
    and ready: "proc_cache_ready k" using assms by (auto simp: can_fork_def)
  show ?thesis
  proof (rule process_create_cases [OF ok, of ops sy ticks "comm (processes k ?par)" 0])
    fix k' assume c: "process_create ops sy ticks (comm (processes k ?par)) 0 k = Some (k', 0)" "core k' = core (k\<lparr>next_pid := next_pid k'\<rparr>)"
      "0 < next_pid k'" "next_pid k' \<le> PID_MAX"
    note f = core_fields [OF c(2)]
    have "ptab_ok k'" "fork_failed k k'" using f c(3,4) by (auto simp: fork_failed_def intro!: ptab_ok_same [OF ok])
    then show ?thesis using c(1) by (simp add: do_fork_def Let_def)
  next
    fix k1 p n stk as fdtab c k2
    assume made: "process_create ops sy ticks (comm (processes k ?par)) 0 k = Some (publish ticks p n (comm (processes k ?par)) 0 stk as fdtab c k2, p)"
      "proc_alloc k = (k1, p)" "p \<noteq> 0" "0 < n" "n < PID_MAX" "pid_table k ! n = 0" "core k2 = core (k\<lparr>next_pid := n + 1\<rparr>)"
      "empty_table (fdt k2) fdtab" "\<And>t. table_sound (fdt k) t \<Longrightarrow> table_sound (fdt k2) t"
    have p: "p \<notin> set (all_processes k)" by (rule proc_alloc_fresh [OF ready made(2,3)])
    let ?k3 = "publish ticks p n (comm (processes k ?par)) 0 stk as fdtab c k2"
    have nb: "newborn k p n ?k3" using newborn_publish [OF ok p made(3,7)] par by simp
    have "current k2 \<noteq> p" using core_fields(5) [OF made(7)] par p by (auto simp: current_def)
    note pf = publish_fields [OF this, where ticks = ticks and n = n and nm = "comm (processes k ?par)" and flgs = 0 and stack = stk and as = as and
        fdtab = fdtab and c = c]
    have fl: "flags (procs (rq ?k3) (unat p)) AND PROC_FLAG_KERNEL = 0" "empty_table (fdt ?k3) (files (processes ?k3 p))"
      using pf(12,14) made(8) sound_view(1) [OF pf(5)] by (simp_all add: new_process_def)
    obtain k4 where k4: "drop_defaults ops p ?k3 = Some k4" "core k4 = core (upd_process p (\<lambda>q. q\<lparr>mm := 0, files := 0, pcred := 0\<rparr>) ?k3)"
      "\<And>u. table_sound (fdt ?k3) u \<Longrightarrow> table_sound (fdt k4) u" by (rule drop_defaults_effect [OF fl, of ops]) (rule that)
    have nb4: "newborn k p n k4" by (rule newborn_upd [OF nb k4(2) p]) simp
    have z: "files (processes k4 p) = 0" using core_fields(4) [OF k4(2)] by (simp add: core_upd_process)
    have ts4: "table_sound (fdt k4) (files (processes k ?par))" using ts made(9) sound_view(2) [OF pf(5)] k4(3) by simp
    obtain k7 r where c: "copy_all p ?par flgs k4 = (k7, r)" by fastforce
    note cp = copy_all_newborn [OF nb4 p par z ts4 c] and df = do_fork_created [OF made(1,3) k4(1) c, of stack regs]
    show ?thesis
    proof (cases r)
      case (Inl e)
      obtain k' where "process_destroy ops p k7 = Some k'" "ptab_ok k'" "fork_failed k k'"
        using fork_undone [OF ok p made(3-6), of k7 ops] cp unfolding fork_failed_def by metis
      then show ?thesis using df Inl cp by auto
    next
      case (Inr u)
      let ?s = "start_child sy flgs stack regs p ?par k7"
      have m: "ptab_ok ?s" "fork_made flgs k ?s n p"
        using start_child_made [OF ok par p made(3-6), of k7 flgs sy stack regs] cp assms by (auto simp: can_fork_def)
      then have "pid (processes ?s p) = n" by (simp add: fork_made_def Let_def)
      then have "do_fork ops sy ticks flgs stack regs k = Some (?s, Inr n)" using df Inr by simp
      then show ?thesis using m by (intro exI [of _ ?s] exI [of _ "Inr n"]) auto
    qed
  qed
qed

section \<open>Wait\<close>

text \<open>One turn of the others, and the rounds in which the loop of \<^verbatim>\<open>do_wait\<close> ends.\<close>

definition turn :: "u64 \<Rightarrow> (kstate \<Rightarrow> kstate) \<Rightarrow> kstate \<Rightarrow> kstate" where
  "turn ticks others k = others (upd_rq (scheduler_yield ticks) k)"

definition wait_ends :: "int \<Rightarrow> u32 \<Rightarrow> u64 \<Rightarrow> kstate \<Rightarrow> bool" where
  "wait_ends n opts par k \<longleftrightarrow> find_zombie n par k \<noteq> None \<or> children (processes k par) = [] \<or> opts AND WNOHANG \<noteq> 0"

definition wait_result :: "s_ops \<Rightarrow> int \<Rightarrow> u64 \<Rightarrow> kstate \<Rightarrow> (kstate \<times> (nat \<times> u32) option res) option" where
  "wait_result ops n par k = (case find_zombie n par k of Some z \<Rightarrow> reap ops z k
     | None \<Rightarrow> Some (k, if children (processes k par) = [] then Inl ECHILD else Inr None))"

lemma wait_loop_round:
  "wait_loop ops ticks others n opts par k =
     (if wait_ends n opts par k then wait_result ops n par k else wait_loop ops ticks others n opts par (turn ticks others k))"
  by (subst wait_loop.simps) (auto simp: wait_ends_def wait_result_def turn_def split: option.split)

lemma wait_loop_ends:
  assumes "\<And>i. i < m \<Longrightarrow> \<not> wait_ends n opts par ((turn ticks others ^^ i) k)" and "wait_ends n opts par ((turn ticks others ^^ m) k)"
  shows "wait_loop ops ticks others n opts par k = wait_result ops n par ((turn ticks others ^^ m) k)"
  using assms
proof (induction m arbitrary: k)
  case 0
  then show ?case by (subst wait_loop_round) simp
next
  case (Suc m)
  have "\<not> wait_ends n opts par ((turn ticks others ^^ i) (turn ticks others k))" if "i < m" for i
    using Suc.prems(1) [of "Suc i"] that by (simp add: funpow_swap1)
  moreover have "wait_ends n opts par ((turn ticks others ^^ m) (turn ticks others k))" using Suc.prems(2) by (simp add: funpow_swap1)
  ultimately have "wait_loop ops ticks others n opts par (turn ticks others k) = wait_result ops n par ((turn ticks others ^^ m) (turn ticks others k))"
    by (rule Suc.IH)
  moreover have "\<not> wait_ends n opts par k" using Suc.prems(1) [of 0] by simp
  ultimately show ?case by (subst wait_loop_round) (simp add: funpow_swap1)
qed

lemma wait_loop_returned:
  assumes "wait_loop ops ticks others n opts par k = Some r"
  shows "\<exists>i. wait_ends n opts par ((turn ticks others ^^ i) k)"
proof (rule wait_loop.raw_induct [where P = "\<lambda>ops ticks others n opts par k r. \<exists>i. wait_ends n opts par ((turn ticks others ^^ i) k)", OF _ assms])
  fix f ops ticks others n opts par k r
  assume IH: "\<And>ops ticks others n opts par k r. f ops ticks others n opts par k = Some r \<Longrightarrow> \<exists>i. wait_ends n opts par ((turn ticks others ^^ i) k)"
    and r: "(if find_zombie n par k \<noteq> None then reap ops (the (find_zombie n par k)) k
      else if children (processes k par) = [] then Some (k, Inl ECHILD)
      else if opts AND WNOHANG \<noteq> 0 then Some (k, Inr None)
      else f ops ticks others n opts par (others (upd_rq (scheduler_yield ticks) k))) = Some r"
  show "\<exists>i. wait_ends n opts par ((turn ticks others ^^ i) k)"
  proof (cases "wait_ends n opts par k")
    case True
    then show ?thesis by (intro exI [of _ 0]) simp
  next
    case False
    then have "f ops ticks others n opts par (turn ticks others k) = Some r" using r by (auto simp: wait_ends_def turn_def)
    then obtain i where "wait_ends n opts par ((turn ticks others ^^ i) (turn ticks others k))" using IH by blast
    then show ?thesis by (intro exI [of _ "Suc i"]) (simp add: funpow_swap1)
  qed
qed

lemma wait_loop_forever:
  assumes "\<And>i. \<not> wait_ends n opts par ((turn ticks others ^^ i) k)"
  shows "wait_loop ops ticks others n opts par k = None"
  using wait_loop_returned [of ops ticks others n opts par k] assms by (cases "wait_loop ops ticks others n opts par k") auto

text \<open>Reaping a child of the process table.\<close>

lemma reap_effect:
  assumes ok: "ptab_ok k" and z: "z \<in> set (all_processes k)" and fr: "freeable (fdt k) (files (processes k z))"
  shows "\<exists>k'. reap ops z k = Some (k', Inr (Some (pid (processes k z), push_bit 8 (word_of_int (exit_code (processes k z)))))) \<and> ptab_ok k' \<and>
    pid_table k' = (pid_table k)[pid (processes k z) := 0] \<and> all_processes k' = remove1 z (all_processes k) \<and> processes k' = (\<lambda>q. without z (processes k q))"
proof -
  have "z \<noteq> 0" using ptab_okD(5) [OF ok] z by auto
  then obtain k' where k': "process_destroy ops z k = Some k'" "pid_table k' = pid_table (free_pid (pid (processes k z)) k)"
    "all_processes k' = remove1 z (all_processes k)" "processes k' = (\<lambda>q. without z (processes k q))"
    "rq k' = sleep_list_del (unat z) (run_list_del (unat z) (rq k))" "next_pid k' = next_pid k" "process_cache k' = process_cache k"
    by (rule process_destroy_effect [OF _ fr, of ops]) (rule that)
  have "pid_table k' = (pid_table k)[pid (processes k z) := 0]" using ptab_okD(6) [OF ok z] k'(2) by (simp add: free_pid_def)
  then show ?thesis using process_destroy_ok [OF ok z k'(2-6)] k' by (simp add: reap_def Let_def)
qed

lemma find_zombie_child:
  assumes "ptab_ok k" and "par \<in> set (all_processes k)" and "find_zombie n par k = Some z"
  shows "z \<in> set (all_processes k)" "z \<in> set (children (processes k par))" "n = -1 \<or> int (pid (processes k z)) = n"
    "state (procs (rq k) (unat z)) = PROC_STATE_ZOMBIE"
proof -
  show c: "z \<in> set (children (processes k par))" "n = -1 \<or> int (pid (processes k z)) = n" "state (procs (rq k) (unat z)) = PROC_STATE_ZOMBIE"
    using assms(3) by (auto simp: find_zombie_def find_Some_iff in_set_conv_nth)
  show "z \<in> set (all_processes k)" using assms(1,2) c(1) by (auto simp: ptab_ok_def)
qed

lemma turn_processes: "processes ((turn ticks (\<lambda>x. x) ^^ i) k) = processes k"
  by (induction i) (simp_all add: turn_def upd_rq_def)

section \<open>What fork and wait guarantee\<close>

text \<open>A machine with one process whose record is a live object of the process cache, and one with a parent and a zombie child.\<close>

definition ex_forker :: "heap \<Rightarrow> u64 \<Rightarrow> kstate" where
  "ex_forker h t = \<lparr>vm = \<lparr>hp = h, words = \<lambda>_ _. 0, kernel_pt = \<lparr>pt_addr = 0, pml4_phys = 0, pt_refcount = 1\<rparr>\<rparr>, fdt = ex_fds h t,
     rq = example_boot\<lparr>curr := Some (unat t), idle := None\<rparr>, processes = (\<lambda>_. new_process 0 1 [] 0 0 t 0 0),
     creds = (\<lambda>_. \<lparr>uid = 0, euid = 0, suid = 0, fsuid = 0, gid = 0, egid = 0, sgid = 0, fsgid = 0, ngroups = 0, groups = [], cred_refcount = 1\<rparr>),
     spaces = (\<lambda>_. \<lparr>as_addr = 0, pt = None, vma_list = [], vma_count = 0, total_vm = 0, brk_start = 0, brk_end = 0, start_code = 0,
       end_code = 0, start_data = 0, end_data = 0, start_stack = 0, as_refcount = 1\<rparr>),
     pid_table = (replicate PID_MAX 0)[1 := t], next_pid = 2, all_processes = [t],
     thread_groups = \<lparr>nxt = \<lambda>a. a, prv = \<lambda>a. a\<rparr>, init_process = t, idle_process = 0, init_exec_path = [], process_cache = 0x1000\<rparr>"

definition ex_waiter :: kstate where
  "ex_waiter = (ex_forker heap_example 0x10)\<lparr>processes := (\<lambda>p. if p = 0x10 then new_process 0 1 [] 0 0 0 0 0\<lparr>children := [0x20]\<rparr>
       else new_process 0 2 [] 0 0 0 0 0x10\<lparr>exit_code := 3\<rparr>),
     rq := example_boot\<lparr>curr := Some 16, idle := None, procs := (\<lambda>p. if p = 32 then example_proc\<lparr>state := PROC_STATE_ZOMBIE\<rparr> else example_proc)\<rparr>,
     pid_table := (replicate PID_MAX 0)[1 := 0x10, 2 := 0x20], next_pid := 3, all_processes := [0x20, 0x10]\<rparr>"

lemma ex_forker_can_fork:
  assumes "heap_inv h" and "0x1000 \<in> set (cache_list h)" and "t \<in> live h" and "t \<noteq> 0"
  shows "can_fork 0 (ex_forker h t)"
proof -
  have "ptab_ok (ex_forker h t)"
    using assms(4) by (auto simp: ptab_ok_def lists_ok_def ex_forker_def example_boot_def PID_MAX_def new_process_def nth_list_update split: if_splits)
  moreover have "table_sound (ex_fds h t) t" by (auto simp: table_sound_def ex_fds_def ex_table_def no_fd_def)
  ultimately show ?thesis
    using assms by (simp add: can_fork_def proc_cache_ready_def current_def) (simp add: ex_forker_def example_boot_def new_process_def)
qed

lemma ex_waiter_ok: "ptab_ok ex_waiter" "current ex_waiter = 0x10" "find_zombie (-1) 0x10 ex_waiter = Some 0x20"
  by (auto simp: ptab_ok_def lists_ok_def ex_waiter_def ex_forker_def example_boot_def PID_MAX_def new_process_def nth_list_update current_def
      find_zombie_def split: if_splits)



text \<open>C20: the child of a fork starts from the parent's registers. After setup_child_context the saved stack
  pointer of the child is the frame below the top of its kernel stack; the word there is the address of fork_return, so
  that the first switch to the child returns into it; and the 22 words above are the parent's saved registers, word for word, except rax,
  which is 0 so that fork returns 0 in the child, and the stack pointer when a stack is given.
\<close>

theorem child_frame_exact:
  fixes k child sy stack regs
  defines "frame \<equiv> kernel_stack (processes k child) + kernel_stack_size (processes k child) - 8 - sizeof_cpu_regs"
  assumes "fwd_safe (frame + 8) regs 176" and "\<And>j. j < 176 \<Longrightarrow> 8 \<le> unat (regs + of_nat j - frame)" and i: "i < 22"
  defines "k' \<equiv> setup_child_context sy child stack regs k"
  shows "ctx_rsp (cpu_ctx (processes k' child)) = frame \<and> load64 (memory (hp (vm k'))) frame = fork_return sy \<and>
    load64 (memory (hp (vm k'))) (frame + 8 + of_nat (8 * i)) =
      (if i = 14 then 0 else if i = 20 \<and> stack \<noteq> 0 then stack else load64 (memory (hp (vm k))) (regs + of_nat (8 * i)))"
proof -
  have f: "kernel_stack (processes k child) + kernel_stack_size (processes k child) - 8 - sizeof_cpu_regs = frame" by (simp add: frame_def)
  have u: "unat sizeof_cpu_regs = 176" by (simp add: sizeof_cpu_regs_def)
  have k': "k' = upd_memory (\<lambda>mem0. let mem0 = store64 mem0 frame (fork_return sy); mem0 = memcpy mem0 (frame + 8) regs 176;
      mem0 = store64 mem0 (frame + 8 + 112) 0 in if stack \<noteq> 0 then store64 mem0 (frame + 8 + 160) stack else mem0)
    (upd_process child (\<lambda>q. q\<lparr>cpu_ctx := zero_context\<lparr>ctx_rsp := frame\<rparr>\<rparr>) k)"
    unfolding k'_def setup_child_context_def Let_def f u ..
  have "ctx_rsp (cpu_ctx (processes k' child)) = frame" unfolding k' by (simp add: upd_memory_def set_heap_def upd_process_def)
  moreover have m: "memory (hp (vm k')) = (let mem0 = store64 (memory (hp (vm k))) frame (fork_return sy); mem0 = memcpy mem0 (frame + 8) regs 176;
      mem0 = store64 mem0 (frame + 8 + 112) 0 in if stack \<noteq> 0 then store64 mem0 (frame + 8 + 160) stack else mem0)"
    unfolding k' by (simp add: upd_memory_def set_heap_def upd_process_def)
  ultimately show ?thesis unfolding m using child_frame [OF assms(2,3)] i by blast
qed

theorem child_frame_exact_witness:
  "ctx_rsp (cpu_ctx (processes (setup_child_context \<lparr>kernel_as = 0, fork_return = 1, idle_thread = 2, init_bootstrap_thread = 3\<rparr> 0x20 0 0x9000 ex_waiter) 0x20)) = 0x3F48"
proof -
  have k: "kernel_stack (processes ex_waiter 0x20) + kernel_stack_size (processes ex_waiter 0x20) - 8 - sizeof_cpu_regs = 0x3F48"
    by (simp add: ex_waiter_def new_process_def KERNEL_STACK_SIZE_def sizeof_cpu_regs_def)
  have "8 \<le> unat ((0x9000 :: u64) + of_nat j - 0x3F48)" if "j < 176" for j
  proof -
    have "(0x9000 :: u64) + of_nat j - 0x3F48 = of_nat (0x50B8 + j)" by simp
    then show ?thesis using that by (simp only: unat_of_nat) simp
  qed
  moreover have "fwd_safe (0x3F48 + 8) 0x9000 176" by (simp add: fwd_safe_def)
  ultimately show ?thesis
    using child_frame_exact [where k = ex_waiter and child = "0x20" and regs = "0x9000" and i = 0 and stack = 0
      and sy = "\<lparr>kernel_as = 0, fork_return = 1, idle_thread = 2, init_bootstrap_thread = 3\<rparr>", unfolded k] by simp
qed



text \<open>C39: waiting for a process that is not a child never returns while the caller has other children. The check
  for the absence of children counts every child and not only the one that is waited for: if at every look the caller has a child and
  none of them has the identifier that is waited for, the wait without WNOHANG does not return, where the answer would be ECHILD.
\<close>

theorem do_wait_stranger_hangs:
  assumes "current k \<noteq> 0" and "n \<noteq> -1" and "opts AND WNOHANG = 0"
    and "\<And>i. children (processes ((turn ticks others ^^ i) k) (current k)) \<noteq> []"
    and "\<And>i c. c \<in> set (children (processes ((turn ticks others ^^ i) k) (current k))) \<Longrightarrow> int (pid (processes ((turn ticks others ^^ i) k) c)) \<noteq> n"
  shows "do_wait ops ticks others n opts k = None"
proof -
  have "\<not> wait_ends n opts (current k) ((turn ticks others ^^ i) k)" for i
    using assms(2-4) assms(5) [of _ i] by (auto simp: wait_ends_def find_zombie_def find_Some_iff in_set_conv_nth)
  then have "wait_loop ops ticks others n opts (current k) k = None" by (rule wait_loop_forever)
  then show ?thesis using assms(1) by (simp add: do_wait_def)
qed

theorem do_wait_stranger_hangs_witness: "do_wait (\<lambda>_. None) 0 (\<lambda>x. x) 77 0 ex_waiter = None"
  by (rule do_wait_stranger_hangs) (simp_all add: ex_waiter_ok turn_processes, simp_all add: ex_waiter_def new_process_def)

end
