(* ===== verification/RBTree.thy ===== *)
theory RBTree
  imports Obelisk_Prelude
begin

text \<open>
  The red-black trees of \<^verbatim>\<open>kernel/lib/rbtree.c\<close> on an explicit store of nodes. The parent pointer and the
  colour share one word, as in the code. An operation that would follow a null pointer has the
  result \<^const>\<open>None\<close>, and so has a loop that does not end.
\<close>

section \<open>Nodes\<close>

record rb_node =
  rb_parent_color :: u64
  rb_right :: u64
  rb_left :: u64

record rb_tree =
  rb_nodes :: "u64 \<Rightarrow> rb_node"
  rb_root :: u64

definition RB_RED :: u64 where "RB_RED = 0"
definition RB_BLACK :: u64 where "RB_BLACK = 1"

definition rb_parent :: "u64 \<Rightarrow> rb_tree \<Rightarrow> u64" where
  "rb_parent r s = rb_parent_color (rb_nodes s r) AND NOT 3"

definition rb_color :: "u64 \<Rightarrow> rb_tree \<Rightarrow> u64" where
  "rb_color r s = rb_parent_color (rb_nodes s r) AND 1"

definition rb_is_red :: "u64 \<Rightarrow> rb_tree \<Rightarrow> bool" where
  "rb_is_red r s \<longleftrightarrow> rb_color r s = 0"

definition rb_is_black :: "u64 \<Rightarrow> rb_tree \<Rightarrow> bool" where
  "rb_is_black r s \<longleftrightarrow> rb_color r s \<noteq> 0"

definition upd_node :: "u64 \<Rightarrow> (rb_node \<Rightarrow> rb_node) \<Rightarrow> rb_tree \<Rightarrow> rb_tree" where
  "upd_node r f s = s\<lparr>rb_nodes := (rb_nodes s)(r := f (rb_nodes s r))\<rparr>"

definition rb_set_parent :: "u64 \<Rightarrow> u64 \<Rightarrow> rb_tree \<Rightarrow> rb_tree" where
  "rb_set_parent r p = upd_node r (\<lambda>n. n\<lparr>rb_parent_color := (rb_parent_color n AND 3) OR p\<rparr>)"

definition rb_set_color :: "u64 \<Rightarrow> u64 \<Rightarrow> rb_tree \<Rightarrow> rb_tree" where
  "rb_set_color r color = upd_node r (\<lambda>n. n\<lparr>rb_parent_color := (rb_parent_color n AND NOT 1) OR color\<rparr>)"

definition rb_set_parent_color :: "u64 \<Rightarrow> u64 \<Rightarrow> u64 \<Rightarrow> rb_tree \<Rightarrow> rb_tree" where
  "rb_set_parent_color r p color = upd_node r (\<lambda>n. n\<lparr>rb_parent_color := p OR color\<rparr>)"

text \<open>The fields of a node. A child is read and written with the node it belongs to.\<close>

definition left_of :: "u64 \<Rightarrow> rb_tree \<Rightarrow> u64" where "left_of r s = rb_left (rb_nodes s r)"
definition right_of :: "u64 \<Rightarrow> rb_tree \<Rightarrow> u64" where "right_of r s = rb_right (rb_nodes s r)"
definition set_left :: "u64 \<Rightarrow> u64 \<Rightarrow> rb_tree \<Rightarrow> rb_tree" where "set_left r c = upd_node r (\<lambda>n. n\<lparr>rb_left := c\<rparr>)"
definition set_right :: "u64 \<Rightarrow> u64 \<Rightarrow> rb_tree \<Rightarrow> rb_tree" where "set_right r c = upd_node r (\<lambda>n. n\<lparr>rb_right := c\<rparr>)"

text \<open>The pointer a node is linked through: the root, or a child field of a node.\<close>

datatype rb_slot = Root_Slot | Left_Slot u64 | Right_Slot u64

primrec store_slot :: "rb_slot \<Rightarrow> u64 \<Rightarrow> rb_tree \<Rightarrow> rb_tree" where
  "store_slot Root_Slot n s = s\<lparr>rb_root := n\<rparr>"
| "store_slot (Left_Slot p) n s = set_left p n s"
| "store_slot (Right_Slot p) n s = set_right p n s"

definition rb_link_node :: "u64 \<Rightarrow> u64 \<Rightarrow> rb_slot \<Rightarrow> rb_tree \<Rightarrow> rb_tree" where
  "rb_link_node node parent link s =
     store_slot link node (upd_node node (\<lambda>n. n\<lparr>rb_parent_color := parent, rb_left := 0, rb_right := 0\<rparr>) s)"

section \<open>Rotations\<close>

definition rb_rotate_left :: "u64 \<Rightarrow> rb_tree \<Rightarrow> rb_tree option" where
  "rb_rotate_left node s =
     (let right = right_of node s; parent = rb_parent node s
      in if right = 0 then None
         else
           let s = set_right node (left_of right s) s;
               s = (if left_of right s \<noteq> 0 then rb_set_parent (left_of right s) node s else s);
               s = set_left right node s;
               s = rb_set_parent right parent s;
               s = (if parent \<noteq> 0
                    then if node = left_of parent s then set_left parent right s else set_right parent right s
                    else s\<lparr>rb_root := right\<rparr>)
           in Some (rb_set_parent node right s))"

definition rb_rotate_right :: "u64 \<Rightarrow> rb_tree \<Rightarrow> rb_tree option" where
  "rb_rotate_right node s =
     (let left = left_of node s; parent = rb_parent node s
      in if left = 0 then None
         else
           let s = set_left node (right_of left s) s;
               s = (if right_of left s \<noteq> 0 then rb_set_parent (right_of left s) node s else s);
               s = set_right left node s;
               s = rb_set_parent left parent s;
               s = (if parent \<noteq> 0
                    then if node = right_of parent s then set_right parent left s else set_left parent left s
                    else s\<lparr>rb_root := left\<rparr>)
           in Some (rb_set_parent node left s))"

section \<open>Insertion\<close>

text \<open>One round of the loop of \<^verbatim>\<open>rb_insert_color\<close>: the next node to look at.\<close>

definition insert_round :: "u64 \<Rightarrow> u64 \<Rightarrow> rb_tree \<Rightarrow> (u64 \<times> rb_tree) option" where
  "insert_round node parent s =
     (let gparent = rb_parent parent s
      in if gparent = 0 then None
         else if parent = left_of gparent s then
           (let uncle = right_of gparent s
            in if uncle \<noteq> 0 \<and> rb_is_red uncle s
               then Some (gparent, rb_set_color gparent RB_RED (rb_set_color parent RB_BLACK (rb_set_color uncle RB_BLACK s)))
               else
                 Option.bind (if node = right_of parent s then map_option (\<lambda>s. (parent, node, s)) (rb_rotate_left parent s) else Some (node, parent, s))
                   (\<lambda>(node, parent, s).
                      map_option (Pair node) (rb_rotate_right gparent (rb_set_color gparent RB_RED (rb_set_color parent RB_BLACK s)))))
         else
           (let uncle = left_of gparent s
            in if uncle \<noteq> 0 \<and> rb_is_red uncle s
               then Some (gparent, rb_set_color gparent RB_RED (rb_set_color parent RB_BLACK (rb_set_color uncle RB_BLACK s)))
               else
                 Option.bind (if node = left_of parent s then map_option (\<lambda>s. (parent, node, s)) (rb_rotate_right parent s) else Some (node, parent, s))
                   (\<lambda>(node, parent, s).
                      map_option (Pair node) (rb_rotate_left gparent (rb_set_color gparent RB_RED (rb_set_color parent RB_BLACK s))))))"

partial_function (option) insert_loop :: "u64 \<Rightarrow> rb_tree \<Rightarrow> rb_tree option" where
  "insert_loop node s =
     (let parent = rb_parent node s
      in if parent \<noteq> 0 \<and> rb_is_red parent s
         then Option.bind (insert_round node parent s) (\<lambda>(node, s). insert_loop node s)
         else Some s)"

definition rb_insert_color :: "u64 \<Rightarrow> rb_tree \<Rightarrow> rb_tree option" where
  "rb_insert_color node s =
     Option.bind (insert_loop node s) (\<lambda>s. if rb_root s = 0 then None else Some (rb_set_color (rb_root s) RB_BLACK s))"

section \<open>Deletion\<close>

definition null_or_black :: "u64 \<Rightarrow> rb_tree \<Rightarrow> bool" where
  "null_or_black r s \<longleftrightarrow> r = 0 \<or> rb_is_black r s"

text \<open>One round of the loop of \<^verbatim>\<open>rb_erase_color\<close>: the next node and its parent, and whether the loop is left by
  its \<^verbatim>\<open>break\<close>. The tail of a round has a black sibling, and its last
  part a red child on the far side. The two halves differ only in the direction.\<close>

definition erase_finish_left :: "u64 \<Rightarrow> rb_tree \<Rightarrow> (u64 \<times> u64 \<times> bool \<times> rb_tree) option" where
  "erase_finish_left parent s =
     (let sibling = right_of parent s
      in if sibling = 0 \<or> right_of sibling s = 0 then None
         else
           let s = rb_set_color sibling (rb_color parent s) s;
               s = rb_set_color parent RB_BLACK s;
               s = rb_set_color (right_of sibling s) RB_BLACK s
           in map_option (\<lambda>s. (rb_root s, parent, True, s)) (rb_rotate_left parent s))"

definition erase_tail_left :: "u64 \<Rightarrow> rb_tree \<Rightarrow> (u64 \<times> u64 \<times> bool \<times> rb_tree) option" where
  "erase_tail_left parent s =
     (let sibling = right_of parent s
      in if sibling = 0 then None
         else if null_or_black (left_of sibling s) s \<and> null_or_black (right_of sibling s) s
           then (let s = rb_set_color sibling RB_RED s in Some (parent, rb_parent parent s, False, s))
         else
           Option.bind
             (if null_or_black (right_of sibling s) s
              then rb_rotate_right sibling (rb_set_color sibling RB_RED (rb_set_color (left_of sibling s) RB_BLACK s)) else Some s)
             (erase_finish_left parent))"

definition erase_round_left :: "u64 \<Rightarrow> rb_tree \<Rightarrow> (u64 \<times> u64 \<times> bool \<times> rb_tree) option" where
  "erase_round_left parent s =
     (let sibling = right_of parent s
      in if sibling = 0 then None
         else
           Option.bind (if rb_is_red sibling s then rb_rotate_left parent (rb_set_color parent RB_RED (rb_set_color sibling RB_BLACK s)) else Some s)
             (erase_tail_left parent))"

definition erase_finish_right :: "u64 \<Rightarrow> rb_tree \<Rightarrow> (u64 \<times> u64 \<times> bool \<times> rb_tree) option" where
  "erase_finish_right parent s =
     (let sibling = left_of parent s
      in if sibling = 0 \<or> left_of sibling s = 0 then None
         else
           let s = rb_set_color sibling (rb_color parent s) s;
               s = rb_set_color parent RB_BLACK s;
               s = rb_set_color (left_of sibling s) RB_BLACK s
           in map_option (\<lambda>s. (rb_root s, parent, True, s)) (rb_rotate_right parent s))"

definition erase_tail_right :: "u64 \<Rightarrow> rb_tree \<Rightarrow> (u64 \<times> u64 \<times> bool \<times> rb_tree) option" where
  "erase_tail_right parent s =
     (let sibling = left_of parent s
      in if sibling = 0 then None
         else if null_or_black (left_of sibling s) s \<and> null_or_black (right_of sibling s) s
           then (let s = rb_set_color sibling RB_RED s in Some (parent, rb_parent parent s, False, s))
         else
           Option.bind
             (if null_or_black (left_of sibling s) s
              then rb_rotate_left sibling (rb_set_color sibling RB_RED (rb_set_color (right_of sibling s) RB_BLACK s)) else Some s)
             (erase_finish_right parent))"

definition erase_round_right :: "u64 \<Rightarrow> rb_tree \<Rightarrow> (u64 \<times> u64 \<times> bool \<times> rb_tree) option" where
  "erase_round_right parent s =
     (let sibling = left_of parent s
      in if sibling = 0 then None
         else
           Option.bind (if rb_is_red sibling s then rb_rotate_right parent (rb_set_color parent RB_RED (rb_set_color sibling RB_BLACK s)) else Some s)
             (erase_tail_right parent))"

definition erase_round :: "u64 \<Rightarrow> u64 \<Rightarrow> rb_tree \<Rightarrow> (u64 \<times> u64 \<times> bool \<times> rb_tree) option" where
  "erase_round node parent s =
     (if parent = 0 then None else if left_of parent s = node then erase_round_left parent s else erase_round_right parent s)"

partial_function (option) erase_loop :: "u64 \<Rightarrow> u64 \<Rightarrow> rb_tree \<Rightarrow> (u64 \<times> rb_tree) option" where
  "erase_loop node parent s =
     (if null_or_black node s \<and> node \<noteq> rb_root s
      then Option.bind (erase_round node parent s)
             (\<lambda>(node, parent, left, s). if left then Some (node, s) else erase_loop node parent s)
      else Some (node, s))"

definition rb_erase_color :: "u64 \<Rightarrow> u64 \<Rightarrow> rb_tree \<Rightarrow> rb_tree option" where
  "rb_erase_color node parent s =
     map_option (\<lambda>(node, s). if node \<noteq> 0 then rb_set_color node RB_BLACK s else s) (erase_loop node parent s)"

text \<open>The walk to the leftmost and to the rightmost node below a node.\<close>

partial_function (option) walk_left :: "u64 \<Rightarrow> rb_tree \<Rightarrow> u64 option" where
  "walk_left node s = (if left_of node s \<noteq> 0 then walk_left (left_of node s) s else Some node)"

partial_function (option) walk_right :: "u64 \<Rightarrow> rb_tree \<Rightarrow> u64 option" where
  "walk_right node s = (if right_of node s \<noteq> 0 then walk_right (right_of node s) s else Some node)"

text \<open>Replacing a child of a parent, or the root when there is none.\<close>

definition replace_child :: "u64 \<Rightarrow> u64 \<Rightarrow> u64 \<Rightarrow> rb_tree \<Rightarrow> rb_tree" where
  "replace_child parent old new s =
     (if parent \<noteq> 0 then if left_of parent s = old then set_left parent new s else set_right parent new s
      else s\<lparr>rb_root := new\<rparr>)"

text \<open>The three results of unlinking a node: the child that took a place, its parent, and the colour that
  was taken out of the tree.\<close>

definition unlink_simple :: "u64 \<Rightarrow> u64 \<Rightarrow> rb_tree \<Rightarrow> u64 \<times> u64 \<times> u64 \<times> rb_tree" where
  "unlink_simple node child s =
     (let parent = rb_parent node s; color = rb_color node s;
          s = (if child \<noteq> 0 then rb_set_parent child parent s else s)
      in (child, parent, color, replace_child parent node child s))"

definition unlink_successor :: "u64 \<Rightarrow> u64 \<Rightarrow> rb_tree \<Rightarrow> u64 \<times> u64 \<times> u64 \<times> rb_tree" where
  "unlink_successor old node s =
     (let s = replace_child (rb_parent old s) old node s;
          child = right_of node s; parent = rb_parent node s; color = rb_color node s;
          (parent, s) =
            (if parent = old then (node, s)
             else
               let s = (if child \<noteq> 0 then rb_set_parent child parent s else s);
                   s = set_left parent child s;
                   s = set_right node (right_of old s) s
               in (parent, rb_set_parent (right_of old s) node s));
          s = upd_node node (\<lambda>n. n\<lparr>rb_parent_color := rb_parent_color (rb_nodes s old)\<rparr>) s;
          s = set_left node (left_of old s) s
      in (child, parent, color, rb_set_parent (left_of old s) node s))"

definition rb_erase :: "u64 \<Rightarrow> rb_tree \<Rightarrow> rb_tree option" where
  "rb_erase node s =
     Option.bind
       (if left_of node s = 0 then Some (unlink_simple node (right_of node s) s)
        else if right_of node s = 0 then Some (unlink_simple node (left_of node s) s)
        else map_option (\<lambda>next. unlink_successor node next s) (walk_left (right_of node s) s))
       (\<lambda>(child, parent, color, s). if color = RB_BLACK then rb_erase_color child parent s else Some s)"

section \<open>Traversal\<close>

definition rb_first :: "rb_tree \<Rightarrow> u64 option" where
  "rb_first s = (if rb_root s = 0 then Some 0 else walk_left (rb_root s) s)"

definition rb_last :: "rb_tree \<Rightarrow> u64 option" where
  "rb_last s = (if rb_root s = 0 then Some 0 else walk_right (rb_root s) s)"

partial_function (option) climb_right :: "u64 \<Rightarrow> rb_tree \<Rightarrow> u64 option" where
  "climb_right node s =
     (let parent = rb_parent node s
      in if parent \<noteq> 0 \<and> node = right_of parent s then climb_right parent s else Some parent)"

partial_function (option) climb_left :: "u64 \<Rightarrow> rb_tree \<Rightarrow> u64 option" where
  "climb_left node s =
     (let parent = rb_parent node s
      in if parent \<noteq> 0 \<and> node = left_of parent s then climb_left parent s else Some parent)"

definition rb_next :: "u64 \<Rightarrow> rb_tree \<Rightarrow> u64 option" where
  "rb_next node s =
     (if node = 0 then Some 0
      else if right_of node s \<noteq> 0 then walk_left (right_of node s) s
      else climb_right node s)"

definition rb_prev :: "u64 \<Rightarrow> rb_tree \<Rightarrow> u64 option" where
  "rb_prev node s =
     (if node = 0 then Some 0
      else if left_of node s \<noteq> 0 then walk_right (left_of node s) s
      else climb_left node s)"

end
