(* ===== verification/RBTree_Shape.thy ===== *)
theory RBTree_Shape
  imports RBTree
begin

text \<open>
  What a store of nodes represents: a tree of coloured addresses with the parent pointers in place.
  A context is a tree with a hole, so that a fact about the node an operation works on is a fact about
  any tree that holds it. Every primitive of the code has one rule that says what it does to the tree.
\<close>

section \<open>Trees and contexts\<close>

datatype colour = Red | Black

datatype rbt = E | N colour rbt u64 rbt

primrec inorder :: "rbt \<Rightarrow> u64 list" where
  "inorder E = []"
| "inorder (N c l a r) = inorder l @ a # inorder r"

primrec addr :: "rbt \<Rightarrow> u64" where
  "addr E = 0"
| "addr (N c l a r) = a"

datatype frame = In_Left colour u64 rbt | In_Right colour rbt u64

primrec frame_colour :: "frame \<Rightarrow> colour" where
  "frame_colour (In_Left c a r) = c"
| "frame_colour (In_Right c l a) = c"

primrec frame_addr :: "frame \<Rightarrow> u64" where
  "frame_addr (In_Left c a r) = a"
| "frame_addr (In_Right c l a) = a"

text \<open>A context is the list of frames from the hole to the root.\<close>

fun plug :: "frame list \<Rightarrow> rbt \<Rightarrow> rbt" where
  "plug [] t = t"
| "plug (In_Left c a r # C) t = plug C (N c t a r)"
| "plug (In_Right c l a # C) t = plug C (N c l a t)"

fun before :: "frame list \<Rightarrow> u64 list" where
  "before [] = []"
| "before (In_Left c a r # C) = before C"
| "before (In_Right c l a # C) = before C @ inorder l @ [a]"

fun after :: "frame list \<Rightarrow> u64 list" where
  "after [] = []"
| "after (In_Left c a r # C) = a # inorder r @ after C"
| "after (In_Right c l a # C) = after C"

definition hole_parent :: "frame list \<Rightarrow> u64" where
  "hole_parent C = (case C of [] \<Rightarrow> 0 | f # _ \<Rightarrow> frame_addr f)"

lemma inorder_plug: "inorder (plug C t) = before C @ inorder t @ after C"
  by (induction C t rule: plug.induct) simp_all

lemma plug_append: "plug (C @ D) t = plug D (plug C t)"
  by (induction C t rule: plug.induct) simp_all

lemma addr_plug_cong: "addr t = addr t' \<Longrightarrow> addr (plug C t) = addr (plug C t')"
proof (induction C arbitrary: t t')
  case (Cons f C)
  then show ?case by (cases f) simp_all
qed simp

lemma addr_plug: "C \<noteq> [] \<Longrightarrow> addr (plug C t) \<in> set (before C @ after C)"
proof (induction C arbitrary: t)
  case (Cons f C)
  then show ?case by (cases f; cases "C = []") auto
qed simp

section \<open>Representation\<close>

definition colour_bit :: "colour \<Rightarrow> u64" where
  "colour_bit c = (case c of Red \<Rightarrow> 0 | Black \<Rightarrow> 1)"

text \<open>Node addresses are aligned, so the two low bits of the parent word are free for the colour.\<close>

definition aligned4 :: "u64 \<Rightarrow> bool" where
  "aligned4 a \<longleftrightarrow> a AND 3 = 0"

definition word_of :: "u64 \<Rightarrow> colour \<Rightarrow> u64" where
  "word_of p c = p OR colour_bit c"

primrec rep :: "(u64 \<Rightarrow> rb_node) \<Rightarrow> u64 \<Rightarrow> u64 \<Rightarrow> rbt \<Rightarrow> bool" where
  "rep h par p E \<longleftrightarrow> p = 0"
| "rep h par p (N c l a r) \<longleftrightarrow> p = a \<and> a \<noteq> 0 \<and> aligned4 a \<and> rb_parent_color (h a) = word_of par c \<and>
     rep h a (rb_left (h a)) l \<and> rep h a (rb_right (h a)) r"

definition tree_at :: "rb_tree \<Rightarrow> rbt \<Rightarrow> bool" where
  "tree_at s t \<longleftrightarrow> rep (rb_nodes s) 0 (rb_root s) t \<and> distinct (inorder t)"

text \<open>The pointers around a hole: the address in it and the root of the whole.\<close>

fun around :: "(u64 \<Rightarrow> rb_node) \<Rightarrow> u64 \<Rightarrow> u64 \<Rightarrow> frame list \<Rightarrow> bool" where
  "around h root p [] \<longleftrightarrow> root = p"
| "around h root p (In_Left c a r # C) \<longleftrightarrow> a \<noteq> 0 \<and> aligned4 a \<and> rb_parent_color (h a) = word_of (hole_parent C) c \<and>
     rb_left (h a) = p \<and> rep h a (rb_right (h a)) r \<and> around h root a C"
| "around h root p (In_Right c l a # C) \<longleftrightarrow> a \<noteq> 0 \<and> aligned4 a \<and> rb_parent_color (h a) = word_of (hole_parent C) c \<and>
     rb_right (h a) = p \<and> rep h a (rb_left (h a)) l \<and> around h root a C"

lemma rep_addr: "rep h par p t \<Longrightarrow> p = addr t"
  by (cases t) simp_all

lemma rep_at: "rep h par p t \<longleftrightarrow> p = addr t \<and> rep h par (addr t) t"
  by (cases t) auto

lemma rep_plug: "rep h 0 root (plug C t) \<longleftrightarrow> rep h (hole_parent C) (addr t) t \<and> around h root (addr t) C"
proof (induction C t rule: plug.induct)
  case (1 t)
  show ?case using rep_at [of h 0 root t] by (auto simp: hole_parent_def)
next
  case (2 c a r C t)
  show ?case using 2 rep_at [of h a "rb_left (h a)" t] by (auto simp: hole_parent_def)
next
  case (3 c l a C t)
  show ?case using 3 rep_at [of h a "rb_right (h a)" t] by (auto simp: hole_parent_def)
qed

lemma rep_nonzero: "rep h par p t \<Longrightarrow> x \<in> set (inorder t) \<Longrightarrow> x \<noteq> 0 \<and> aligned4 x"
  by (induction t arbitrary: par p) auto

lemma around_nonzero: "around h root p C \<Longrightarrow> x \<in> set (before C) \<union> set (after C) \<Longrightarrow> x \<noteq> 0 \<and> aligned4 x"
  by (induction h root p C rule: around.induct) (auto dest: rep_nonzero)

text \<open>The nodes of a tree are the only ones its representation depends on.\<close>

lemma rep_cong:
  assumes "\<And>x. x \<in> set (inorder t) \<Longrightarrow> h' x = h x"
  shows "rep h' par p t = rep h par p t"
  using assms by (induction t arbitrary: par p) auto

lemma around_cong:
  assumes "\<And>x. x \<in> set (before C) \<union> set (after C) \<Longrightarrow> h' x = h x"
  shows "around h' root p C = around h root p C"
  using assms
proof (induction h root p C rule: around.induct)
  case (2 h root p c a r C)
  have "rep h' a (rb_right (h a)) r = rep h a (rb_right (h a)) r" using 2(2) by (intro rep_cong) auto
  then show ?case using 2 by auto
next
  case (3 h root p c l a C)
  have "rep h' a (rb_left (h a)) l = rep h a (rb_left (h a)) l" using 3(2) by (intro rep_cong) auto
  then show ?case using 3 by auto
qed simp

lemma rep_upd [simp]: "x \<notin> set (inorder t) \<Longrightarrow> rep (h(x := v)) par p t = rep h par p t"
  by (intro rep_cong) auto

lemma around_upd [simp]: "x \<notin> set (before C) \<Longrightarrow> x \<notin> set (after C) \<Longrightarrow> around (h(x := v)) root p C = around h root p C"
  by (intro around_cong) auto

section \<open>The parent and colour word\<close>

lemma aligned4_0 [simp]: "aligned4 0"
  by (simp add: aligned4_def)

lemma word_of_parts:
  assumes "aligned4 p"
  shows "word_of p c AND NOT 3 = p" "word_of p c AND 1 = colour_bit c" "aligned4 q \<Longrightarrow> (word_of p c AND 3) OR q = word_of q c"
    "(word_of p c AND NOT 1) OR colour_bit d = word_of p d"
proof -
  have b: "n \<noteq> 0 \<and> n \<noteq> 1" if "aligned4 p" "bit p n" for p n
  proof -
    have "\<not> bit (p AND 3) n" using that(1) by (simp add: aligned4_def)
    then have "\<not> bit (3 :: u64) n" using that(2) by (simp add: bit_and_iff)
    moreover have "bit (3 :: u64) 0" "bit (3 :: u64) 1" by (simp_all add: bit_numeral_rec(2))
    ultimately show ?thesis by metis
  qed
  have three: "bit (3 :: u64) n \<longleftrightarrow> n = 0 \<or> n = 1" for n
    by (cases n) (auto simp: bit_numeral_rec bit_Suc bit_1_iff numeral_3_eq_3)
  note w = bit_and_iff bit_not_iff bit_or_iff three bit_1_iff
  have c: "bit (colour_bit c) n \<longleftrightarrow> c = Black \<and> n = 0" for c n by (cases c) (auto simp: colour_bit_def bit_1_iff)
  show "word_of p c AND NOT 3 = p" by (rule bit_word_eqI) (unfold word_of_def w c, auto dest: b [OF assms])
  show "word_of p c AND 1 = colour_bit c" by (rule bit_word_eqI) (unfold word_of_def w c, auto dest: b [OF assms])
  show "(word_of p c AND NOT 1) OR colour_bit d = word_of p d" by (rule bit_word_eqI) (unfold word_of_def w c, auto dest: b [OF assms])
  show "(word_of p c AND 3) OR q = word_of q c" if "aligned4 q"
    by (rule bit_word_eqI) (unfold word_of_def w c, auto dest: b [OF assms] b [OF that])
qed

lemma colour_bits: "colour_bit Red = RB_RED" "colour_bit Black = RB_BLACK" "colour_bit c = 0 \<longleftrightarrow> c = Red" "colour_bit c = RB_BLACK \<longleftrightarrow> c = Black"
  by (cases c; simp add: colour_bit_def RB_RED_def RB_BLACK_def)+

section \<open>Reading and changing a node of a tree\<close>

lemma hole_parent_simps [simp]: "hole_parent [] = 0" "hole_parent (In_Left c a r # C) = a" "hole_parent (In_Right c l a # C) = a"
  by (simp_all add: hole_parent_def)

lemma hole_parent_in: "C \<noteq> [] \<Longrightarrow> hole_parent C \<in> set (before C) \<union> set (after C)"
proof (induction C)
  case (Cons f C)
  then show ?case by (cases f) auto
qed simp

lemma aligned_hole: "around h root p C \<Longrightarrow> aligned4 (hole_parent C)"
  using around_nonzero [of h root p C "hole_parent C"] hole_parent_in [of C] by (cases "C = []") auto

lemma tree_at_plug:
  "tree_at s (plug C t) \<longleftrightarrow> rep (rb_nodes s) (hole_parent C) (addr t) t \<and> around (rb_nodes s) (rb_root s) (addr t) C \<and>
     distinct (before C @ inorder t @ after C)"
  by (simp only: tree_at_def rep_plug inorder_plug conj_assoc)

lemma at_node:
  assumes "tree_at s (plug C (N c l a r))"
  shows "left_of a s = addr l" "right_of a s = addr r" "rb_parent a s = hole_parent C" "rb_color a s = colour_bit c" "rb_is_red a s \<longleftrightarrow> c = Red"
    "rb_is_black a s \<longleftrightarrow> c = Black" "a \<noteq> 0" "aligned4 a"
proof -
  have r: "rep (rb_nodes s) (hole_parent C) a (N c l a r)" and ar: "around (rb_nodes s) (rb_root s) a C" using assms by (simp_all add: tree_at_plug)
  show "left_of a s = addr l" "right_of a s = addr r" "a \<noteq> 0" "aligned4 a" using r rep_addr by (auto simp: left_of_def right_of_def)
  have w: "rb_parent_color (rb_nodes s a) = word_of (hole_parent C) c" using r by simp
  show "rb_parent a s = hole_parent C" "rb_color a s = colour_bit c" "rb_is_red a s \<longleftrightarrow> c = Red" "rb_is_black a s \<longleftrightarrow> c = Black"
    using word_of_parts [OF aligned_hole [OF ar]] w by (cases c; simp add: rb_parent_def rb_color_def rb_is_red_def rb_is_black_def colour_bit_def)+
qed

lemma at_set_color:
  assumes "tree_at s (plug C (N c l a r))"
  shows "tree_at (rb_set_color a (colour_bit d) s) (plug C (N d l a r))"
proof -
  have ar: "around (rb_nodes s) (rb_root s) a C" using assms by (simp add: tree_at_plug)
  note w = word_of_parts(4) [OF aligned_hole [OF ar], of c d, simplified]
  show ?thesis using assms by (simp add: tree_at_plug rb_set_color_def upd_node_def w)
qed

text \<open>A subtree under a new parent.\<close>

lemma rep_moved:
  assumes "rep h par p t" and "distinct (inorder t)" and "aligned4 par" "aligned4 q"
    and "\<And>x. x \<in> set (inorder t) \<Longrightarrow> x \<noteq> addr t \<Longrightarrow> h' x = h x"
    and "t \<noteq> E \<Longrightarrow> h' (addr t) = (h (addr t))\<lparr>rb_parent_color := (rb_parent_color (h (addr t)) AND 3) OR q\<rparr>"
  shows "rep h' q p t"
proof (cases t)
  case E
  then show ?thesis using assms(1) by simp
next
  case (N c l a r)
  have "rep h' a (rb_left (h a)) l = rep h a (rb_left (h a)) l" "rep h' a (rb_right (h a)) r = rep h a (rb_right (h a)) r"
    using assms(2,5) N by (auto intro!: rep_cong)
  then show ?thesis using assms(1,6) N word_of_parts(3) [OF assms(3,4), of c] by simp
qed

text \<open>The pointer to the hole is redirected.\<close>

lemma around_redirect:
  assumes ar: "around (rb_nodes s) (rb_root s) p C" and d: "distinct (before C @ p # after C)" and p: "p \<noteq> 0"
  shows "around (rb_nodes (replace_child (hole_parent C) p q s)) (rb_root (replace_child (hole_parent C) p q s)) q C"
    "x \<notin> set (before C) \<Longrightarrow> x \<notin> set (after C) \<Longrightarrow> rb_nodes (replace_child (hole_parent C) p q s) x = rb_nodes s x"
proof -
  let ?s = "replace_child (hole_parent C) p q s"
  have "around (rb_nodes ?s) (rb_root ?s) q C \<and> (x \<notin> set (before C) \<longrightarrow> x \<notin> set (after C) \<longrightarrow> rb_nodes ?s x = rb_nodes s x)"
  proof (cases C)
    case Nil
    then show ?thesis by (simp add: replace_child_def)
  next
    case (Cons f D)
    show ?thesis
    proof (cases f)
      case (In_Left c a r)
      then show ?thesis using ar d Cons by (auto simp: replace_child_def left_of_def set_left_def upd_node_def)
    next
      case (In_Right c l a)
      have "rb_left (rb_nodes s a) = addr l" using ar Cons In_Right rep_addr by auto
      moreover have "addr l \<noteq> p" using d p Cons In_Right by (cases l) auto
      ultimately show ?thesis using ar d Cons In_Right by (auto simp: replace_child_def left_of_def set_right_def upd_node_def)
    qed
  qed
  then show "around (rb_nodes ?s) (rb_root ?s) q C" "x \<notin> set (before C) \<Longrightarrow> x \<notin> set (after C) \<Longrightarrow> rb_nodes ?s x = rb_nodes s x" by simp_all
qed

lemma at_rotate_left:
  assumes t: "tree_at s (plug C (N c x a (N d y b z)))"
  shows "\<exists>s'. rb_rotate_left a s = Some s' \<and> tree_at s' (plug C (N d (N c x a y) b z))"
proof -
  let ?h = "rb_nodes s" and ?par = "hole_parent C"
  have r: "rep ?h ?par a (N c x a (N d y b z))" and ar: "around ?h (rb_root s) a C"
    and ds: "distinct (before C @ inorder x @ a # inorder y @ b # inorder z @ after C)" using t by (simp_all add: tree_at_plug)
  note f = at_node [OF t] note g = at_node [of s "In_Right c x a # C" d y b z]
  have b: "left_of b s = addr y" "b \<noteq> 0" "aligned4 b" using g t by simp_all
  define s1 where "s1 = set_right a (addr y) s"
  define s2 where "s2 = (if addr y \<noteq> 0 then rb_set_parent (addr y) a s1 else s1)"
  define s4 where "s4 = rb_set_parent b ?par (set_left b a s2)"
  define s5 where "s5 = replace_child ?par a b s4"
  define s6 where "s6 = rb_set_parent a b s5"
  have ne: "a \<noteq> b" "addr y \<noteq> a" "addr y \<noteq> b" using ds f(7) b(2) by (cases y; auto)+
  have h4: "rb_nodes s4 = ?h(a := (?h a)\<lparr>rb_right := addr y\<rparr>,
     b := (?h b)\<lparr>rb_parent_color := (rb_parent_color (?h b) AND 3) OR ?par, rb_left := a\<rparr>,
     addr y := if addr y = 0 then ?h 0 else (?h (addr y))\<lparr>rb_parent_color := (rb_parent_color (?h (addr y)) AND 3) OR a\<rparr>)" "rb_root s4 = rb_root s"
    using ne f(7) b(2) by (auto simp: s4_def s2_def s1_def rb_set_parent_def set_left_def set_right_def upd_node_def fun_eq_iff)
  have yC: "addr y \<notin> set (before C)" "addr y \<notin> set (after C)" using ds around_nonzero [OF ar] by (cases y; auto)+
  have dC: "distinct (before C @ a # after C)" using ds by auto
  have ar4: "around (rb_nodes s4) (rb_root s4) a C" unfolding h4 using ar ds yC by simp
  have ar5: "around (rb_nodes s5) (rb_root s5) b C" and h5: "\<And>u. u \<notin> set (before C) \<Longrightarrow> u \<notin> set (after C) \<Longrightarrow> rb_nodes s5 u = rb_nodes s4 u"
    unfolding s5_def using around_redirect [OF ar4 dC f(7)] by auto
  have ar6: "around (rb_nodes s6) (rb_root s6) b C" using ar5 ds by (simp add: s6_def rb_set_parent_def upd_node_def)
  have h6: "rb_nodes s6 u = (if u = a then (?h a)\<lparr>rb_parent_color := (rb_parent_color (?h a) AND 3) OR b, rb_right := addr y\<rparr> else rb_nodes s4 u)"
    if "u \<notin> set (before C)" "u \<notin> set (after C)" for u
    using h5 [OF that] ne by (auto simp: s6_def rb_set_parent_def upd_node_def h4)
  have ry: "rep ?h b (addr y) y" using r b(1) by (simp add: left_of_def)
  have "rep (rb_nodes s6) a (addr y) y"
  proof (rule rep_moved)
    show "rep ?h b (addr y) y" by (rule ry)
    show "rb_nodes s6 u = ?h u" if "u \<in> set (inorder y)" "u \<noteq> addr y" for u using that ds by (subst h6) (auto simp: h4)
    assume "y \<noteq> E"
    then have "addr y \<in> set (inorder y)" by (cases y) auto
    moreover from this have "addr y \<noteq> 0" using rep_nonzero [OF ry] by blast
    ultimately show "rb_nodes s6 (addr y) = (?h (addr y))\<lparr>rb_parent_color := (rb_parent_color (?h (addr y)) AND 3) OR a\<rparr>"
      using ds by (subst h6) (auto simp: h4)
  qed (use ds b f in auto)
  moreover have "rep (rb_nodes s6) a (addr x) x = rep ?h a (addr x) x" "rep (rb_nodes s6) b (addr z) z = rep ?h b (addr z) z"
    using ds yC ne by (intro rep_cong; subst h6; auto simp: h4; cases y; auto)+
  moreover have lr: "rb_left (?h a) = addr x" "rb_right (?h b) = addr z" using f(1) g(2) t by (simp_all add: left_of_def right_of_def)
  moreover have "rep ?h a (addr x) x" "rep ?h b (addr z) z" using r lr by auto
  moreover have "rb_nodes s6 a = (?h a)\<lparr>rb_parent_color := word_of b c, rb_right := addr y\<rparr>" "rb_nodes s6 b = (?h b)\<lparr>rb_parent_color := word_of ?par d, rb_left := a\<rparr>"
    using ds ne r word_of_parts(3) [OF aligned_hole [OF ar] b(3), of c] word_of_parts(3) [OF f(8) aligned_hole [OF ar], of d] by (subst h6; simp add: h4)+
  ultimately have "tree_at s6 (plug C (N d (N c x a y) b z))" using ar6 ds f(7,8) b(2,3) by (simp add: tree_at_plug)
  moreover have "rb_rotate_left a s = Some s6"
  proof -
    have l: "left_of b s1 = addr y" using b(1) ne by (auto simp: s1_def left_of_def set_right_def upd_node_def)
    have q: "(if ?par \<noteq> 0 then if a = left_of ?par s4 then set_left ?par b s4 else set_right ?par b s4 else s4\<lparr>rb_root := b\<rparr>) = s5"
      by (auto simp: s5_def replace_child_def)
    show ?thesis
      by (simp only: rb_rotate_left_def Let_def f(2,3) addr.simps b(1,2) if_False l q flip: s1_def s2_def s4_def s6_def)
  qed
  ultimately show ?thesis by blast
qed

section \<open>Mirror images\<close>

text \<open>The right-handed half of the code is the mirror image of the left-handed half.\<close>

definition flip :: "rb_tree \<Rightarrow> rb_tree" where
  "flip s = s\<lparr>rb_nodes := (\<lambda>a. \<lparr>rb_parent_color = rb_parent_color (rb_nodes s a), rb_right = rb_left (rb_nodes s a), rb_left = rb_right (rb_nodes s a)\<rparr>)\<rparr>"

primrec mirror :: "rbt \<Rightarrow> rbt" where
  "mirror E = E"
| "mirror (N c l a r) = N c (mirror r) a (mirror l)"

primrec mirror_frame :: "frame \<Rightarrow> frame" where
  "mirror_frame (In_Left c a r) = In_Right c (mirror r) a"
| "mirror_frame (In_Right c l a) = In_Left c a (mirror l)"

lemma mirror_mirror [simp]: "mirror (mirror t) = t"
  by (induction t) simp_all

lemma mirror_plug: "mirror (plug C t) = plug (map mirror_frame C) (mirror t)"
  by (induction C t rule: plug.induct) simp_all

lemma inorder_mirror: "inorder (mirror t) = rev (inorder t)"
  by (induction t) simp_all

lemma addr_mirror [simp]: "addr (mirror t) = addr t"
  by (cases t) simp_all

lemma flip_flip [simp]: "flip (flip s) = s"
  by (rule rb_tree.equality) (simp_all add: flip_def fun_eq_iff)

lemma flip_simps [simp]:
  "left_of a (flip s) = right_of a s" "right_of a (flip s) = left_of a s" "rb_parent a (flip s) = rb_parent a s" "rb_color a (flip s) = rb_color a s"
  "rb_is_red a (flip s) = rb_is_red a s" "rb_is_black a (flip s) = rb_is_black a s" "rb_root (flip s) = rb_root s" "null_or_black a (flip s) = null_or_black a s"
  by (simp_all add: flip_def left_of_def right_of_def rb_parent_def rb_color_def rb_is_red_def rb_is_black_def null_or_black_def)

lemma flip_update [simp]:
  "rb_set_color a c (flip s) = flip (rb_set_color a c s)" "rb_set_parent a p (flip s) = flip (rb_set_parent a p s)"
  "set_left a c (flip s) = flip (set_right a c s)" "set_right a c (flip s) = flip (set_left a c s)" "(flip s)\<lparr>rb_root := r\<rparr> = flip (s\<lparr>rb_root := r\<rparr>)"
  by (auto intro!: rb_tree.equality simp: fun_eq_iff flip_def rb_set_color_def rb_set_parent_def set_left_def set_right_def upd_node_def)

lemma flip_if: "(if P then flip s else flip s') = flip (if P then s else s')"
  by simp

lemma flip_rotate: "rb_rotate_left a (flip s) = map_option flip (rb_rotate_right a s)"
  by (simp add: rb_rotate_left_def rb_rotate_right_def Let_def flip_if)

lemma flip_rotate': "rb_rotate_right a (flip s) = map_option flip (rb_rotate_left a s)"
  using flip_rotate [of a "flip s"] by (simp add: option.map_comp comp_def option.map_id0 option.map_ident)

lemma rep_mirror: "rep (rb_nodes (flip s)) par p (mirror t) = rep (rb_nodes s) par p t"
  by (induction t arbitrary: par p) (auto simp: flip_def)

lemma tree_at_flip: "tree_at (flip s) (mirror t) = tree_at s t"
  using rep_mirror [of s 0 "rb_root s" t] by (simp add: tree_at_def inorder_mirror)

lemma at_rotate_right:
  assumes "tree_at s (plug C (N c (N d x b y) a z))"
  shows "\<exists>s'. rb_rotate_right a s = Some s' \<and> tree_at s' (plug C (N d x b (N c y a z)))"
proof -
  have "tree_at (flip s) (plug (map mirror_frame C) (N c (mirror z) a (N d (mirror y) b (mirror x))))"
    using assms tree_at_flip [of s "plug C (N c (N d x b y) a z)"] by (simp add: mirror_plug)
  from at_rotate_left [OF this] obtain s' where s': "rb_rotate_right a s = Some s'" "tree_at (flip s') (plug (map mirror_frame C) (N d (N c (mirror z) a (mirror y)) b (mirror x)))"
    by (auto simp: flip_rotate)
  have "mirror (plug C (N d x b (N c y a z))) = plug (map mirror_frame C) (N d (N c (mirror z) a (mirror y)) b (mirror x))" by (simp add: mirror_plug)
  then show ?thesis using s' tree_at_flip by metis
qed

end
