(* ===== verification/RBTree_Insert.thy ===== *)
theory RBTree_Insert
  imports RBTree_Shape
begin

text \<open>
  The balance of a red-black tree, and the repair after an insertion: every round of the loop moves the
  one violation towards the root.
\<close>

section \<open>Balance\<close>

primrec col :: "rbt \<Rightarrow> colour" where
  "col E = Black"
| "col (N c l a r) = c"

primrec bh :: "rbt \<Rightarrow> nat" where
  "bh E = 0"
| "bh (N c l a r) = (if c = Black then Suc (bh l) else bh l)"

primrec invc :: "rbt \<Rightarrow> bool" where
  "invc E = True"
| "invc (N c l a r) = (invc l \<and> invc r \<and> (c = Red \<longrightarrow> col l = Black \<and> col r = Black))"

primrec invh :: "rbt \<Rightarrow> bool" where
  "invh E = True"
| "invh (N c l a r) = (invh l \<and> invh r \<and> bh l = bh r)"

definition rb_ok :: "rbt \<Rightarrow> bool" where
  "rb_ok t \<longleftrightarrow> invc t \<and> invh t \<and> col t = Black"

definition sub :: "rbt \<Rightarrow> nat \<Rightarrow> bool" where
  "sub t n \<longleftrightarrow> invc t \<and> invh t \<and> bh t = n"

lemma sub_simps [simp]: "sub E n \<longleftrightarrow> n = 0"
  "sub (N Red l a r) n \<longleftrightarrow> sub l n \<and> sub r n \<and> col l = Black \<and> col r = Black"
  "sub (N Black l a r) (Suc n) \<longleftrightarrow> sub l n \<and> sub r n" "\<not> sub (N Black l a r) 0"
  by (auto simp: sub_def)

definition hole_black :: "frame list \<Rightarrow> bool" where
  "hole_black C = (case C of [] \<Rightarrow> False | f # _ \<Rightarrow> frame_colour f = Black)"

text \<open>A context into whose hole every subtree of black height n fits whose root is black, or red below a black parent.\<close>

fun fits :: "frame list \<Rightarrow> nat \<Rightarrow> bool" where
  "fits [] n = True"
| "fits (In_Left c a r # C) n = (sub r n \<and> (c = Red \<longrightarrow> col r = Black \<and> hole_black C) \<and> fits C (if c = Black then Suc n else n))"
| "fits (In_Right c l a # C) n = (sub l n \<and> (c = Red \<longrightarrow> col l = Black \<and> hole_black C) \<and> fits C (if c = Black then Suc n else n))"

lemma hole_black_simps [simp]: "hole_black [] = False" "hole_black (In_Left c a r # C) = (c = Black)" "hole_black (In_Right c l a # C) = (c = Black)"
  by (simp_all add: hole_black_def)

lemma plug_ok:
  assumes "fits C n" and "sub t n" and "col t = Red \<Longrightarrow> hole_black C"
  shows "rb_ok (plug C t)"
  using assms
proof (induction C t arbitrary: n rule: plug.induct)
  case (1 t)
  then show ?case by (cases "col t") (auto simp: rb_ok_def sub_def)
next
  case (2 c a r C t)
  have "sub (N c t a r) (if c = Black then Suc n else n)" using 2(2-4) by (cases c; cases "col t") auto
  then show ?case using 2 by (cases c) auto
next
  case (3 c l a C t)
  have "sub (N c l a t) (if c = Black then Suc n else n)" using 3(2-4) by (cases c; cases "col t") auto
  then show ?case using 3 by (cases c) auto
qed

lemma ok_plug:
  assumes "rb_ok (plug C t)"
  shows "fits C (bh t) \<and> sub t (bh t) \<and> (col t = Red \<longrightarrow> hole_black C)"
  using assms
proof (induction C t rule: plug.induct)
  case (1 t)
  then show ?case by (simp add: rb_ok_def sub_def)
next
  case (2 c a r C t)
  from 2(1) 2(2) show ?case by (cases c) (auto simp: sub_def)
next
  case (3 c l a C t)
  from 3(1) 3(2) show ?case by (cases c) (auto simp: sub_def)
qed

section \<open>One round\<close>

text \<open>A red node at the hole of a context that may have a red parent there: the one violation.\<close>

definition red_at :: "rb_tree \<Rightarrow> frame list \<Rightarrow> u64 \<Rightarrow> u64 list \<Rightarrow> bool" where
  "red_at s C a xs \<longleftrightarrow> (\<exists>l r n. tree_at s (plug C (N Red l a r)) \<and> sub l n \<and> sub r n \<and> col l = Black \<and> col r = Black \<and> fits C n \<and>
     inorder (plug C (N Red l a r)) = xs)"

lemma red_atI:
  assumes "tree_at s (plug C (N Red l a r))" "sub l n" "sub r n" "col l = Black" "col r = Black" "fits C n" "inorder (plug C (N Red l a r)) = xs"
  shows "red_at s C a xs"
  using assms unfolding red_at_def by blast

lemmas at_child = at_node [where C = "In_Left c b t # D" for c b t D, simplified] at_node [where C = "In_Right c t b # D" for c b t D, simplified]
lemmas at_left = at_set_color [where C = "In_Left c b t # D" for c b t D, simplified]
lemmas at_right = at_set_color [where C = "In_Right c t b # D" for c b t D, simplified]
lemmas paint = at_set_color [where d = Black, unfolded colour_bits] at_set_color [where d = Red, unfolded colour_bits]
lemmas paint_left = at_left [where d = Black, unfolded colour_bits] at_left [where d = Red, unfolded colour_bits]
lemmas paint_right = at_right [where d = Black, unfolded colour_bits] at_right [where d = Red, unfolded colour_bits]

lemma uncle_red:
  assumes "tree_at s (plug C (N Black (N Red p1 p p2) g (N Red u1 u u2)))"
  shows "tree_at (rb_set_color g RB_RED (rb_set_color p RB_BLACK (rb_set_color u RB_BLACK s))) (plug C (N Red (N Black p1 p p2) g (N Black u1 u u2)))"
  using paint(2) [OF paint_left(1) [OF paint_right(1) [OF assms]]] .

text \<open>The last two steps of the round: repaint and rotate the grandparent.\<close>

lemma rotate_up:
  assumes "tree_at s (plug C (N Black (N Red x p y) g U))"
  shows "\<exists>s'. rb_rotate_right g (rb_set_color g RB_RED (rb_set_color p RB_BLACK s)) = Some s' \<and> tree_at s' (plug C (N Black x p (N Red y g U)))"
  using at_rotate_right [OF paint(2) [OF paint_left(1) [OF assms]]] .

lemma at_facts:
  assumes "tree_at s (plug C (N c (N d x p y) g U))"
  shows "left_of g s = p" "right_of g s = addr U" "left_of p s = addr x" "right_of p s = addr y" "rb_parent p s = g" "p \<noteq> 0" "g \<noteq> 0"
    "rb_parent g s = hole_parent C" "rb_is_red p s \<longleftrightarrow> d = Red" "rb_is_red g s \<longleftrightarrow> c = Red"
  using at_node [OF assms] at_child(1-8) [OF assms] by simp_all

lemma red_uncle:
  assumes "tree_at s (plug C (N c (N d x p y) g U))"
  shows "addr U \<noteq> 0 \<and> rb_is_red (addr U) s \<longleftrightarrow> col U = Red"
  using assms by (cases U) (auto dest: at_child(13,15))

lemma not_both_children:
  assumes "tree_at s (plug C (N c l a r))" and "l \<noteq> E"
  shows "addr l \<noteq> addr r"
  using assms by (cases l; cases r) (auto simp: tree_at_plug)

lemma insert_round_left:
  assumes t: "tree_at s (plug (f # In_Left Black g U # C) (N Red l a r))" and f: "frame_colour f = Red"
    and sb: "sub l n" "sub r n" "col l = Black" "col r = Black" and fit: "fits (f # In_Left Black g U # C) n"
  shows "\<exists>a' s' D. insert_round a (frame_addr f) s = Some (a', s') \<and> length D < Suc (Suc (length C)) \<and>
    red_at s' D a' (inorder (plug (f # In_Left Black g U # C) (N Red l a r)))"
proof -
  let ?p = "frame_addr f"
  obtain P where P: "plug (f # In_Left Black g U # C) (N Red l a r) = plug C (N Black P g U)" "col P = Red" "addr P = ?p"
    "P = (case f of In_Left c p y \<Rightarrow> N c (N Red l a r) p y | In_Right c y p \<Rightarrow> N c y p (N Red l a r))" using f by (cases f) auto
  obtain x y where PN: "P = N Red x ?p y" using P(2,3) by (cases P) auto
  have tP: "tree_at s (plug C (N Black (N Red x ?p y) g U))" using t P(1) PN by simp
  note q = at_facts [OF tP]
  have g: "rb_parent ?p s = g" "g \<noteq> 0" "?p = left_of g s" using q by simp_all
  show ?thesis
  proof (cases "col U = Red")
    case True
    then obtain u1 u u2 where U: "U = N Red u1 u u2" by (cases U) auto
    let ?s = "rb_set_color g RB_RED (rb_set_color ?p RB_BLACK (rb_set_color u RB_BLACK s))"
    have r: "insert_round a ?p s = Some (g, ?s)"
      using g q(2) red_uncle [OF tP] True U by (simp add: insert_round_def Let_def)
    have "red_at ?s C g (inorder (plug (f # In_Left Black g U # C) (N Red l a r)))"
    proof (rule red_atI)
      show "tree_at ?s (plug C (N Red (N Black x ?p y) g (N Black u1 u u2)))" using uncle_red tP U by blast
      show "sub (N Black x ?p y) (Suc n)" using P(4) PN sb fit by (cases f) auto
      show "sub (N Black u1 u u2) (Suc n)" "fits C (Suc n)" using fit U f by (cases f; auto)+
      show "inorder (plug C (N Red (N Black x ?p y) g (N Black u1 u u2))) = inorder (plug (f # In_Left Black g U # C) (N Red l a r))"
        unfolding P(1) by (simp add: PN U inorder_plug)
    qed simp_all
    then show ?thesis using r by (intro exI [of _ g] exI [of _ ?s] exI [of _ C]) simp
  next
    case False
    then have B: "col U = Black" by (cases "col U") auto
    have nu: "\<not> (right_of g s \<noteq> 0 \<and> rb_is_red (right_of g s) s)" using False red_uncle [OF tP] q(2) by simp
    have fu: "sub U n" "fits C (Suc n)" using fit f by (cases f; simp)+
    show ?thesis
    proof (cases f)
      case (In_Left c p y')
      have e: "x = N Red l a r" "y = y'" "c = Red" "?p = p" using P(4) PN In_Left by auto
      have na: "a \<noteq> right_of p s" using q(4) not_both_children [where C = "In_Left Black g U # C", simplified, OF tP] e by simp
      obtain s' where s': "rb_rotate_right g (rb_set_color g RB_RED (rb_set_color p RB_BLACK s)) = Some s'" "tree_at s' (plug C (N Black (N Red l a r) p (N Red y g U)))"
        using rotate_up [OF tP] e by auto
      have "insert_round a p s = Some (a, s')" using g nu na s'(1) e by (auto simp: insert_round_def Let_def)
      moreover have "red_at s' (In_Left Black p (N Red y g U) # C) a (inorder (plug (f # In_Left Black g U # C) (N Red l a r)))"
        using s'(2) sb fu B fit In_Left e by (intro red_atI [of _ _ l _ r n]) (auto simp: inorder_plug)
      ultimately show ?thesis using e(4) by (intro exI [of _ a] exI [of _ s'] exI [of _ "In_Left Black p (N Red y g U) # C"]) simp
    next
      case (In_Right c x' p)
      have e: "y = N Red l a r" "x = x'" "c = Red" "?p = p" using P(4) PN In_Right by auto
      have tr: "tree_at s (plug (In_Left Black g U # C) (N Red x p (N Red l a r)))" using tP e by simp
      obtain s1 where s1: "rb_rotate_left p s = Some s1" "tree_at s1 (plug C (N Black (N Red (N Red x p l) a r) g U))"
        using at_rotate_left [OF tr] by auto
      obtain s' where s': "rb_rotate_right g (rb_set_color g RB_RED (rb_set_color a RB_BLACK s1)) = Some s'" "tree_at s' (plug C (N Black (N Red x p l) a (N Red r g U)))"
        using rotate_up [OF s1(2)] by auto
      have "insert_round a p s = Some (p, s')" using g nu s1(1) s'(1) e q(4) by (auto simp: insert_round_def Let_def)
      moreover have "red_at s' (In_Left Black a (N Red r g U) # C) p (inorder (plug (f # In_Left Black g U # C) (N Red l a r)))"
        using s'(2) sb fu B fit In_Right e by (intro red_atI [of _ _ x _ l n]) (auto simp: inorder_plug)
      ultimately show ?thesis using e(4) by (intro exI [of _ p] exI [of _ s'] exI [of _ "In_Left Black a (N Red r g U) # C"]) simp
    qed
  qed
qed

section \<open>The mirror image of a round\<close>

lemma mirror_balance [simp]: "col (mirror t) = col t" "invc (mirror t) = invc t" "invh (mirror t) \<and> bh (mirror t) = n \<longleftrightarrow> invh t \<and> bh t = n"
proof -
  show c: "col (mirror t) = col t" for t by (cases t) simp_all
  show "invc (mirror t) = invc t" by (induction t) (auto simp: c)
  have "invh (mirror t) = invh t \<and> (invh t \<longrightarrow> bh (mirror t) = bh t)" by (induction t) auto
  then show "invh (mirror t) \<and> bh (mirror t) = n \<longleftrightarrow> invh t \<and> bh t = n" by auto
qed

lemma sub_mirror [simp]: "sub (mirror t) n = sub t n"
  unfolding sub_def by (simp only: mirror_balance)

lemma mirror_frames [simp]: "frame_colour (mirror_frame f) = frame_colour f" "frame_addr (mirror_frame f) = frame_addr f" "mirror_frame (mirror_frame f) = f"
  by (cases f; simp)+

lemma mirror_context [simp]: "hole_black (map mirror_frame C) = hole_black C" "fits (map mirror_frame C) n = fits C n" "hole_parent (map mirror_frame C) = hole_parent C"
proof -
  show h: "hole_black (map mirror_frame C) = hole_black C" for C by (cases C) (auto simp: hole_black_def)
  show "fits (map mirror_frame C) n = fits C n" by (induction C n rule: fits.induct) (auto simp: h)
  show "hole_parent (map mirror_frame C) = hole_parent C" by (cases C) (auto simp: hole_parent_def)
qed

lemma mirror_contexts [simp]: "map mirror_frame (map mirror_frame C) = C"
  by (induction C) simp_all

lemma tree_at_mirror: "tree_at (flip s) (plug (map mirror_frame C) (mirror t)) = tree_at s (plug C t)"
  using tree_at_flip [of s "plug C t"] by (simp add: mirror_plug)

lemma red_at_flip:
  assumes "red_at s C a xs"
  shows "red_at (flip s) (map mirror_frame C) a (rev xs)"
proof -
  obtain l r n where r: "tree_at s (plug C (N Red l a r))" "sub l n" "sub r n" "col l = Black" "col r = Black" "fits C n" "inorder (plug C (N Red l a r)) = xs"
    using assms unfolding red_at_def by blast
  have "inorder (plug (map mirror_frame C) (mirror (N Red l a r))) = rev xs" using r(7) by (simp only: inorder_mirror flip: mirror_plug)
  then show ?thesis using r tree_at_mirror [of s C "N Red l a r"] by (intro red_atI [of _ _ "mirror r" _ "mirror l" n]) simp_all
qed

lemma insert_round_flip:
  assumes "rb_parent parent s = g" "parent = right_of g s" "parent \<noteq> left_of g s"
  shows "insert_round node parent (flip s) = map_option (\<lambda>(n, s). (n, flip s)) (insert_round node parent s)"
  using assms by (cases "rb_rotate_right parent s") (auto simp: insert_round_def Let_def flip_rotate flip_rotate' option.map_comp comp_def)

lemma insert_round_shorter:
  assumes r: "red_at s (f # h # C) a xs" and f: "frame_colour f = Red"
  shows "\<exists>a' s' D. insert_round a (frame_addr f) s = Some (a', s') \<and> length D < length (f # h # C) \<and> red_at s' D a' xs"
proof -
  obtain l r n where t: "tree_at s (plug (f # h # C) (N Red l a r))" "sub l n" "sub r n" "col l = Black" "col r = Black" "fits (f # h # C) n"
    "inorder (plug (f # h # C) (N Red l a r)) = xs" using r unfolding red_at_def by blast
  show ?thesis
  proof (cases h)
    case (In_Left c g U)
    then have "c = Black" using t(6) f by (cases f) auto
    then show ?thesis using insert_round_left [of s f g U C l a r n] t f In_Left by simp
  next
    case (In_Right c U g)
    then have c: "c = Black" using t(6) f by (cases f) auto
    let ?p = "frame_addr f" and ?f = "mirror_frame f" and ?C = "map mirror_frame C"
    have m: "tree_at (flip s) (plug (?f # In_Left Black g (mirror U) # ?C) (N Red (mirror r) a (mirror l)))"
      using tree_at_mirror [of s "f # h # C" "N Red l a r"] t(1) In_Right c by simp
    have fm: "fits (?f # In_Left Black g (mirror U) # ?C) n" using mirror_context(2) [of "f # h # C" n] t(6) In_Right c by simp
    have xs: "inorder (plug (?f # In_Left Black g (mirror U) # ?C) (N Red (mirror r) a (mirror l))) = rev xs"
      using inorder_mirror [of "plug (f # h # C) (N Red l a r)"] t(7) In_Right c by (simp add: mirror_plug)
    obtain a' s' D where d: "insert_round a ?p (flip s) = Some (a', s')" "length D < Suc (Suc (length C))" "red_at s' D a' (rev xs)"
      using insert_round_left [OF m _ _ _ _ _ fm] t(2-5) f unfolding xs by auto
    obtain P where P: "plug (f # h # C) (N Red l a r) = plug C (N Black U g P)" "addr P = ?p" "P \<noteq> E" using In_Right c by (cases f) auto
    have tp: "tree_at s (plug C (N Black U g P))" using t(1) P(1) by simp
    have "left_of g s = addr U" "right_of g s = ?p" using at_node(1,2) [OF tp] P(2) by simp_all
    moreover have "addr U \<noteq> ?p" using tp P(2,3) by (cases U; cases P) (auto simp: tree_at_plug)
    moreover have "rb_parent ?p s = g" using tp P(2,3) by (cases P) (auto dest: at_child(11))
    ultimately have "insert_round a ?p (flip s) = map_option (\<lambda>(n, s). (n, flip s)) (insert_round a ?p s)" by (intro insert_round_flip) auto
    then obtain s'' where "insert_round a ?p s = Some (a', s'')" "flip s'' = s'" using d(1) by (cases "insert_round a ?p s") auto
    then show ?thesis using red_at_flip [OF d(3)] d(2) by (intro exI [of _ a'] exI [of _ s''] exI [of _ "map mirror_frame D"]) auto
  qed
qed

section \<open>The loop\<close>

primrec blacken :: "rbt \<Rightarrow> rbt" where
  "blacken E = E"
| "blacken (N c l a r) = N Black l a r"

lemma inorder_blacken [simp]: "inorder (blacken t) = inorder t"
  by (cases t) simp_all

lemma blacken_ok: "rb_ok t \<Longrightarrow> rb_ok (blacken t)"
  by (cases t) (auto simp: rb_ok_def)

lemma insert_loop_ok:
  assumes "red_at s C a xs"
  shows "\<exists>s' t. insert_loop a s = Some s' \<and> tree_at s' t \<and> t \<noteq> E \<and> rb_ok (blacken t) \<and> inorder t = xs"
  using assms
proof (induction "length C" arbitrary: s C a rule: less_induct)
  case less
  obtain l r n where t: "tree_at s (plug C (N Red l a r))" "sub l n" "sub r n" "col l = Black" "col r = Black" "fits C n"
    "inorder (plug C (N Red l a r)) = xs" using less.prems unfolding red_at_def by blast
  have par: "rb_parent a s = hole_parent C" using at_node(3) [OF t(1)] .
  have ends: ?case if "\<not> (hole_parent C \<noteq> 0 \<and> rb_is_red (hole_parent C) s)" "rb_ok (blacken (plug C (N Red l a r)))"
  proof -
    have "insert_loop a s = Some s" using that(1) par by (subst insert_loop.simps) (auto simp: Let_def)
    moreover have "plug C (N Red l a r) \<noteq> E" using t(7) by (metis append_is_Nil_conv inorder.simps inorder_plug list.distinct(1))
    ultimately show ?thesis using t(1,7) that(2) by blast
  qed
  show ?case
  proof (cases C)
    case Nil
    then have "rb_ok (blacken (plug C (N Red l a r)))" using t by (auto simp: rb_ok_def sub_def)
    then show ?thesis using ends Nil by simp
  next
    case (Cons f D)
    have ft: "rb_is_red (frame_addr f) s \<longleftrightarrow> frame_colour f = Red" "frame_addr f \<noteq> 0"
      using t(1) Cons at_node(5,7) [of s D] by (cases f; simp)+
    show ?thesis
    proof (cases "frame_colour f")
      case Black
      then have "hole_black C" using Cons by (simp add: hole_black_def)
      then have "rb_ok (plug C (N Red l a r))" using plug_ok [OF t(6)] t by simp
      then show ?thesis using ends ft Black Cons blacken_ok by (simp add: hole_parent_def)
    next
      case Red
      then obtain h D' where D: "D = h # D'" using t(6) Cons by (cases f; cases D) auto
      obtain a' s' C' where n: "insert_round a (frame_addr f) s = Some (a', s')" "length C' < length C" "red_at s' C' a' xs"
        using insert_round_shorter [of s f h D' a xs] less.prems Red Cons D by auto
      have "insert_loop a s = insert_loop a' s'" using par ft Red Cons n(1) by (subst insert_loop.simps) (simp add: hole_parent_def)
      then show ?thesis using less.hyps [OF n(2,3)] by simp
    qed
  qed
qed

lemma rb_insert_color_ok:
  assumes "red_at s C a xs"
  shows "\<exists>s' t. rb_insert_color a s = Some s' \<and> tree_at s' t \<and> rb_ok t \<and> inorder t = xs"
proof -
  obtain s' t where s': "insert_loop a s = Some s'" "tree_at s' t" "t \<noteq> E" "rb_ok (blacken t)" "inorder t = xs"
    using insert_loop_ok [OF assms] by blast
  obtain c l b r where t: "t = N c l b r" using s'(3) by (cases t) auto
  have "rb_root s' = b" "b \<noteq> 0" using s'(2) t by (auto simp: tree_at_def)
  moreover have "tree_at (rb_set_color b RB_BLACK s') (N Black l b r)" using paint(1) [of s' "[]"] s'(2) t by simp
  ultimately show ?thesis using s' t by (intro exI [of _ "rb_set_color b RB_BLACK s'"] exI [of _ "N Black l b r"]) (simp add: rb_insert_color_def)
qed

section \<open>Linking a new node\<close>

definition slot_of :: "frame list \<Rightarrow> rb_slot" where
  "slot_of C = (case C of [] \<Rightarrow> Root_Slot | In_Left c a r # _ \<Rightarrow> Left_Slot a | In_Right c l a # _ \<Rightarrow> Right_Slot a)"

lemma at_link:
  assumes t: "tree_at s (plug C E)" and a: "a \<noteq> 0" "aligned4 a" "a \<notin> set (inorder (plug C E))"
  shows "tree_at (rb_link_node a (hole_parent C) (slot_of C) s) (plug C (N Red E a E))"
proof -
  have ar: "around (rb_nodes s) (rb_root s) 0 C" and d: "distinct (before C @ after C)" and n: "a \<notin> set (before C)" "a \<notin> set (after C)"
    using t a(3) by (simp_all add: tree_at_plug inorder_plug)
  have w: "word_of p Red = p" for p by (simp add: word_of_def colour_bit_def)
  have "around (rb_nodes (rb_link_node a (hole_parent C) (slot_of C) s)) (rb_root (rb_link_node a (hole_parent C) (slot_of C) s)) a C"
    "rb_nodes (rb_link_node a (hole_parent C) (slot_of C) s) a = (rb_nodes s a)\<lparr>rb_parent_color := hole_parent C, rb_left := 0, rb_right := 0\<rparr>"
    using ar d n by (cases C; auto simp: slot_of_def rb_link_node_def upd_node_def set_left_def set_right_def split: frame.splits)+
  then show ?thesis using a d n by (simp add: tree_at_plug w)
qed

lemma rb_insert_ok:
  assumes t: "tree_at s (plug C E)" and ok: "rb_ok (plug C E)" and a: "a \<noteq> 0" "aligned4 a" "a \<notin> set (inorder (plug C E))"
  shows "\<exists>s' t. rb_insert_color a (rb_link_node a (hole_parent C) (slot_of C) s) = Some s' \<and> tree_at s' t \<and> rb_ok t \<and> inorder t = before C @ a # after C"
proof -
  have "red_at (rb_link_node a (hole_parent C) (slot_of C) s) C a (before C @ a # after C)"
    using at_link [OF t a] ok_plug [OF ok] by (intro red_atI [of _ _ E _ E 0]) (simp_all add: inorder_plug)
  then show ?thesis by (rule rb_insert_color_ok)
qed

end
