(* ===== verification/RBTree_Erase.thy ===== *)
theory RBTree_Erase
  imports RBTree_Insert
begin

text \<open>
  Deletion: unlinking a node or its successor, and the repair of the black height, which moves a
  subtree that is one black node short towards the root.
\<close>

section \<open>Unlinking\<close>

lemma at_splice:
  assumes ar: "around (rb_nodes s) (rb_root s) a C" and r: "rep (rb_nodes s) q (addr x) x" and q: "aligned4 q" and a: "a \<noteq> 0"
    and d: "distinct (before C @ inorder x @ after C)" "a \<notin> set (before C)" "a \<notin> set (after C)"
  shows "tree_at (replace_child (hole_parent C) a (addr x) (if addr x \<noteq> 0 then rb_set_parent (addr x) (hole_parent C) s else s)) (plug C x)"
proof -
  define s0 where "s0 = (if addr x \<noteq> 0 then rb_set_parent (addr x) (hole_parent C) s else s)"
  let ?s = "replace_child (hole_parent C) a (addr x) s0"
  have x: "addr x \<noteq> 0 \<longleftrightarrow> x \<noteq> E" using r by (cases x) auto
  have xC: "addr x \<notin> set (before C)" "addr x \<notin> set (after C)" if "addr x \<noteq> 0" using d(1) that by (cases x; auto)+
  have s0: "rb_nodes s0 u = (if x \<noteq> E \<and> u = addr x then (rb_nodes s u)\<lparr>rb_parent_color := (rb_parent_color (rb_nodes s u) AND 3) OR hole_parent C\<rparr>
    else rb_nodes s u)" "rb_root s0 = rb_root s" for u using x by (auto simp: s0_def rb_set_parent_def upd_node_def)
  have "around (rb_nodes s0) (rb_root s0) a C = around (rb_nodes s) (rb_root s) a C" unfolding s0(2) using xC x by (intro around_cong) (auto simp: s0(1))
  then have ar': "around (rb_nodes s0) (rb_root s0) a C" using ar by simp
  have dC: "distinct (before C @ a # after C)" using d by auto
  note red = around_redirect(1) [OF ar' dC a, where q = "addr x"] around_redirect(2) [OF ar' dC a, where q = "addr x"]
  have m: "rb_nodes ?s u = rb_nodes s0 u" if "u \<in> set (inorder x)" for u using d(1) that by (intro red(2)) auto
  have "rep (rb_nodes ?s) (hole_parent C) (addr x) x"
  proof (rule rep_moved [OF r])
    show "rb_nodes ?s u = rb_nodes s u" if "u \<in> set (inorder x)" "u \<noteq> addr x" for u using m [OF that(1)] that(2) by (simp add: s0)
    assume "x \<noteq> E"
    moreover from this have "addr x \<in> set (inorder x)" by (cases x) auto
    ultimately show "rb_nodes ?s (addr x) = (rb_nodes s (addr x))\<lparr>rb_parent_color := (rb_parent_color (rb_nodes s (addr x)) AND 3) OR hole_parent C\<rparr>"
      using m by (simp add: s0)
  qed (use d q aligned_hole [OF ar] in auto)
  then show ?thesis using red(1) d(1) by (simp add: tree_at_plug flip: s0_def)
qed

lemma at_unlink_simple:
  assumes t: "tree_at s (plug C (N c l a r))" and x: "l = E \<and> x = r \<or> r = E \<and> x = l"
  shows "\<exists>s'. unlink_simple a (addr x) s = (addr x, hole_parent C, colour_bit c, s') \<and> tree_at s' (plug C x)"
proof -
  have "rep (rb_nodes s) a (addr x) x" using t x rep_addr by (auto simp: tree_at_plug)
  then have "tree_at (replace_child (hole_parent C) a (addr x) (if addr x \<noteq> 0 then rb_set_parent (addr x) (hole_parent C) s else s)) (plug C x)"
    using t x at_node(8) [OF t] by (intro at_splice) (auto simp: tree_at_plug)
  then show ?thesis using at_node(3,4) [OF t] by (simp add: unlink_simple_def Let_def)
qed

text \<open>The successor: the leftmost node of the right subtree.\<close>

fun left_path :: "frame list \<Rightarrow> bool" where
  "left_path [] = True"
| "left_path (In_Left c a r # C) = left_path C"
| "left_path (In_Right c l a # C) = False"

lemma left_path_before: "left_path D \<Longrightarrow> before D = []"
  by (induction D rule: left_path.induct) simp_all

lemma left_path_append: "left_path (C @ D) \<longleftrightarrow> left_path C \<and> left_path D"
  by (induction C rule: left_path.induct) simp_all

lemma walk_left_leftmost:
  assumes "tree_at s (plug C t)" and "t \<noteq> E"
  shows "\<exists>D d b y. t = plug D (N d E b y) \<and> left_path D \<and> walk_left (addr t) s = Some b"
  using assms
proof (induction t arbitrary: C)
  case (N c l a r)
  note f = at_node [OF N.prems(1)]
  show ?case
  proof (cases l)
    case E
    have "walk_left a s = Some a" using f(1) E by (subst walk_left.simps) simp
    then show ?thesis using E by (intro exI [of _ "[]"] exI [of _ c] exI [of _ a] exI [of _ r]) simp
  next
    case (N c' l' a' r')
    have "tree_at s (plug (In_Left c a r # C) l)" using N.prems(1) by simp
    then obtain D d b y where D: "l = plug D (N d E b y)" "left_path D" "walk_left (addr l) s = Some b" using N.IH(1) N by blast
    have "a' \<noteq> 0" using N.prems(1) N by (auto dest: at_child(7))
    then have "walk_left a s = walk_left (addr l) s" using f(1) N by (subst walk_left.simps) simp
    then show ?thesis using D by (intro exI [of _ "D @ [In_Left c a r]"] exI [of _ d] exI [of _ b] exI [of _ y]) (simp add: plug_append left_path_append)
  qed
qed simp

text \<open>The last steps of replacing a node by its successor: the successor takes the parent, the colour and the left subtree of the node.\<close>

lemma at_exchange:
  assumes ar: "around (rb_nodes s) (rb_root s) b C" and b: "b \<noteq> 0" "aligned4 b" "a \<noteq> b" "aligned4 a"
    and a: "rb_parent_color (rb_nodes s a) = word_of (hole_parent C) c" "rb_left (rb_nodes s a) = addr l" "rep (rb_nodes s) a (addr l) l" "a \<notin> set (inorder l)" "l \<noteq> E"
    and r: "rb_right (rb_nodes s b) = addr r" "rep (rb_nodes s) b (addr r) r" and d: "distinct (before C @ inorder l @ b # inorder r @ after C)"
  shows "tree_at (let s = upd_node b (\<lambda>n. n\<lparr>rb_parent_color := rb_parent_color (rb_nodes s a)\<rparr>) s; s = set_left b (left_of a s) s
     in rb_set_parent (left_of a s) b s) (plug C (N c l b r))"
proof -
  let ?h = "rb_nodes s"
  have la: "addr l \<in> set (inorder l)" using a(5) by (cases l) auto
  then have ne: "addr l \<noteq> b" "addr l \<noteq> a" using d a(4) by auto
  define s' where "s' = (let s = upd_node b (\<lambda>n. n\<lparr>rb_parent_color := rb_parent_color (rb_nodes s a)\<rparr>) s; s = set_left b (left_of a s) s in rb_set_parent (left_of a s) b s)"
  have h: "rb_nodes s' = ?h(b := (?h b)\<lparr>rb_parent_color := word_of (hole_parent C) c, rb_left := addr l\<rparr>,
      addr l := (?h (addr l))\<lparr>rb_parent_color := (rb_parent_color (?h (addr l)) AND 3) OR b\<rparr>)" "rb_root s' = rb_root s"
    using ne b(3) a(1,2) by (auto simp: s'_def Let_def upd_node_def set_left_def rb_set_parent_def left_of_def fun_eq_iff)
  have "around (rb_nodes s') (rb_root s') b C" unfolding h using ar d la by (auto intro: around_upd [THEN iffD2])
  moreover have "rep (rb_nodes s') b (addr l) l" using a la d b ne by (intro rep_moved [OF a(3)]) (auto simp: h)
  moreover have "addr l \<notin> set (inorder r)" using d la by auto
  then have "rep (rb_nodes s') b (addr r) r" using r(2) d unfolding h by simp
  moreover have "rb_nodes s' b = (?h b)\<lparr>rb_parent_color := word_of (hole_parent C) c, rb_left := addr l\<rparr>" using ne by (simp add: h)
  ultimately show ?thesis unfolding s'_def [symmetric] using b d r(1) by (simp add: tree_at_plug)
qed

lemma unlink_next:
  assumes t: "tree_at s (plug C (N c l a (N d E b y)))" and l: "l \<noteq> E"
  shows "\<exists>s'. unlink_successor a b s = (addr y, b, colour_bit d, s') \<and> tree_at s' (plug C (N c l b y))"
proof -
  let ?s = "replace_child (hole_parent C) a b s"
  note f = at_node [OF t] note g = at_child(9-16) [OF t]
  have ar: "around (rb_nodes s) (rb_root s) a C" and ds: "distinct (before C @ inorder l @ a # b # inorder y @ after C)"
    and rl: "rep (rb_nodes s) a (addr l) l" and ry: "rep (rb_nodes s) b (addr y) y" and w: "rb_parent_color (rb_nodes s a) = word_of (hole_parent C) c"
    using t rep_addr by (auto simp: tree_at_plug)
  have dC: "distinct (before C @ a # after C)" using ds by auto
  note red = around_redirect(1) [OF ar dC f(7), where q = b] around_redirect(2) [OF ar dC f(7), where q = b]
  have n: "rb_nodes ?s u = rb_nodes s u" if "u \<in> set (inorder l) \<union> {a, b} \<union> set (inorder y)" for u using that ds by (intro red(2)) auto
  have e: "right_of b ?s = addr y" "rb_parent b ?s = a" "rb_color b ?s = colour_bit d"
    using g n by (simp_all add: right_of_def rb_parent_def rb_color_def)
  have "tree_at (let s = upd_node b (\<lambda>n. n\<lparr>rb_parent_color := rb_parent_color (rb_nodes ?s a)\<rparr>) ?s; s = set_left b (left_of a s) s in rb_set_parent (left_of a s) b s)
    (plug C (N c l b y))"
  proof (rule at_exchange [OF red(1)])
    show "rep (rb_nodes ?s) a (addr l) l" "rep (rb_nodes ?s) b (addr y) y" using rl ry n by (auto intro: rep_cong [THEN iffD2])
  qed (use f g w l ds n e in \<open>auto simp: left_of_def right_of_def\<close>)
  then show ?thesis using f(3) e by (simp add: unlink_successor_def Let_def)
qed

lemma addr_plug_hole: "D \<noteq> [] \<Longrightarrow> addr (plug D t) = addr (plug D t')"
proof (cases D)
  case (Cons f C)
  then show ?thesis by (cases f) (auto intro: addr_plug_cong)
qed simp

lemma addr_in: "t \<noteq> E \<Longrightarrow> addr t \<in> set (inorder t)"
  by (cases t) auto

lemma replace_child_commute:
  assumes "par \<noteq> 0 \<Longrightarrow> par \<noteq> p \<and> par \<noteq> v"
  shows "replace_child par a b (set_left p v (if v \<noteq> 0 then rb_set_parent v p s else s)) =
    set_left p v (if v \<noteq> 0 then rb_set_parent v p (replace_child par a b s) else replace_child par a b s)"
  using assms by (auto intro!: rb_tree.equality simp: replace_child_def set_left_def set_right_def rb_set_parent_def upd_node_def left_of_def fun_eq_iff)

lemma at_splice_left:
  assumes t: "tree_at s (plug (In_Left e p r # C) (N d E b y))"
  shows "tree_at (set_left p (addr y) (if addr y \<noteq> 0 then rb_set_parent (addr y) p s else s)) (plug (In_Left e p r # C) y)"
    "right_of b s = addr y" "rb_parent b s = p" "rb_color b s = colour_bit d" "b \<noteq> 0" "p \<noteq> 0" "aligned4 b"
proof -
  have f: "left_of b s = 0" "right_of b s = addr y" "rb_parent b s = p" "rb_color b s = colour_bit d" "b \<noteq> 0" "aligned4 b"
    using at_node [OF t] by simp_all
  then show "right_of b s = addr y" "rb_parent b s = p" "rb_color b s = colour_bit d" "b \<noteq> 0" "aligned4 b" by simp_all
  have p: "p \<noteq> 0" "left_of p s = b" using at_node(7,1) [of s C e "N d E b y" p r] t by simp_all
  then show "p \<noteq> 0" by simp
  let ?s = "if addr y \<noteq> 0 then rb_set_parent (addr y) p s else s"
  have "left_of p ?s = b" using p(2) by (auto simp: left_of_def rb_set_parent_def upd_node_def)
  then have "replace_child p b (addr y) ?s = set_left p (addr y) ?s" using p(1) by (simp add: replace_child_def)
  moreover have "rep (rb_nodes s) b (addr y) y" using t f(2) by (simp add: tree_at_plug right_of_def del: plug.simps)
  then have "tree_at (replace_child (hole_parent (In_Left e p r # C)) b (addr y) (if addr y \<noteq> 0 then rb_set_parent (addr y) (hole_parent (In_Left e p r # C)) s else s)) (plug (In_Left e p r # C) y)"
    using t f(5,6) by (intro at_splice) (auto simp: tree_at_plug simp del: plug.simps)
  ultimately show "tree_at (set_left p (addr y) ?s) (plug (In_Left e p r # C) y)" by (simp only: hole_parent_simps)
qed

lemma unlink_far:
  assumes t: "tree_at s (plug C (N c l a (plug (In_Left e p r # D) (N d E b y))))" and l: "l \<noteq> E"
  shows "\<exists>s'. unlink_successor a b s = (addr y, p, colour_bit d, s') \<and> tree_at s' (plug C (N c l b (plug (In_Left e p r # D) y)))"
proof -
  let ?R = "plug (In_Left e p r # D) y" and ?K = "D @ In_Right c l a # C" and ?par = "hole_parent C"
  have t1: "tree_at s (plug (In_Left e p r # ?K) (N d E b y))" using t by (simp add: plug_append)
  note b = at_splice_left [OF t1]
  define s1 where "s1 = set_left p (addr y) (if addr y \<noteq> 0 then rb_set_parent (addr y) p s else s)"
  have s1: "tree_at s1 (plug C (N c l a ?R))" using b(1) by (simp add: s1_def plug_append)
  note f = at_node [OF t] note g = at_node [OF s1]
  have ds: "distinct (before C @ inorder l @ a # inorder ?R @ after C)" "b \<notin> set (before C)" "b \<notin> set (after C)" "b \<noteq> a" "b \<notin> set (inorder l)"
      "b \<notin> set (inorder ?R)" "p \<in> set (inorder ?R)"
    using t s1 by (auto simp: tree_at_plug inorder_plug)
  have RE: "?R \<noteq> E" using ds(7) by (metis empty_iff inorder.simps(1) list.set(1))
  have y: "y = E \<or> addr y \<in> set (inorder ?R)" using addr_in [of y] by (auto simp: inorder_plug)
  have pp: "?par \<noteq> p \<and> ?par \<noteq> addr y" if "?par \<noteq> 0"
    using hole_parent_in [of C] that y ds by (cases "C = []") auto
  define s3 where "s3 = replace_child ?par a b s1"
  have c3: "set_left p (addr y) (if addr y \<noteq> 0 then rb_set_parent (addr y) p (replace_child ?par a b s) else replace_child ?par a b s) = s3"
    unfolding s3_def s1_def using pp by (intro replace_child_commute [symmetric]) auto
  have ar: "around (rb_nodes s) (rb_root s) a C" "around (rb_nodes s1) (rb_root s1) a C" using t s1 by (simp_all add: tree_at_plug)
  have dC: "distinct (before C @ a # after C)" using ds(1) by auto
  have n0: "rb_nodes (replace_child ?par a b s) b = rb_nodes s b" using around_redirect(2) [OF ar(1) dC f(7)] ds by blast
  note red = around_redirect(1) [OF ar(2) dC f(7), where q = b, folded s3_def] around_redirect(2) [OF ar(2) dC f(7), where q = b, folded s3_def]
  define s5 where "s5 = rb_set_parent (addr ?R) b (set_right b (addr ?R) s3)"
  have Rin: "addr ?R \<in> set (inorder ?R)" by (rule addr_in [OF RE])
  have ne: "addr ?R \<noteq> b" "addr ?R \<noteq> a" "addr ?R \<notin> set (before C)" "addr ?R \<notin> set (after C)" "addr ?R \<notin> set (inorder l)" using Rin ds by auto
  have h5: "rb_nodes s5 u = (if u = b then (rb_nodes s1 u)\<lparr>rb_right := addr ?R\<rparr>
      else if u = addr ?R then (rb_nodes s1 u)\<lparr>rb_parent_color := (rb_parent_color (rb_nodes s1 u) AND 3) OR b\<rparr> else rb_nodes s1 u)"
    if "u \<notin> set (before C)" "u \<notin> set (after C)" for u
    using red(2) [OF that] ne(1) by (auto simp: s5_def rb_set_parent_def set_right_def upd_node_def)
  have rs: "rep (rb_nodes s1) a (addr l) l" "rep (rb_nodes s1) a (addr ?R) ?R" "rb_parent_color (rb_nodes s1 a) = word_of ?par c"
    using s1 g(1,2) by (simp_all add: tree_at_plug left_of_def right_of_def del: plug.simps)
  have "tree_at (let s = upd_node b (\<lambda>n. n\<lparr>rb_parent_color := rb_parent_color (rb_nodes s5 a)\<rparr>) s5; s = set_left b (left_of a s) s in rb_set_parent (left_of a s) b s)
    (plug C (N c l b ?R))"
  proof (rule at_exchange)
    show "around (rb_nodes s5) (rb_root s5) b C" using red(1) ds ne by (simp add: s5_def rb_set_parent_def set_right_def upd_node_def)
    have out: "u \<notin> set (before C)" "u \<notin> set (after C)" if "u \<in> set (inorder l) \<union> set (inorder ?R)" for u using ds(1) that by auto
    have "rb_nodes s5 u = rb_nodes s1 u" if "u \<in> set (inorder l)" for u using h5 [OF out] that ds(5) ne(5) by auto
    then show "rep (rb_nodes s5) a (addr l) l" using rs(1) rep_cong by blast
    show "rep (rb_nodes s5) b (addr ?R) ?R"
    proof (rule rep_moved [OF rs(2)])
      show "rb_nodes s5 u = rb_nodes s1 u" if "u \<in> set (inorder ?R)" "u \<noteq> addr ?R" for u using h5 [OF out] that ds(6) by auto
      show "rb_nodes s5 (addr ?R) = (rb_nodes s1 (addr ?R))\<lparr>rb_parent_color := (rb_parent_color (rb_nodes s1 (addr ?R)) AND 3) OR b\<rparr>"
        using h5 [OF ne(3,4)] ne(1) by simp
    qed (use ds(1) g(8) b(7) in auto)
    show "rb_parent_color (rb_nodes s5 a) = word_of ?par c" "rb_left (rb_nodes s5 a) = addr l" "rb_right (rb_nodes s5 b) = addr ?R"
      using ds ne rs(3) g(1) by (simp_all add: h5 left_of_def del: plug.simps)
  qed (use b ds l f(8) in \<open>auto simp: del: plug.simps\<close>)
  moreover have r: "right_of a s3 = addr ?R" "right_of a (set_right b (addr ?R) s3) = addr ?R"
    using g(2) red(2) dC ds(4) by (auto simp: right_of_def set_right_def upd_node_def simp del: plug.simps)
  have e: "right_of b (replace_child ?par a b s) = addr y" "rb_parent b (replace_child ?par a b s) = p" "rb_color b (replace_child ?par a b s) = colour_bit d"
    using b(2-4) n0 by (simp_all add: right_of_def rb_parent_def rb_color_def)
  have pa: "(p = a) = False" using ds by auto
  have "unlink_successor a b s = (addr y, p, colour_bit d,
      let s = upd_node b (\<lambda>n. n\<lparr>rb_parent_color := rb_parent_color (rb_nodes s5 a)\<rparr>) s5; s = set_left b (left_of a s) s in rb_set_parent (left_of a s) b s)"
    by (simp only: unlink_successor_def Let_def f(3) e pa if_False prod.case c3 r s5_def [symmetric])
  ultimately show ?thesis by blast
qed

lemma at_unlink_successor:
  assumes "tree_at s (plug C (N c l a (plug D (N d E b y))))" and "l \<noteq> E" and "left_path D"
  shows "\<exists>s'. unlink_successor a b s = (addr y, hole_parent (D @ In_Right c l b # C), colour_bit d, s') \<and> tree_at s' (plug (D @ In_Right c l b # C) y)"
proof (cases D)
  case Nil
  then show ?thesis using unlink_next [of s C c l a d b y] assms by simp
next
  case (Cons f D')
  then obtain e p r where "f = In_Left e p r" using assms(3) by (cases f) auto
  then show ?thesis using unlink_far [of s C c l a e p r D' d b y] assms Cons by (simp add: plug_append)
qed

section \<open>One round of the repair\<close>

text \<open>A subtree that is one black node short: painting its root black mends it when the root is red.\<close>

definition short :: "rbt \<Rightarrow> nat \<Rightarrow> bool" where
  "short t n = (if col t = Red then sub (blacken t) (Suc n) else sub t n)"

definition short_at :: "rb_tree \<Rightarrow> frame list \<Rightarrow> rbt \<Rightarrow> u64 list \<Rightarrow> bool" where
  "short_at s C t xs \<longleftrightarrow> (\<exists>n. tree_at s (plug C t) \<and> short t n \<and> fits C (Suc n) \<and> inorder (plug C t) = xs)"

lemma null_or_black_iff: "tree_at s (plug C t) \<Longrightarrow> null_or_black (addr t) s \<longleftrightarrow> col t = Black"
  by (cases t) (auto simp: null_or_black_def at_node(6,7))

lemma col_cases: "col t = Red \<Longrightarrow> \<exists>l a r. t = N Red l a r"
  by (cases t) auto

text \<open>The state after a round: either the loop is left with a balanced tree, or it goes on with a smaller problem.\<close>

definition round_result :: "nat \<Rightarrow> u64 list \<Rightarrow> (u64 \<times> u64 \<times> bool \<times> rb_tree) option \<Rightarrow> bool" where
  "round_result m xs r \<longleftrightarrow> (\<exists>node par brk s. r = Some (node, par, brk, s) \<and>
     (if brk then node = rb_root s \<and> (\<exists>T. tree_at s T \<and> rb_ok T \<and> inorder T = xs)
      else \<exists>C t. node = addr t \<and> par = hole_parent C \<and> short_at s C t xs \<and> 2 * length C + (if col t = Red then 0 else 1) < m))"

lemma round_goes_on:
  assumes "short_at s C t xs" and "2 * length C + (if col t = Red then 0 else 1) < m"
  shows "round_result m xs (Some (addr t, hole_parent C, False, s))"
  unfolding round_result_def using assms
  by - (rule exI [of _ "addr t"], rule exI [of _ "hole_parent C"], rule exI [of _ False], rule exI [of _ s],
    simp only: if_False simp_thms, rule exI [of _ C], rule exI [of _ t], simp)

lemma round_ends:
  assumes "tree_at s T" "rb_ok T" "inorder T = xs"
  shows "round_result m xs (Some (rb_root s, par, True, s))"
  unfolding round_result_def using assms
  by - (rule exI [of _ "rb_root s"], rule exI [of _ par], rule exI [of _ True], rule exI [of _ s], auto)

lemma at_final:
  assumes t: "tree_at s (plug C (N c t p (N Black x b (N Red y1 f y2))))"
  shows "\<exists>s'. rb_rotate_left p (rb_set_color f RB_BLACK (rb_set_color p RB_BLACK (rb_set_color b (rb_color p s) s))) = Some s' \<and>
    tree_at s' (plug C (N c (N Black t p x) b (N Black y1 f y2)))"
proof -
  have "tree_at (rb_set_color b (rb_color p s) s) (plug C (N c t p (N c x b (N Red y1 f y2))))"
    using at_right [OF t, of c] at_node(4) [OF t] by simp
  note q = paint(1) [OF this]
  have "tree_at (rb_set_color f RB_BLACK (rb_set_color p RB_BLACK (rb_set_color b (rb_color p s) s))) (plug C (N Black t p (N c x b (N Black y1 f y2))))"
    using paint(1) [where C = "In_Right c x b # In_Right Black t p # C", simplified, OF q] .
  then show ?thesis by (rule at_rotate_left)
qed

lemma tail_left_ends:
  assumes t: "tree_at s (plug C (N c t p (N Black x b (N Red y1 f y2))))" and sb: "sub t n" "sub x n" "sub (N Red y1 f y2) n"
    and fit: "fits (In_Left c p (N Black x b (N Red y1 f y2)) # C) (Suc n)"
  shows "\<exists>s'. right_of p s = b \<and> b \<noteq> 0 \<and> right_of b s = f \<and> f \<noteq> 0 \<and> right_of b (rb_set_color p RB_BLACK (rb_set_color b (rb_color p s) s)) = f \<and>
    rb_rotate_left p (rb_set_color f RB_BLACK (rb_set_color p RB_BLACK (rb_set_color b (rb_color p s) s))) = Some s' \<and>
    (\<exists>T. tree_at s' T \<and> rb_ok T \<and> inorder T = inorder (plug C (N c t p (N Black x b (N Red y1 f y2)))))"
proof -
  obtain s' where s': "rb_rotate_left p (rb_set_color f RB_BLACK (rb_set_color p RB_BLACK (rb_set_color b (rb_color p s) s))) = Some s'"
    "tree_at s' (plug C (N c (N Black t p x) b (N Black y1 f y2)))" using at_final [OF t] by blast
  have "f \<noteq> 0" using at_node(7) [where C = "In_Right Black x b # In_Right c t p # C"] t by simp
  moreover have "rb_ok (plug C (N c (N Black t p x) b (N Black y1 f y2)))"
  proof (cases c)
    case Red
    then show ?thesis using sb fit by (intro plug_ok [where n = "Suc n"]) auto
  next
    case Black
    then show ?thesis using sb fit by (intro plug_ok [where n = "Suc (Suc n)"]) auto
  qed
  moreover have "right_of b (rb_set_color p RB_BLACK (rb_set_color b (rb_color p s) s)) = right_of b s"
    by (simp add: right_of_def rb_set_color_def upd_node_def)
  ultimately show ?thesis using s' at_node(2) [OF t] at_child(10,15) [OF t]
    by (intro exI [of _ s']) (auto simp: inorder_plug intro!: exI [of _ "plug C (N c (N Black t p x) b (N Black y1 f y2))"])
qed

lemma tail_left_ok:
  assumes t: "tree_at s (plug C (N c t p (N Black x b y)))" and sb: "sub t n" and fit: "fits (In_Left c p (N Black x b y) # C) (Suc n)"
    and m: "2 * length C + 1 < m \<or> c = Red \<and> 2 * length C < m" and xs: "inorder (plug C (N c t p (N Black x b y))) = xs"
  shows "round_result m xs (erase_tail_left p s)"
proof -
  have f: "right_of p s = b" "b \<noteq> 0" "left_of b s = addr x" "right_of b s = addr y" using at_node(2) [OF t] at_child(9,10,15) [OF t] by simp_all
  have nx: "null_or_black (addr x) s \<longleftrightarrow> col x = Black" and ny: "null_or_black (addr y) s \<longleftrightarrow> col y = Black"
    using null_or_black_iff [of s "In_Left Black b y # In_Right c t p # C" x] null_or_black_iff [of s "In_Right Black x b # In_Right c t p # C" y] t by simp_all
  have sxy: "sub x n" "sub y n" using fit by simp_all
  show ?thesis
  proof (cases "col x = Black \<and> col y = Black")
    case True
    let ?s = "rb_set_color b RB_RED s"
    have t': "tree_at ?s (plug C (N c t p (N Red x b y)))" by (rule paint_right(2) [OF t])
    have e: "erase_tail_left p s = Some (p, hole_parent C, False, ?s)"
      using f nx ny True at_node(3) [OF t'] by (simp add: erase_tail_left_def Let_def)
    have "short_at ?s C (N c t p (N Red x b y)) xs"
      unfolding short_at_def using t' sb sxy True fit xs
      by (intro exI [of _ "if c = Red then n else Suc n"]) (cases c; auto simp: short_def inorder_plug)
    from round_goes_on [OF this, of m] show ?thesis unfolding e using m by (cases c) auto
  next
    case False
    have fin: ?thesis if r: "(if col y = Black then rb_rotate_right b (rb_set_color b RB_RED (rb_set_color (addr x) RB_BLACK s)) else Some s) = Some s1"
      "tree_at s1 (plug C (N c t p (N Black x' b' (N Red y1 f' y2))))" "sub x' n" "sub (N Red y1 f' y2) n"
      "inorder (plug C (N c t p (N Black x' b' (N Red y1 f' y2)))) = xs" for s1 x' b' y1 f' y2
    proof -
      have "fits (In_Left c p (N Black x' b' (N Red y1 f' y2)) # C) (Suc n)" using fit r(3,4) by simp
      from tail_left_ends [OF r(2) sb r(3,4) this] obtain s' where s': "right_of p s1 = b'" "b' \<noteq> 0" "right_of b' s1 = f'" "f' \<noteq> 0"
        "right_of b' (rb_set_color p RB_BLACK (rb_set_color b' (rb_color p s1) s1)) = f'"
        "rb_rotate_left p (rb_set_color f' RB_BLACK (rb_set_color p RB_BLACK (rb_set_color b' (rb_color p s1) s1))) = Some s'"
        "\<exists>T. tree_at s' T \<and> rb_ok T \<and> inorder T = xs" using r(5) by auto
      have "erase_tail_left p s = Some (rb_root s', p, True, s')" using f nx ny False r(1) s'(1-6) by (auto simp: erase_tail_left_def erase_finish_left_def Let_def split: if_splits)
      then show ?thesis using s'(7) round_ends by auto
    qed
    show ?thesis
    proof (cases "col y")
      case Red
      then obtain y1 f' y2 where y: "y = N Red y1 f' y2" using col_cases by blast
      show ?thesis using fin [of s x b y1 f' y2] t sxy xs y by simp
    next
      case Black
      then obtain x1 e x2 where x: "x = N Red x1 e x2" using False col_cases [of x] by (cases "col x") auto
      have "tree_at (rb_set_color e RB_BLACK s) (plug (In_Right c t p # C) (N Black (N Black x1 e x2) b y))"
        using paint(1) [where C = "In_Left Black b y # In_Right c t p # C", simplified] t x by simp
      from at_rotate_right [OF paint(2) [OF this]] obtain s1 where
        "rb_rotate_right b (rb_set_color b RB_RED (rb_set_color e RB_BLACK s)) = Some s1" "tree_at s1 (plug C (N c t p (N Black x1 e (N Red x2 b y))))" by auto
      then show ?thesis using fin [of s1 x1 e x2 b y] sxy xs x Black by (simp add: inorder_plug)
    qed
  qed
qed

lemma erase_round_left_ok:
  assumes t: "tree_at s (plug C (N c t p S))" and sb: "sub t n" and fit: "fits (In_Left c p S # C) (Suc n)" and xs: "inorder (plug C (N c t p S)) = xs"
  shows "round_result (2 * Suc (length C) + 1) xs (erase_round_left p s)"
proof -
  obtain d x b y where S: "S = N d x b y" using fit by (cases S) auto
  have b: "right_of p s = b" "b \<noteq> 0" "rb_is_red b s \<longleftrightarrow> d = Red" using at_node(2) [OF t] at_child(13,15) [of s C c t p d x b y] t S by simp_all
  show ?thesis
  proof (cases d)
    case Black
    then show ?thesis using tail_left_ok [of s C c t p x b y n _ xs] t sb fit xs S b by (simp add: erase_round_left_def)
  next
    case Red
    then have c: "c = Black" using fit S by (cases c) auto
    obtain x1 e x2 where x: "x = N Black x1 e x2" using fit S Red by (cases x) auto
    obtain s1 where s1: "rb_rotate_left p (rb_set_color p RB_RED (rb_set_color b RB_BLACK s)) = Some s1"
      "tree_at s1 (plug C (N Black (N Red t p x) b y))" using at_rotate_left [OF paint(2) [OF paint_right(1)]] t S by blast
    have "round_result (2 * Suc (length C) + 1) xs (erase_tail_left p s1)"
      using s1(2) sb fit xs S x Red c by (intro tail_left_ok [where C = "In_Left Black b y # C" and c = Red and t = t and n = n]) (auto simp: inorder_plug)
    then show ?thesis using s1(1) b Red by (simp add: erase_round_left_def)
  qed
qed

section \<open>The mirror image\<close>

definition flip_round :: "u64 \<times> u64 \<times> bool \<times> rb_tree \<Rightarrow> u64 \<times> u64 \<times> bool \<times> rb_tree" where
  "flip_round = (\<lambda>(node, par, brk, s). (node, par, brk, flip s))"

lemma flip_round_flip_round: "map_option flip_round (map_option flip_round r) = r"
  by (cases r) (auto simp: flip_round_def)

lemma flip_finish: "erase_finish_left p (flip s) = map_option flip_round (erase_finish_right p s)"
  by (simp add: erase_finish_left_def erase_finish_right_def Let_def flip_rotate option.map_comp comp_def flip_round_def)

lemma flip_tail: "erase_tail_left p (flip s) = map_option flip_round (erase_tail_right p s)"
proof -
  let ?b = "left_of p s"
  show ?thesis
    by (cases "rb_rotate_left ?b (rb_set_color ?b RB_RED (rb_set_color (right_of ?b s) RB_BLACK s))")
      (simp_all add: erase_tail_left_def erase_tail_right_def Let_def flip_rotate' flip_finish flip_round_def conj_commute)
qed

lemma flip_erase_round: "erase_round_left p (flip s) = map_option flip_round (erase_round_right p s)"
  by (cases "rb_rotate_right p (rb_set_color p RB_RED (rb_set_color (left_of p s) RB_BLACK s))")
    (auto simp: erase_round_left_def erase_round_right_def Let_def flip_rotate flip_tail)

lemma blacken_mirror: "blacken (mirror t) = mirror (blacken t)"
  by (cases t) simp_all

lemma short_at_flip:
  assumes "short_at s C t xs"
  shows "short_at (flip s) (map mirror_frame C) (mirror t) (rev xs)"
proof -
  obtain n where n: "tree_at s (plug C t)" "short t n" "fits C (Suc n)" "inorder (plug C t) = xs" using assms unfolding short_at_def by blast
  have "inorder (plug (map mirror_frame C) (mirror t)) = rev xs" using n(4) by (simp only: inorder_mirror flip: mirror_plug)
  then show ?thesis unfolding short_at_def using n tree_at_mirror [of s C t] by (intro exI [of _ n]) (simp add: short_def blacken_mirror)
qed

lemma rb_ok_mirror: "rb_ok (mirror t) = rb_ok t"
proof -
  have "rb_ok t \<longleftrightarrow> (\<exists>n. sub t n) \<and> col t = Black" for t by (auto simp: rb_ok_def sub_def)
  then show ?thesis by simp
qed

lemma round_result_flip:
  assumes "round_result m xs r"
  shows "round_result m (rev xs) (map_option flip_round r)"
proof -
  obtain node par brk s where r: "r = Some (node, par, brk, s)" "if brk then node = rb_root s \<and> (\<exists>T. tree_at s T \<and> rb_ok T \<and> inorder T = xs)
      else \<exists>C t. node = addr t \<and> par = hole_parent C \<and> short_at s C t xs \<and> 2 * length C + (if col t = Red then 0 else 1) < m"
    using assms unfolding round_result_def by blast
  show ?thesis
  proof (cases brk)
    case True
    then obtain T where "tree_at (flip s) (mirror T)" "rb_ok (mirror T)" "inorder (mirror T) = rev xs" using r(2) tree_at_flip rb_ok_mirror inorder_mirror by force
    from round_ends [OF this, of m par] show ?thesis using r True by (simp add: flip_round_def)
  next
    case False
    then obtain C t where c: "node = addr t" "par = hole_parent C" "short_at s C t xs" "2 * length C + (if col t = Red then 0 else 1) < m" using r(2) by auto
    have "round_result m (rev xs) (Some (addr (mirror t), hole_parent (map mirror_frame C), False, flip s))"
      using c(4) by (intro round_goes_on short_at_flip [OF c(3)]) simp
    then show ?thesis using r(1) c(1,2) False by (simp add: flip_round_def)
  qed
qed

lemma erase_round_right_ok:
  assumes t: "tree_at s (plug C (N c S p t))" and sb: "sub t n" and fit: "fits (In_Right c S p # C) (Suc n)" and xs: "inorder (plug C (N c S p t)) = xs"
  shows "round_result (2 * Suc (length C) + 1) xs (erase_round_right p s)"
proof -
  let ?C = "map mirror_frame C"
  have m: "tree_at (flip s) (plug ?C (N c (mirror t) p (mirror S)))" using tree_at_mirror [of s C "N c S p t"] t by simp
  moreover have "fits (In_Left c p (mirror S) # ?C) (Suc n)" using mirror_context(2) [of "In_Right c S p # C" "Suc n"] fit by simp
  moreover have "inorder (plug ?C (N c (mirror t) p (mirror S))) = rev xs" using inorder_mirror [of "plug C (N c S p t)"] xs by (simp add: mirror_plug)
  ultimately have "round_result (2 * Suc (length ?C) + 1) (rev xs) (erase_round_left p (flip s))" using sb by (intro erase_round_left_ok [of _ _ _ _ _ _ n]) simp_all
  from round_result_flip [OF this] show ?thesis by (simp add: flip_erase_round flip_round_flip_round)
qed

section \<open>The loop\<close>

definition paint_black :: "u64 \<Rightarrow> rb_tree \<Rightarrow> rb_tree" where
  "paint_black node s = (if node \<noteq> 0 then rb_set_color node RB_BLACK s else s)"

lemma erase_color_step:
  "rb_erase_color node par s =
     (if null_or_black node s \<and> node \<noteq> rb_root s
      then Option.bind (erase_round node par s) (\<lambda>(node, par, brk, s). if brk then Some (paint_black node s) else rb_erase_color node par s)
      else Some (paint_black node s))"
proof -
  have e: "rb_erase_color node par s = map_option (\<lambda>(node, s). paint_black node s) (erase_loop node par s)" for node par s
    by (simp add: rb_erase_color_def paint_black_def)
  show ?thesis unfolding e by (subst erase_loop.simps) (cases "erase_round node par s"; auto)
qed

lemma paint_black_tree: "tree_at s (plug C t) \<Longrightarrow> tree_at (paint_black (addr t) s) (plug C (blacken t))"
  by (cases t) (auto simp: paint_black_def paint(1) dest: at_node(7))

lemma rb_ok_blacken: "rb_ok t \<Longrightarrow> blacken t = t"
  by (cases t) (auto simp: rb_ok_def)

lemma root_addr: "tree_at s t \<Longrightarrow> rb_root s = addr t"
  unfolding tree_at_def by (blast dest: rep_addr)

lemma not_root:
  assumes "tree_at s (plug C t)" and "C \<noteq> []"
  shows "addr t \<noteq> rb_root s"
proof -
  have r: "rb_root s = addr (plug C t)" by (rule root_addr [OF assms(1)])
  have i: "addr (plug C t) \<in> set (before C) \<union> set (after C)" using addr_plug [OF assms(2), of t] by simp
  have t: "around (rb_nodes s) (rb_root s) (addr t) C" "distinct (before C @ inorder t @ after C)" using assms(1) by (simp_all add: tree_at_plug)
  then have "addr (plug C t) \<noteq> 0" using around_nonzero [OF t(1) i] by simp
  then show ?thesis using r i t(2) addr_in [of t] by (cases "t = E") auto
qed

lemma erase_round_ok:
  assumes t: "tree_at s (plug (f # C) t)" and sb: "sub t n" and fit: "fits (f # C) (Suc n)" and xs: "inorder (plug (f # C) t) = xs"
  shows "round_result (2 * Suc (length C) + 1) xs (erase_round (addr t) (frame_addr f) s)"
proof (cases f)
  case (In_Left c p S)
  have "left_of p s = addr t" "p \<noteq> 0" using at_node(1,7) [of s C c t p S] t In_Left by simp_all
  then show ?thesis using erase_round_left_ok [of s C c t p S n xs] assms In_Left by (simp add: erase_round_def)
next
  case (In_Right c S p)
  have p: "left_of p s = addr S" "p \<noteq> 0" using at_node(1,7) [of s C c S p t] t In_Right by simp_all
  have "S \<noteq> E" using fit In_Right by auto
  then have "addr S \<noteq> addr t" using not_both_children [of s C c S p t] t In_Right by simp
  then show ?thesis using erase_round_right_ok [of s C c S p t n xs] assms In_Right p by (simp add: erase_round_def)
qed

lemma rb_erase_color_ok:
  assumes "short_at s C t xs"
  shows "\<exists>s' T. rb_erase_color (addr t) (hole_parent C) s = Some s' \<and> tree_at s' T \<and> rb_ok T \<and> inorder T = xs"
  using assms
proof (induction "2 * length C + (if col t = Red then 0 else 1 :: nat)" arbitrary: s C t rule: less_induct)
  case less
  obtain n where n: "tree_at s (plug C t)" "short t n" "fits C (Suc n)" "inorder (plug C t) = xs" using less.prems unfolding short_at_def by blast
  note nb = null_or_black_iff [OF n(1)]
  have ends: ?case if "rb_erase_color (addr t) (hole_parent C) s = Some (paint_black (addr t) s)" "rb_ok (plug C (blacken t))"
    using that paint_black_tree [OF n(1)] n(4) by (intro exI [of _ "paint_black (addr t) s"] exI [of _ "plug C (blacken t)"]) (simp add: inorder_plug)
  show ?case
  proof (cases "col t")
    case Red
    then have "rb_ok (plug C (blacken t))" using n(2,3) by (intro plug_ok [where n = "Suc n"]) (cases t; auto simp: short_def)+
    moreover have "rb_erase_color (addr t) (hole_parent C) s = Some (paint_black (addr t) s)" using nb Red by (subst erase_color_step) simp
    ultimately show ?thesis using ends by blast
  next
    case Black
    then have sb: "sub t n" using n(2) by (simp add: short_def)
    show ?thesis
    proof (cases C)
      case Nil
      then have t: "rb_ok t" "rb_root s = addr t" using sb Black n(1) root_addr by (auto simp: rb_ok_def sub_def)
      then have "rb_erase_color (addr t) (hole_parent C) s = Some (paint_black (addr t) s)" by (subst erase_color_step) simp
      then show ?thesis using ends Nil t(1) rb_ok_blacken by simp
    next
      case (Cons f D)
      have "round_result (2 * Suc (length D) + 1) xs (erase_round (addr t) (frame_addr f) s)" using erase_round_ok [of s f D t n xs] n sb Cons by simp
      then obtain node par brk s' where r: "erase_round (addr t) (hole_parent C) s = Some (node, par, brk, s')"
        "if brk then node = rb_root s' \<and> (\<exists>T. tree_at s' T \<and> rb_ok T \<and> inorder T = xs)
         else \<exists>C t. node = addr t \<and> par = hole_parent C \<and> short_at s' C t xs \<and> 2 * length C + (if col t = Red then 0 else 1) < 2 * Suc (length D) + 1"
        using Cons unfolding round_result_def by (auto simp: hole_parent_def)
      have e: "rb_erase_color (addr t) (hole_parent C) s = (if brk then Some (paint_black node s') else rb_erase_color node par s')"
        using nb Black not_root [OF n(1)] Cons r(1) by (subst erase_color_step) simp
      show ?thesis
      proof (cases brk)
        case True
        then obtain T where T: "node = rb_root s'" "tree_at s' T" "rb_ok T" "inorder T = xs" using r(2) by auto
        have "rb_root s' = addr T" by (rule root_addr [OF T(2)])
        then have "tree_at (paint_black node s') T" using paint_black_tree [of s' "[]" T] T rb_ok_blacken by simp
        then show ?thesis using e True T by auto
      next
        case False
        then obtain C' t' where "node = addr t'" "par = hole_parent C'" "short_at s' C' t' xs" "2 * length C' + (if col t' = Red then 0 else 1) < 2 * Suc (length D) + 1"
          using r(2) by auto
        then show ?thesis using less.hyps [of C' t' s'] e False Black Cons by simp
      qed
    qed
  qed
qed

end
