(* ===== verification/RBTree_Props.thy ===== *)
theory RBTree_Props
  imports RBTree_Erase
begin

text \<open>
  Deletion and traversal put together, and what the red-black tree library guarantees: the trees it
  makes are balanced and represent the expected sequence of nodes.
\<close>

section \<open>Deletion\<close>

lemma plug_at: "a \<in> set (inorder t) \<Longrightarrow> \<exists>C c l r. t = plug C (N c l a r)"
proof (induction t)
  case (N c l b r)
  then consider "a = b" | "a \<in> set (inorder l)" | "a \<in> set (inorder r)" by auto
  then show ?case
  proof cases
    case 1
    then show ?thesis by (intro exI [of _ "[]"]) auto
  next
    case 2
    then obtain C c' l' r' where "l = plug C (N c' l' a r')" using N.IH(1) by blast
    then show ?thesis by (intro exI [of _ "C @ [In_Left c b r]"] exI [of _ c'] exI [of _ l'] exI [of _ r']) (simp add: plug_append)
  next
    case 3
    then obtain C c' l' r' where "r = plug C (N c' l' a r')" using N.IH(2) by blast
    then show ?thesis by (intro exI [of _ "C @ [In_Right c l b]"] exI [of _ c'] exI [of _ l'] exI [of _ r']) (simp add: plug_append)
  qed
qed simp

lemma fits_relabel: "fits (D @ In_Right c l b # C) n = fits (D @ In_Right c l a # C) n"
proof (induction D arbitrary: n)
  case (Cons f D)
  have "hole_black (D @ In_Right c l b # C) = hole_black (D @ In_Right c l a # C)" by (cases D) (auto simp: hole_black_def)
  then show ?case using Cons by (cases f) auto
qed simp

lemma unlinked_ok:
  assumes t: "tree_at s (plug K x)" and f: "fits K m" "sub (N d l b r) m" and x: "l = E \<and> x = r \<or> r = E \<and> x = l"
  shows "\<exists>s' T. (if colour_bit d = RB_BLACK then rb_erase_color (addr x) (hole_parent K) s else Some s) = Some s' \<and>
    tree_at s' T \<and> rb_ok T \<and> inorder T = inorder (plug K x)"
proof (cases d)
  case Red
  then have "rb_ok (plug K x)" using f x by (intro plug_ok [OF f(1)]) auto
  then show ?thesis using t Red by (auto simp: colour_bits(4))
next
  case Black
  then obtain n where "m = Suc n" "sub x n" using f(2) x by (cases m) auto
  then have "short_at s K x (inorder (plug K x))" unfolding short_at_def using t f(1) by (intro exI [of _ n]) (cases x; auto simp: short_def dest: col_cases)
  from rb_erase_color_ok [OF this] show ?thesis using Black by (simp add: colour_bits(4))
qed

lemma rb_erase_ok:
  assumes t: "tree_at s T" and ok: "rb_ok T" and a: "a \<in> set (inorder T)"
  shows "\<exists>s' T'. rb_erase a s = Some s' \<and> tree_at s' T' \<and> rb_ok T' \<and> inorder T' = remove1 a (inorder T)"
proof -
  obtain C c l r where T: "T = plug C (N c l a r)" using plug_at [OF a] by blast
  note tC = t [unfolded T] note okC = ok_plug [OF ok [unfolded T]]
  have d: "a \<notin> set (before C)" "a \<notin> set (inorder l)" using tC by (auto simp: tree_at_plug)
  note f = at_node [OF tC]
  have simple: ?thesis if x: "l = E \<and> x = r \<or> r = E \<and> x = l" and e: "rb_erase a s = (case unlink_simple a (addr x) s of (child, parent, color, s) \<Rightarrow>
      if color = RB_BLACK then rb_erase_color child parent s else Some s)" for x
  proof -
    obtain s1 where s1: "unlink_simple a (addr x) s = (addr x, hole_parent C, colour_bit c, s1)" "tree_at s1 (plug C x)" using at_unlink_simple [OF tC x] by blast
    have "inorder (plug C x) = remove1 a (inorder T)" using d x by (auto simp: T inorder_plug remove1_append)
    then show ?thesis using unlinked_ok [OF s1(2) _ _ x, of "bh (N c l a r)" c a] okC e s1(1) by simp
  qed
  have z: "addr l = 0 \<longleftrightarrow> l = E" "addr r = 0 \<longleftrightarrow> r = E" using tC by (cases l; cases r; auto dest: at_child(7,15))+
  consider "l = E" | "l \<noteq> E" "r = E" | "l \<noteq> E" "r \<noteq> E" by blast
  then show ?thesis
  proof cases
    case 1
    then show ?thesis using simple [of r] f(1,2) by (simp add: rb_erase_def)
  next
    case 2
    then show ?thesis using simple [of l] f(1,2) z by (simp add: rb_erase_def)
  next
    case 3
    have "tree_at s (plug (In_Right c l a # C) r)" using tC by simp
    from walk_left_leftmost [OF this 3(2)] obtain D d' b y where D: "r = plug D (N d' E b y)" "left_path D" "walk_left (addr r) s = Some b" by blast
    obtain s1 where s1: "unlink_successor a b s = (addr y, hole_parent (D @ In_Right c l b # C), colour_bit d', s1)" "tree_at s1 (plug (D @ In_Right c l b # C) y)"
      using at_unlink_successor [OF _ 3(1) D(2), of s C c a d' b y] tC D(1) by auto
    have w: "plug C (N c l a r) = plug (D @ In_Right c l a # C) (N d' E b y)" by (simp add: D(1) plug_append)
    have "fits (D @ In_Right c l a # C) (bh (N d' E b y)) \<and> sub (N d' E b y) (bh (N d' E b y))" using ok_plug ok T w by metis
    then have m: "fits (D @ In_Right c l b # C) (bh (N d' E b y))" "sub (N d' E b y) (bh (N d' E b y))" using fits_relabel [of D c l b C _ a] by blast+
    have "\<exists>s' T'. (if colour_bit d' = RB_BLACK then rb_erase_color (addr y) (hole_parent (D @ In_Right c l b # C)) s1 else Some s1) = Some s' \<and>
        tree_at s' T' \<and> rb_ok T' \<and> inorder T' = inorder (plug (D @ In_Right c l b # C) y)"
      by (rule unlinked_ok [OF s1(2) m]) simp
    moreover have "inorder (plug (D @ In_Right c l b # C) y) = remove1 a (inorder T)"
      using d left_path_before [OF D(2)] by (auto simp: T D(1) inorder_plug plug_append remove1_append)
    moreover have "rb_erase a s = (if colour_bit d' = RB_BLACK then rb_erase_color (addr y) (hole_parent (D @ In_Right c l b # C)) s1 else Some s1)"
      using f(1,2) z 3 D(3) s1(1) by (simp add: rb_erase_def)
    ultimately show ?thesis by simp
  qed
qed

section \<open>Traversal\<close>

definition head_or_null :: "u64 list \<Rightarrow> u64" where
  "head_or_null xs = (case xs of [] \<Rightarrow> 0 | x # _ \<Rightarrow> x)"

lemma head_or_null_simps [simp]: "head_or_null [] = 0" "head_or_null (x # xs) = x"
  by (simp_all add: head_or_null_def)

lemma walk_left_head:
  assumes "tree_at s (plug C t)" and "t \<noteq> E"
  shows "walk_left (addr t) s = Some (hd (inorder t))" "inorder t \<noteq> []"
proof -
  obtain D d b y where "t = plug D (N d E b y)" "left_path D" "walk_left (addr t) s = Some b" using walk_left_leftmost [OF assms] by blast
  then show "walk_left (addr t) s = Some (hd (inorder t))" by (simp add: inorder_plug left_path_before)
  show "inorder t \<noteq> []" using assms(2) by (cases t) auto
qed

lemma climb_right_next:
  assumes "tree_at s (plug C t)" and "t \<noteq> E"
  shows "climb_right (addr t) s = Some (head_or_null (after C))"
  using assms
proof (induction C arbitrary: t)
  case Nil
  obtain c l a r where t: "t = N c l a r" using Nil(2) by (cases t) auto
  have "rb_parent a s = 0" using at_node(3) [of s "[]" c l a r] Nil(1) t by simp
  then show ?case using t by (subst climb_right.simps) simp
next
  case (Cons f C)
  obtain d l a r where t: "t = N d l a r" using Cons.prems(2) by (cases t) auto
  have par: "rb_parent a s = hole_parent (f # C)" using at_node(3) [of s "f # C" d l a r] Cons.prems(1) t by simp
  show ?case
  proof (cases f)
    case (In_Left c p S)
    have "tree_at s (plug C (N c t p S))" using Cons.prems(1) In_Left by simp
    note g = at_node(2,7) [OF this] not_both_children [OF this Cons.prems(2)]
    show ?thesis using par g t In_Left by (subst climb_right.simps) auto
  next
    case (In_Right c S p)
    have "tree_at s (plug C (N c S p t))" using Cons.prems(1) In_Right by simp
    note g = at_node(2,7) [OF this] Cons.IH [OF this]
    show ?thesis using par g t In_Right by (subst climb_right.simps) auto
  qed
qed

lemma split_at:
  assumes "distinct (xs @ a # ys)" and "xs @ a # ys = us @ a # vs"
  shows "xs = us" "ys = vs"
  using assms by (metis append_Cons_eq_iff distinct.simps(2) distinct_append not_distinct_conv_prefix)+

lemma rb_next_ok:
  assumes t: "tree_at s T" and i: "inorder T = xs @ a # ys"
  shows "rb_next a s = Some (head_or_null ys)"
proof -
  obtain C c l r where T: "T = plug C (N c l a r)" using plug_at [of a T] i by auto
  note tC = t [unfolded T] note f = at_node [OF tC]
  have "distinct (xs @ a # ys)" using t i by (simp add: tree_at_def)
  from split_at [OF this, of "before C @ inorder l" "inorder r @ after C"] have ys: "ys = inorder r @ after C" using i T by (simp add: inorder_plug)
  show ?thesis
  proof (cases "r = E")
    case True
    then show ?thesis using f climb_right_next [OF tC] ys by (simp add: rb_next_def)
  next
    case False
    have tr: "tree_at s (plug (In_Right c l a # C) r)" using tC by simp
    have "addr r \<noteq> 0" using tC False by (cases r) (auto dest: at_child(15))
    then show ?thesis using f walk_left_head [OF tr False] ys False by (cases "inorder r") (simp_all add: rb_next_def)
  qed
qed

lemma rb_first_ok:
  assumes t: "tree_at s T" shows "rb_first s = Some (head_or_null (inorder T))"
proof (cases "T = E")
  case True
  then show ?thesis using root_addr [OF t] by (simp add: rb_first_def)
next
  case False
  have "addr T \<noteq> 0" using t False addr_in [of T] rep_nonzero [of "rb_nodes s" 0 "rb_root s" T] by (auto simp: tree_at_def)
  then show ?thesis using root_addr [OF t] walk_left_head [of s "[]" T] t False by (cases "inorder T") (auto simp: rb_first_def)
qed

text \<open>The other direction is the mirror image.\<close>

lemma walk_right_flip: "walk_left n s = Some y \<Longrightarrow> walk_right n (flip s) = Some y"
  by (erule walk_left.raw_induct [where P = "\<lambda>n s y. walk_right n (flip s) = Some y", rotated])
    (subst walk_right.simps, auto split: if_splits)

lemma climb_left_flip: "climb_right n s = Some y \<Longrightarrow> climb_left n (flip s) = Some y"
  by (erule climb_right.raw_induct [where P = "\<lambda>n s y. climb_left n (flip s) = Some y", rotated])
    (subst climb_left.simps, auto simp: Let_def split: if_splits)

lemma rb_prev_flip: "rb_next n s = Some y \<Longrightarrow> rb_prev n (flip s) = Some y"
  by (auto simp: rb_next_def rb_prev_def walk_right_flip climb_left_flip split: if_splits)

lemma rb_last_flip: "rb_first s = Some y \<Longrightarrow> rb_last (flip s) = Some y"
  by (auto simp: rb_first_def rb_last_def walk_right_flip split: if_splits)

lemma rb_prev_ok:
  assumes "tree_at s T" and "inorder T = xs @ a # ys"
  shows "rb_prev a s = Some (head_or_null (rev xs))"
proof -
  have "tree_at (flip s) (mirror T)" "inorder (mirror T) = rev ys @ a # rev xs" using assms by (simp_all add: tree_at_flip inorder_mirror)
  from rb_prev_flip [OF rb_next_ok [OF this]] show ?thesis by simp
qed

lemma rb_last_ok:
  assumes "tree_at s T" shows "rb_last s = Some (head_or_null (rev (inorder T)))"
  using rb_last_flip [OF rb_first_ok [of "flip s" "mirror T"]] assms by (simp add: tree_at_flip inorder_mirror)

section \<open>What the library guarantees\<close>

text \<open>A tree of three nodes, for examples.\<close>

definition ex_rb :: rb_tree where
  "ex_rb = \<lparr>rb_nodes = (\<lambda>a. if a = 0x20 then \<lparr>rb_parent_color = 1, rb_right = 0x30, rb_left = 0x10\<rparr> else \<lparr>rb_parent_color = 0x20, rb_right = 0, rb_left = 0\<rparr>), rb_root = 0x20\<rparr>"

lemma ex_rb_tree: "tree_at ex_rb (N Black (N Red E 0x10 E) 0x20 (N Red E 0x30 E))" "rb_ok (N Black (N Red E 0x10 E) 0x20 (N Red E 0x30 E))"
  by (simp_all add: tree_at_def ex_rb_def aligned4_def word_of_def colour_bit_def rb_ok_def)

text \<open>C9: insertion keeps a red-black tree well formed. Take any well-formed tree, that is one whose parent
  pointers are in place, whose root is black, where no red node has a red child and every path down has the same number of black
  nodes, and any null pointer in it. Linking a new node there and rebalancing ends without following a null pointer and gives a
  well-formed tree, whose nodes in order are the old ones with the new one at the place where it was linked.\<close>

theorem rb_insert_exact:
  assumes "tree_at s (plug C E)" and "rb_ok (plug C E)" and "a \<noteq> 0" "a AND 3 = 0" "a \<notin> set (inorder (plug C E))"
  shows "\<exists>s' t. rb_insert_color a (rb_link_node a (hole_parent C) (slot_of C) s) = Some s' \<and> tree_at s' t \<and> rb_ok t \<and> inorder t = before C @ a # after C"
  using rb_insert_ok [OF assms(1,2,3) _ assms(5)] assms(4) by (simp add: aligned4_def)

theorem rb_insert_exact_witness:
  "\<exists>s' t. rb_insert_color 0x28 (rb_link_node 0x28 0x30 (Left_Slot 0x30) ex_rb) = Some s' \<and> tree_at s' t \<and> rb_ok t \<and> inorder t = [0x10, 0x20, 0x28, 0x30]"
proof -
  let ?C = "[In_Left Red 0x30 E, In_Right Black (N Red E 0x10 E) 0x20]"
  have "tree_at ex_rb (plug ?C E)" "rb_ok (plug ?C E)" using ex_rb_tree by simp_all
  from rb_insert_exact [OF this, of "0x28"] show ?thesis by (simp add: slot_of_def)
qed

text \<open>C8: deletion keeps a red-black tree well formed. Erasing any node of a well-formed tree ends without
  following a null pointer and gives a well-formed tree, whose nodes in order are the old ones without the erased one.\<close>

theorem rb_erase_exact:
  assumes "tree_at s t" and "rb_ok t" and "a \<in> set (inorder t)"
  shows "\<exists>s' t'. rb_erase a s = Some s' \<and> tree_at s' t' \<and> rb_ok t' \<and> inorder t' = remove1 a (inorder t)"
  using rb_erase_ok [OF assms] .

theorem rb_erase_exact_witness: "\<exists>s' t'. rb_erase 0x20 ex_rb = Some s' \<and> tree_at s' t' \<and> rb_ok t' \<and> inorder t' = [0x10, 0x30]"
  using rb_erase_exact [OF ex_rb_tree, of "0x20"] by simp

text \<open>C26: traversal follows the order of the nodes. In a represented tree the first and the last node,
  the successor and the predecessor of a node are those of the in-order sequence, and null where there is none; all four walks end.\<close>

theorem rb_traversal_exact:
  assumes "tree_at s t" and "inorder t = xs @ a # ys"
  shows "rb_next a s = Some (if ys = [] then 0 else hd ys) \<and> rb_prev a s = Some (if xs = [] then 0 else last xs) \<and>
    rb_first s = Some (hd (inorder t)) \<and> rb_last s = Some (last (inorder t))"
proof -
  have "head_or_null zs = (if zs = [] then 0 else hd zs)" for zs by (cases zs) auto
  then show ?thesis
    using rb_next_ok [OF assms] rb_prev_ok [OF assms] rb_first_ok [OF assms(1)] rb_last_ok [OF assms(1)] assms(2) by (simp add: hd_rev)
qed

theorem rb_traversal_exact_witness: "rb_next 0x10 ex_rb = Some 0x20 \<and> rb_prev 0x10 ex_rb = Some 0"
  using rb_traversal_exact [OF ex_rb_tree(1), of "[]" "0x10" "[0x20, 0x30]"] by simp

end
