(* ===== verification/Spec2Isabelle.thy ===== *)
theory Spec2Isabelle
  imports List_Head KString Bitmap Slab_Heap Sched_Props Paging_Props Vmm_Brk Fd_Props Process_Props RBTree_Props
begin

text \<open>
  A verification development for the kernel of Obelisk OS, a small x86-64 operating system in C.
  It follows the kernel from the bottom up: the libraries, the memory of the machine, the heap, page
  tables and address spaces, the scheduler, files and descriptors, and the processes that tie them
  together.

  \<^bold>\<open>Conventions.\<close> Machine integers are words of their width and wrap as the code's do. A C object is
  named by its address, 0 is \<^verbatim>\<open>NULL\<close>, and its fields are a record in a store indexed by the address, so
  that aliasing is visible. A routine that mutates state takes the state and returns the new one.
  Error numbers are values of \<^typ>\<open>errno\<close> on the left of a sum. A loop that might not end, a panic and
  a null pointer that is followed are \<^const>\<open>None\<close> of an option type, and theorems that say a routine
  returns prove \<^const>\<open>Some\<close>. Locks, barriers and log output carry no behaviour in the model: the kernel
  is modelled as it runs on one processor, and what other processes do while one waits is an argument.
  The operations a file system installs in its superblock are arguments as well.

  \<^bold>\<open>Libraries.\<close> \<open>Obelisk_Prelude\<close> has the integer types, error numbers and address macros of
  \<^verbatim>\<open>include/obelisk\<close>, facts on words and lists shared by all, and the locale of a bit array.
  \<open>List_Head\<close> models the intrusive lists of \<^verbatim>\<open>types.h\<close> on next and previous pointers and refines them
  to lists. \<open>KString\<close> is \<^verbatim>\<open>lib/string.c\<close> on byte memory with wrapping addresses: copies with and without
  overlap, comparison, search, number parsing. \<open>Bitmap\<close> is \<^verbatim>\<open>lib/bitmap.c\<close>. \<open>Support\<close> has the Zig helpers
  for checked arithmetic and path validation. \<open>RBTree\<close> is \<^verbatim>\<open>lib/rbtree.c\<close>; \<open>RBTree_Shape\<close> says what tree a
  store of nodes represents and gives one rule per pointer primitive, \<open>RBTree_Insert\<close> and \<open>RBTree_Erase\<close>
  show that rebalancing works, \<open>RBTree_Props\<close> states the result: insertion and deletion keep balanced
  trees balanced and change the sequence of nodes as they should, without following a null pointer.

  \<^bold>\<open>Memory.\<close> \<open>PhysMem\<close> is the page frame allocator \<^verbatim>\<open>mm/pmm.c\<close>, refined to the set of free frames: counters
  exact in every reachable state, first fit, disjointness, round trip. \<open>Slab\<close> and \<open>Slab_Heap\<close> are
  \<^verbatim>\<open>mm/kmalloc.c\<close>, refined to the set of live objects: what a cache hands out was not live, live objects
  do not overlap, freeing removes exactly one. \<open>Paging\<close>, \<open>Paging_Tree\<close>, \<open>Paging_Props\<close> are the four-level
  page tables of \<^verbatim>\<open>arch/x86_64/mm/paging.c\<close>: a mapping changes one page of one address space and nothing
  else. \<open>Vmm\<close>, \<open>Vmm_Pages\<close>, \<open>Vmm_Areas\<close>, \<open>Vmm_Props\<close>, \<open>Vmm_Clone\<close>, \<open>Vmm_Brk\<close> are \<^verbatim>\<open>mm/vmm.c\<close>: areas, mmap,
  munmap, brk, page faults, checks of user pointers, and the copy of an address space for fork.

  \<^bold>\<open>Scheduler.\<close> \<open>Sched\<close> is \<^verbatim>\<open>proc/scheduler.c\<close>. \<open>Sched_Inv\<close> has the invariant of the run queues and the
  step relation of all entry points; \<open>Sched_Props\<close> the invariant in every reachable state, choice of
  the best priority, round robin and timed wake-up.

  \<^bold>\<open>Files.\<close> \<open>Dcache\<close> models \<^verbatim>\<open>fs/inode.c\<close>, \<^verbatim>\<open>fs/dentry.c\<close> and the reference counts of \<^verbatim>\<open>fs/file.c\<close>;
  \<open>Dcache_Refs\<close> shows the counts of directory entries exact. \<open>Fdtable\<close> has the descriptor tables of
  \<^verbatim>\<open>proc/process.c\<close> and close, dup and dup2 of \<^verbatim>\<open>syscall.c\<close>; \<open>Fd_Refs\<close> and \<open>Fd_Props\<close> show the counts
  of open files exact, also across fork and exit of a table.

  \<^bold>\<open>Processes.\<close> \<open>Process\<close> is \<^verbatim>\<open>proc/process.c\<close> and \<^verbatim>\<open>proc/fork.c\<close> over all of the above.
  \<open>Process_Table\<close> has the invariant of the process table and the effect of creation and
  destruction, \<open>Process_Fork\<close> the copies fork makes, \<open>Process_Props\<close> fork, the first frame of the child,
  and wait.

  \<^bold>\<open>Interfaces.\<close> The locale \<open>bit_array\<close> is interpreted on the bitmap library and on the allocator's
  own bitmap. The locale \<open>page_source\<close>, which the heap uses, is interpreted on the page allocator.

  \<^bold>\<open>Bounds.\<close> No fuel is used: recursive definitions are structural, have a measure, or are partial
  functions with the option result described above. Sizes of C structures (\<open>sizeof_process\<close>
  and the like) are those of the x86-64 calling convention.

  \<^bold>\<open>Not modelled.\<close> Path lookup, mounts and the dispatch of file operations (\<^verbatim>\<open>fs/vfs.c\<close>), axiomfs and devfs,
  the program loader, message queues and shared memory, sysctl, the network stack, formatted output and
  the system calls other than those named: they sit above what is modelled, and their effect on it goes
  through the routines that are. Device drivers, boot, interrupt and context-switch code are hardware
  accesses and assembly. The user programs are not part of the kernel.
\<close>

end
